(* ===== verification/Prelude.thy ===== *)
theory Prelude
  imports Main "HOL-Library.Word" "HOL-Library.List_Lexorder" "HOL-Library.Product_Lexorder"
begin

unbundle bit_operations_syntax

section \<open>Prelude: results, machine integers and byte strings\<close>

text \<open>
  What every component of the development shares: the Rust result type and its \<open>?\<close>
  operator, checked and saturating arithmetic on unsigned machine integers, byte strings
  in big-endian and little-endian order, and generic lemmas on lists, maps and words.
  Collections: \<open>result_simps\<close> inverts a successful or failing run of fallible code,
  \<open>checked_simps\<close> turns the checked operations into facts about natural numbers.
\<close>

named_theorems result_simps \<open>inversion of successful and failing runs\<close>
named_theorems checked_simps \<open>checked machine arithmetic as arithmetic on natural numbers\<close>

type_synonym u8 = "8 word"
type_synonym u16 = "16 word"
type_synonym u32 = "32 word"
type_synonym u64 = "64 word"
type_synonym u128 = "128 word"
type_synonym bytes = "8 word list"

subsection \<open>Results and the question mark operator\<close>

type_synonym ('a, 'e) result = "'e + 'a"

abbreviation Err :: "'e \<Rightarrow> ('a, 'e) result" where "Err \<equiv> Inl"
abbreviation Ok :: "'a \<Rightarrow> ('a, 'e) result" where "Ok \<equiv> Inr"

definition rbind :: "('a, 'e) result \<Rightarrow> ('a \<Rightarrow> ('b, 'e) result) \<Rightarrow> ('b, 'e) result" where
  "rbind r f = (case r of Inl e \<Rightarrow> Inl e | Inr x \<Rightarrow> f x)"

definition require :: "bool \<Rightarrow> 'e \<Rightarrow> (unit, 'e) result" where
  "require b e = (if b then Inr () else Inl e)"

definition ok_or :: "'a option \<Rightarrow> 'e \<Rightarrow> ('a, 'e) result" where
  "ok_or x e = (case x of None \<Rightarrow> Inl e | Some y \<Rightarrow> Inr y)"

definition map_err :: "('e \<Rightarrow> 'f) \<Rightarrow> ('a, 'e) result \<Rightarrow> ('a, 'f) result" where
  "map_err g r = (case r of Inl e \<Rightarrow> Inl (g e) | Inr x \<Rightarrow> Inr x)"

definition is_ok :: "('a, 'e) result \<Rightarrow> bool" where
  "is_ok r = (case r of Inl _ \<Rightarrow> False | Inr _ \<Rightarrow> True)"

definition result_ok :: "('a, 'e) result \<Rightarrow> 'a option" where
  "result_ok r = (case r of Inl _ \<Rightarrow> None | Inr x \<Rightarrow> Some x)"

lemma rbind_simps [simp, code]:
  "rbind (Inl e) f = Inl e" "rbind (Inr x) f = f x"
  by (simp_all add: rbind_def)

lemma rbind_Inr [result_simps]: "rbind r f = Inr y \<longleftrightarrow> (\<exists>x. r = Inr x \<and> f x = Inr y)"
  by (cases r) auto

lemma rbind_Inl [result_simps]:
  "rbind r f = Inl e \<longleftrightarrow> r = Inl e \<or> (\<exists>x. r = Inr x \<and> f x = Inl e)"
  by (cases r) auto

lemma rbind_InrE:
  assumes "rbind r f = Inr y"
  obtains x where "r = Inr x" and "f x = Inr y"
  using assms by (auto simp: rbind_Inr)

lemma rbind_cong [fundef_cong]:
  "r = r' \<Longrightarrow> (\<And>x. r' = Inr x \<Longrightarrow> f x = g x) \<Longrightarrow> rbind r f = rbind r' g"
  by (cases r') auto

lemma require_simps [simp]: "require True e = Inr ()" "require False e = Inl e"
  by (simp_all add: require_def)

lemma require_Inr [result_simps]: "require b e = Inr u \<longleftrightarrow> b"
  by (cases b) auto

lemma require_Inl [result_simps]: "require b e = Inl e' \<longleftrightarrow> \<not> b \<and> e' = e"
  by (cases b) auto

lemma ok_or_simps [simp]: "ok_or None e = Inl e" "ok_or (Some x) e = Inr x"
  by (simp_all add: ok_or_def)

lemma ok_or_Inr [result_simps]: "ok_or x e = Inr y \<longleftrightarrow> x = Some y"
  by (cases x) auto

lemma ok_or_Inl [result_simps]: "ok_or x e = Inl e' \<longleftrightarrow> x = None \<and> e' = e"
  by (cases x) auto

lemma map_err_simps [simp]: "map_err g (Inl e) = Inl (g e)" "map_err g (Inr x) = Inr x"
  by (simp_all add: map_err_def)

lemma map_err_Inr [result_simps]: "map_err g r = Inr y \<longleftrightarrow> r = Inr y"
  by (cases r) auto

lemma map_err_Inl [result_simps]: "map_err g r = Inl e \<longleftrightarrow> (\<exists>e'. r = Inl e' \<and> e = g e')"
  by (cases r) auto

lemma is_ok_simps [simp]: "is_ok (Inl e) = False" "is_ok (Inr x) = True"
  by (simp_all add: is_ok_def)

lemma is_ok_iff: "is_ok r \<longleftrightarrow> (\<exists>x. r = Inr x)"
  by (cases r) auto

lemma result_ok_simps [simp]: "result_ok (Inl e) = None" "result_ok (Inr x) = Some x"
  by (simp_all add: result_ok_def)

lemma result_ok_Some [result_simps]: "result_ok r = Some x \<longleftrightarrow> r = Inr x"
  by (cases r) auto

text \<open>\<open>try_fold\<close> of the Rust iterators, and collecting a sequence of results.\<close>

fun try_fold :: "('s \<Rightarrow> 'a \<Rightarrow> ('s, 'e) result) \<Rightarrow> 's \<Rightarrow> 'a list \<Rightarrow> ('s, 'e) result" where
  "try_fold f s [] = Inr s"
| "try_fold f s (x # xs) = rbind (f s x) (\<lambda>s'. try_fold f s' xs)"

lemma try_fold_cong:
  "(\<And>s x. x \<in> set xs \<Longrightarrow> f s x = g s x) \<Longrightarrow> try_fold f s xs = try_fold g s xs"
proof (induction xs arbitrary: s)
  case (Cons x xs)
  then have "f s x = g s x" by simp
  with Cons show ?case by (cases "g s x") simp_all
qed simp

lemma try_fold_append:
  "try_fold f s (xs @ ys) = rbind (try_fold f s xs) (\<lambda>s'. try_fold f s' ys)"
proof (induction xs arbitrary: s)
  case (Cons x xs)
  then show ?case by (cases "f s x") simp_all
qed simp

lemma try_fold_invariant:
  assumes "try_fold f s xs = Inr s'" and "P s"
    and "\<And>s x s'. x \<in> set xs \<Longrightarrow> P s \<Longrightarrow> f s x = Inr s' \<Longrightarrow> P s'"
  shows "P s'"
  using assms
proof (induction xs arbitrary: s)
  case (Cons x xs)
  from Cons.prems(1) obtain t where t: "f s x = Inr t" "try_fold f t xs = Inr s'"
    by (auto simp: result_simps)
  have "P t" using Cons.prems(2,3) t(1) by (meson list.set_intros(1))
  then show ?case using Cons.IH [OF t(2)] Cons.prems(3) by (meson list.set_intros(2))
qed simp

fun collect :: "('a, 'e) result list \<Rightarrow> ('a list, 'e) result" where
  "collect [] = Inr []"
| "collect (r # rs) = rbind r (\<lambda>x. rbind (collect rs) (\<lambda>xs. Inr (x # xs)))"

lemma collect_Inr: "collect rs = Inr xs \<longleftrightarrow> rs = map Inr xs"
proof (induction rs arbitrary: xs)
  case (Cons r rs)
  then show ?case by (cases xs) (auto simp: result_simps)
qed auto

subsection \<open>Checked and saturating arithmetic\<close>

definition checked_add :: "'a::len word \<Rightarrow> 'a word \<Rightarrow> 'a word option" where
  "checked_add a b = (if unat a + unat b < 2 ^ LENGTH('a) then Some (a + b) else None)"

definition checked_sub :: "'a::len word \<Rightarrow> 'a word \<Rightarrow> 'a word option" where
  "checked_sub a b = (if unat b \<le> unat a then Some (a - b) else None)"

definition checked_mul :: "'a::len word \<Rightarrow> 'a word \<Rightarrow> 'a word option" where
  "checked_mul a b = (if unat a * unat b < 2 ^ LENGTH('a) then Some (a * b) else None)"

definition saturating_add :: "'a::len word \<Rightarrow> 'a word \<Rightarrow> 'a word" where
  "saturating_add a b = (if unat a + unat b < 2 ^ LENGTH('a) then a + b else - 1)"

definition saturating_sub :: "'a::len word \<Rightarrow> 'a word \<Rightarrow> 'a word" where
  "saturating_sub a b = (if unat b \<le> unat a then a - b else 0)"

definition saturating_mul :: "'a::len word \<Rightarrow> 'a word \<Rightarrow> 'a word" where
  "saturating_mul a b = (if unat a * unat b < 2 ^ LENGTH('a) then a * b else - 1)"

text \<open>\<open>try_from\<close> of a \<open>usize\<close> (a natural number of the model) into a machine integer.\<close>

definition try_from_nat :: "nat \<Rightarrow> 'a::len word option" where
  "try_from_nat n = (if n < 2 ^ LENGTH('a) then Some (of_nat n) else None)"

lemma unat_bound: "unat (a :: 'a::len word) < 2 ^ LENGTH('a)"
  by simp

lemma unat_bound_le: "LENGTH('a) \<le> n \<Longrightarrow> unat (a :: 'a::len word) < 2 ^ n"
  by (rule order_less_le_trans [OF unat_bound]) (simp add: power_increasing)

text \<open>For evaluation the bounds are compared as binary integers, not as unary natural numbers.\<close>

lemma unat_bound_code: "m < 2 ^ n \<longleftrightarrow> int m < 2 ^ n"
  using of_nat_less_iff [of m "2 ^ n", where 'a = int] by (simp only: of_nat_power of_nat_numeral)

lemma checked_code [code]:
  "checked_add a b = (if uint a + uint b < 2 ^ LENGTH('a) then Some (a + b) else None)"
  "checked_sub a b = (if b \<le> a then Some (a - b) else None)"
  "checked_mul a b = (if uint a * uint b < 2 ^ LENGTH('a) then Some (a * b) else None)"
  "saturating_add a b = (if uint a + uint b < 2 ^ LENGTH('a) then a + b else - 1)"
  "saturating_sub a b = (if b \<le> a then a - b else 0)"
  "saturating_mul a b = (if uint a * uint b < 2 ^ LENGTH('a) then a * b else - 1)"
  "(try_from_nat n :: 'a word option) = (if int n < 2 ^ LENGTH('a) then Some (of_nat n) else None)"
  for a b :: "'a::len word"
  unfolding checked_add_def checked_sub_def checked_mul_def saturating_add_def saturating_sub_def
    saturating_mul_def try_from_nat_def unat_bound_code word_le_nat_alt of_nat_add of_nat_mult uint_nat
  by (rule refl)+

lemma checked_add_Some [checked_simps]:
  "checked_add a b = Some (c :: 'a::len word) \<longleftrightarrow> unat c = unat a + unat b"
proof
  assume "checked_add a b = Some c"
  then show "unat c = unat a + unat b"
    by (auto simp: checked_add_def unat_word_ariths split: if_splits)
next
  assume "unat c = unat a + unat b"
  moreover from this have "unat a + unat b < 2 ^ LENGTH('a)" using unat_bound [of c] by simp
  ultimately show "checked_add a b = Some c"
    by (simp add: checked_add_def word_unat_eq_iff unat_word_ariths)
qed

lemma checked_add_None [checked_simps]:
  "checked_add a (b :: 'a::len word) = None \<longleftrightarrow> 2 ^ LENGTH('a) \<le> unat a + unat b"
  by (auto simp: checked_add_def)

lemma checked_sub_Some [checked_simps]:
  "checked_sub a b = Some (c :: 'a::len word) \<longleftrightarrow> unat a = unat b + unat c"
proof
  assume "checked_sub a b = Some c"
  then show "unat a = unat b + unat c"
    by (auto simp: checked_sub_def unat_sub word_le_nat_alt split: if_splits)
next
  assume eq: "unat a = unat b + unat c"
  then have "unat b \<le> unat a" by simp
  with eq have "unat (a - b) = unat c" by (simp add: unat_sub word_le_nat_alt)
  with \<open>unat b \<le> unat a\<close> show "checked_sub a b = Some c"
    by (simp add: checked_sub_def word_unat_eq_iff)
qed

lemma checked_sub_None [checked_simps]:
  "checked_sub a (b :: 'a::len word) = None \<longleftrightarrow> unat a < unat b"
  by (auto simp: checked_sub_def)

lemma checked_mul_Some [checked_simps]:
  "checked_mul a b = Some (c :: 'a::len word) \<longleftrightarrow> unat c = unat a * unat b"
proof
  assume "checked_mul a b = Some c"
  then show "unat c = unat a * unat b"
    by (auto simp: checked_mul_def unat_word_ariths split: if_splits)
next
  assume "unat c = unat a * unat b"
  moreover from this have "unat a * unat b < 2 ^ LENGTH('a)" using unat_bound [of c] by simp
  ultimately show "checked_mul a b = Some c"
    by (simp add: checked_mul_def word_unat_eq_iff unat_word_ariths)
qed

lemma checked_mul_None [checked_simps]:
  "checked_mul a (b :: 'a::len word) = None \<longleftrightarrow> 2 ^ LENGTH('a) \<le> unat a * unat b"
  by (auto simp: checked_mul_def)

lemma unat_minus_one_word: "unat (- 1 :: 'a::len word) = 2 ^ LENGTH('a) - 1"
  by (metis mask_eq_exp_minus_1 take_bit_minus_one_eq_mask unsigned_minus_1_eq_mask)

lemma unat_saturating_add [checked_simps]:
  "unat (saturating_add a b :: 'a::len word) = min (unat a + unat b) (2 ^ LENGTH('a) - 1)"
  by (auto simp: saturating_add_def unat_word_ariths unat_minus_one_word min_def)

lemma unat_saturating_sub [checked_simps]:
  "unat (saturating_sub a b :: 'a::len word) = unat a - unat b"
  by (auto simp: saturating_sub_def unat_sub word_le_nat_alt)

lemma unat_saturating_mul [checked_simps]:
  "unat (saturating_mul a b :: 'a::len word) = min (unat a * unat b) (2 ^ LENGTH('a) - 1)"
proof (cases "unat a * unat b < 2 ^ LENGTH('a)")
  case True
  then show ?thesis by (simp add: saturating_mul_def unat_word_ariths)
next
  case False
  then have "min (unat a * unat b) (2 ^ LENGTH('a) - 1) = 2 ^ LENGTH('a) - 1"
    by linarith
  with False show ?thesis by (simp add: saturating_mul_def unat_minus_one_word)
qed

lemma try_from_nat_Some [checked_simps]:
  "try_from_nat n = Some (w :: 'a::len word) \<longleftrightarrow> unat w = n"
  using unat_bound [of w] by (auto simp: try_from_nat_def unat_of_nat split: if_splits)

lemma try_from_nat_None [checked_simps]:
  "(try_from_nat n :: 'a::len word option) = None \<longleftrightarrow> 2 ^ LENGTH('a) \<le> n"
  by (auto simp: try_from_nat_def)

subsection \<open>Shifts, masks and casts as arithmetic\<close>

lemma unat_and_mask: "unat (x AND mask n :: 'a::len word) = unat x mod 2 ^ n"
  by (metis take_bit_eq_mask take_bit_eq_mod unsigned_take_bit_eq)

lemma unat_and_255: "unat (x AND 255 :: 'a::len word) = unat x mod 256"
  using unat_and_mask [of x 8] by (simp add: mask_eq_exp_minus_1)

lemma unat_drop_bit: "unat (drop_bit n x :: 'a::len word) = unat x div 2 ^ n"
  by (metis drop_bit_eq_div unat_drop_bit_eq)

lemma unat_ucast: "unat (ucast (x :: 'a::len word) :: 'b::len word) = unat x mod 2 ^ LENGTH('b)"
  by (metis take_bit_eq_mod unsigned_ucast_eq)

lemma unat_ucast_up:
  "LENGTH('a) \<le> LENGTH('b) \<Longrightarrow> unat (ucast (x :: 'a::len word) :: 'b::len word) = unat x"
  by (simp add: unat_ucast unat_bound_le)

lemma unat_push_bit: "unat (push_bit n x :: 'a::len word) = unat x * 2 ^ n mod 2 ^ LENGTH('a)"
  unfolding unsigned_push_bit_eq by (simp add: push_bit_eq_mult take_bit_eq_mod)

lemma unat_or_disjoint:
  assumes "a AND b = (0 :: 'a::len word)"
  shows "unat (a OR b) = unat a + unat b"
proof -
  have "unat (a OR b) = unat a OR unat b" by (simp add: unsigned_or_eq)
  moreover have "unat a AND unat b = unat (a AND b)" by (simp add: unsigned_and_eq)
  ultimately show ?thesis using assms by (simp add: disjunctive_add_eq_or)
qed

lemma push_bit_and_small:
  assumes "unat x < 2 ^ k"
  shows "push_bit k y AND x = 0"
proof (rule bit_word_eqI)
  fix i
  have "bit x i \<Longrightarrow> i < k"
  proof (rule ccontr)
    assume "bit x i" "\<not> i < k"
    then have "(2 :: nat) ^ k \<le> 2 ^ i" by simp
    then have "unat x < 2 ^ i" using assms by linarith
    then have "\<not> bit (unat x) i" by (simp add: bit_iff_odd)
    then show False using \<open>bit x i\<close> by (simp add: bit_unsigned_iff)
  qed
  then show "bit (push_bit k y AND x) i \<longleftrightarrow> bit 0 i" by (auto simp: bit_simps)
qed

lemma div_mod_scale: "p div m * (m * b) + p mod m * b = p * (b :: nat)"
  by (metis add_mult_distrib div_mult_mod_eq mult.assoc)

subsection \<open>Big-endian numbers\<close>

text \<open>
  The value of an array of limbs, most significant limb first. Bytes (\<open>u8\<close> limbs) are the
  targets and hashes of the code, \<open>u64\<close> limbs its chain work.
\<close>

fun be_val :: "'a::len word list \<Rightarrow> nat" where
  "be_val [] = 0"
| "be_val (x # xs) = unat x * 2 ^ (LENGTH('a) * length xs) + be_val xs"

lemma be_val_bound: "be_val (xs :: 'a::len word list) < 2 ^ (LENGTH('a) * length xs)"
proof (induction xs)
  case (Cons x xs)
  let ?B = "2 ^ (LENGTH('a) * length xs) :: nat"
  have "unat x * ?B + be_val xs < Suc (unat x) * ?B" using Cons by simp
  also have "\<dots> \<le> 2 ^ LENGTH('a) * ?B"
    by (rule mult_right_mono) (simp_all add: Suc_leI)
  finally show ?case by (simp add: power_add)
qed simp

lemma be_val_append:
  "be_val (xs @ ys :: 'a::len word list) = be_val xs * 2 ^ (LENGTH('a) * length ys) + be_val ys"
  by (induction xs) (simp_all add: algebra_simps power_add)

lemma be_val_replicate_0 [simp]: "be_val (replicate n (0 :: 'a::len word)) = 0"
  by (induction n) auto

lemma be_val_eq_0: "be_val xs = 0 \<longleftrightarrow> (\<forall>x\<in>set xs. x = 0)"
  by (induction xs) (auto simp: unat_eq_zero)

lemma be_val_less_iff:
  "length xs = length ys \<Longrightarrow> be_val xs < be_val ys \<longleftrightarrow> xs < (ys :: 'a::len word list)"
proof (induction xs ys rule: list_induct2)
  case (Cons x xs y ys)
  let ?B = "2 ^ (LENGTH('a) * length xs) :: nat"
  have bx: "be_val xs < ?B" and by': "be_val ys < ?B"
    using be_val_bound [of xs] be_val_bound [of ys] Cons.hyps by simp_all
  show ?case
  proof (cases "x = y")
    case True
    then show ?thesis using Cons by simp
  next
    case False
    have step: "unat u < unat v \<Longrightarrow> a < ?B \<Longrightarrow> unat u * ?B + a < unat v * ?B + b"
      for u v :: "'a word" and a b
    proof -
      assume uv: "unat u < unat v" and a: "a < ?B"
      have "unat u * ?B + a < Suc (unat u) * ?B" using a by simp
      also have "\<dots> \<le> unat v * ?B" using uv by (intro mult_right_mono) auto
      finally show ?thesis by simp
    qed
    have lex: "x # xs < y # ys \<longleftrightarrow> unat x < unat y"
      using False by (simp add: word_less_nat_alt)
    from False consider "unat x < unat y" | "unat y < unat x"
      by (metis linorder_neqE_nat word_unat_eq_iff)
    then show ?thesis
    proof cases
      case 1
      with step [OF 1 bx, of "be_val ys"] Cons.hyps show ?thesis unfolding lex by simp
    next
      case 2
      with step [OF 2 by', of "be_val xs"] Cons.hyps show ?thesis unfolding lex by simp
    qed
  qed
qed simp

lemma be_val_inj: "length xs = length ys \<Longrightarrow> be_val xs = be_val ys \<Longrightarrow> xs = ys"
  using be_val_less_iff [of xs ys] be_val_less_iff [of ys xs] linorder_less_linear [of xs ys]
  by auto

lemma be_val_le_iff:
  "length xs = length ys \<Longrightarrow> be_val xs \<le> be_val ys \<longleftrightarrow> xs \<le> (ys :: 'a::len word list)"
  using be_val_less_iff [of ys xs] by (simp add: linorder_not_less [symmetric])

subsection \<open>Little-endian encodings\<close>

fun le_bytes :: "nat \<Rightarrow> 'a::len word \<Rightarrow> bytes" where
  "le_bytes 0 w = []"
| "le_bytes (Suc n) w = ucast w # le_bytes n (drop_bit 8 w)"

fun le_val :: "bytes \<Rightarrow> nat" where
  "le_val [] = 0"
| "le_val (b # bs) = unat b + 256 * le_val bs"

abbreviation u32_le :: "u32 \<Rightarrow> bytes" where "u32_le \<equiv> le_bytes 4"
abbreviation u64_le :: "u64 \<Rightarrow> bytes" where "u64_le \<equiv> le_bytes 8"
abbreviation u128_le :: "u128 \<Rightarrow> bytes" where "u128_le \<equiv> le_bytes 16"

lemma length_le_bytes [simp]: "length (le_bytes n w) = n"
  by (induction n arbitrary: w) auto

lemma le_val_le_bytes: "le_val (le_bytes n w) = unat w mod 2 ^ (8 * n)"
proof (induction n arbitrary: w)
  case (Suc n)
  have "unat w mod 2 ^ (8 * Suc n) = unat w mod 256 + 256 * (unat w div 256 mod 2 ^ (8 * n))"
    by (simp add: power_add mod_mult2_eq)
  moreover have "le_val (le_bytes (Suc n) w) = unat w mod 256 + 256 * (unat w div 256 mod 2 ^ (8 * n))"
    unfolding le_bytes.simps le_val.simps Suc unat_ucast unat_drop_bit by simp
  ultimately show ?case by simp
qed simp

lemma le_val_bound: "le_val bs < 2 ^ (8 * length bs)"
proof (induction bs)
  case (Cons b bs)
  have "unat b < 256" using unat_bound_le [of 8 b] by simp
  moreover have "256 * Suc (le_val bs) \<le> 256 * 2 ^ (8 * length bs)" using Cons by (intro mult_le_mono2) simp
  ultimately show ?case by (simp add: power_add)
qed simp

lemma le_bytes_inj:
  assumes "LENGTH('a) \<le> 8 * n" and "le_bytes n a = le_bytes n (b :: 'a::len word)"
  shows "a = b"
proof -
  have small: "unat w < 2 ^ (8 * n)" for w :: "'a word"
    using assms(1) by (rule unat_bound_le)
  have "unat a mod 2 ^ (8 * n) = unat b mod 2 ^ (8 * n)"
    using assms(2) by (metis le_val_le_bytes)
  then show ?thesis using small by (simp add: word_unat_eq_iff)
qed

subsection \<open>Lists and maps\<close>

lemma distinct_index: "distinct xs \<Longrightarrow> i < length xs \<Longrightarrow> j < length xs \<Longrightarrow> xs ! i = xs ! j \<Longrightarrow> i = j"
  by (simp add: nth_eq_iff_index_eq)

lemma sum_insert_map:
  fixes g :: "'v \<Rightarrow> nat"
  assumes "finite (dom m)" and "m k = None"
  shows "(\<Sum>x\<in>dom (m(k \<mapsto> v)). g (the ((m(k \<mapsto> v)) x))) = (\<Sum>x\<in>dom m. g (the (m x))) + g v"
proof -
  have "k \<notin> dom m" using assms(2) by auto
  then have "(\<Sum>x\<in>dom m. g (the ((m(k \<mapsto> v)) x))) = (\<Sum>x\<in>dom m. g (the (m x)))"
    by (intro sum.cong) auto
  with \<open>k \<notin> dom m\<close> assms(1) show ?thesis by simp
qed

lemma sum_remove_map:
  fixes g :: "'v \<Rightarrow> nat"
  assumes "finite (dom m)" and "m k = Some v"
  shows "(\<Sum>x\<in>dom (m(k := None)). g (the ((m(k := None)) x))) + g v = (\<Sum>x\<in>dom m. g (the (m x)))"
proof -
  let ?m = "m(k := None)"
  have eq: "?m(k \<mapsto> v) = m" using assms(2) by auto
  have "finite (dom ?m)" and "?m k = None" using assms(1) by simp_all
  from sum_insert_map [OF this, of g v] show ?thesis unfolding eq by (rule sym)
qed

end
