(* ===== verification/Tables.thy ===== *)
theory Tables
  imports Prelude
begin

section \<open>The interface of an ordered table\<close>

text \<open>
  The ledger keeps its state in ordered key/value tables. What a component relies on of a
  table is this interface: lookup, insertion, removal and the entries in key order, with the
  laws that relate them. \<open>State_Map\<close> interprets it on the AVL tree of the code; the last
  section here interprets it on finite partial functions, which is how the ledger's states
  write their tables (the code compares tables by their entries, never by tree shape).
\<close>

subsection \<open>Entries in key order\<close>

abbreviation ordered_keys :: "('k::linorder \<times> 'v) list \<Rightarrow> bool" where
  "ordered_keys xs \<equiv> sorted_wrt (<) (map fst xs)"

lemma map_of_ordered_lt: "ordered_keys (xs @ (k, v) # ys) \<Longrightarrow> key \<le> k \<Longrightarrow> map_of ys key = None"
  by (auto simp: sorted_wrt_append map_of_eq_None_iff)

lemma map_of_ordered_gt: "ordered_keys (xs @ (k, v) # ys) \<Longrightarrow> k \<le> key \<Longrightarrow> map_of xs key = None"
  by (force simp: sorted_wrt_append map_of_eq_None_iff)

lemma sorted_wrt_mid:
  "sorted_wrt (<) (xs @ (k :: 'k::linorder) # ys) \<longleftrightarrow>
     sorted_wrt (<) xs \<and> sorted_wrt (<) ys \<and> (\<forall>x\<in>set xs. x < k) \<and> (\<forall>y\<in>set ys. k < y)"
  by (force simp: sorted_wrt_append)

lemma dom_map_of_keys: "dom (map_of xs) = fst ` set xs"
  by (rule dom_map_of_conv_image_fst)

lemma keys_of_map_upd:
  "map_of xs = (map_of ys)(k \<mapsto> v) \<Longrightarrow> fst ` set xs = insert k (fst ` set ys)"
  by (metis dom_fun_upd dom_map_of_keys option.distinct(1))

lemma keys_of_map_del:
  "map_of xs = (map_of ys)(k := None) \<Longrightarrow> fst ` set xs = fst ` set ys - {k}"
  by (metis dom_fun_upd dom_map_of_keys)

lemma map_of_Cons_del: "ordered_keys ((k, v) # xs) \<Longrightarrow> map_of xs = (map_of ((k, v) # xs))(k := None)"
  by (force simp: fun_eq_iff map_of_eq_None_iff)

lemma ordered_keys_map_of_inj:
  "ordered_keys xs \<Longrightarrow> ordered_keys ys \<Longrightarrow> map_of xs = map_of ys \<Longrightarrow> xs = ys"
proof (induction xs arbitrary: ys)
  case Nil
  then have "dom (map_of ys) = {}" by simp
  then show ?case by (simp add: dom_map_of_keys)
next
  case (Cons x xs)
  obtain k v where x: "x = (k, v)" by (cases x)
  have keys: "insert k (fst ` set xs) = fst ` set ys"
    using Cons.prems(3) x by (metis dom_map_of_keys image_insert list.simps(15) fst_conv)
  then obtain k' v' ys' where ys: "ys = (k', v') # ys'" by (cases ys) auto
  have "\<forall>z\<in>fst ` set xs. k < z" "\<forall>z\<in>fst ` set ys'. k' < z"
    using Cons.prems(1,2) x ys by auto
  with keys ys have "k' = k"
    by (metis fst_conv image_insert insert_iff list.simps(15) order.asym)
  with Cons.prems(3) x ys have "v' = v" by (metis map_of_Cons_code(2) option.inject)
  have "map_of xs = (map_of (x # xs))(k := None)"
    unfolding x by (rule map_of_Cons_del) (use Cons.prems(1) x in simp)
  also have "\<dots> = (map_of ys)(k := None)" unfolding Cons.prems(3) by (rule refl)
  also have "\<dots> = map_of ys'"
    unfolding ys \<open>k' = k\<close> by (rule map_of_Cons_del [symmetric]) (use Cons.prems(2) ys \<open>k' = k\<close> in simp)
  finally have "map_of xs = map_of ys'" .
  with Cons x ys \<open>k' = k\<close> \<open>v' = v\<close> show ?case by auto
qed

subsection \<open>The interface\<close>

locale ordered_table =
  fixes lookup :: "'m \<Rightarrow> 'k::linorder \<Rightarrow> 'v option"
    and entries :: "'m \<Rightarrow> ('k \<times> 'v) list"
    and put :: "'m \<Rightarrow> 'k \<Rightarrow> 'v \<Rightarrow> 'm"
    and del :: "'m \<Rightarrow> 'k \<Rightarrow> 'm"
    and inv :: "'m \<Rightarrow> bool"
  assumes lookup_entries: "inv m \<Longrightarrow> lookup m = map_of (entries m)"
    and entries_ordered: "inv m \<Longrightarrow> ordered_keys (entries m)"
    and lookup_put: "inv m \<Longrightarrow> lookup (put m k v) = (lookup m)(k \<mapsto> v)"
    and lookup_del: "inv m \<Longrightarrow> lookup (del m k) = (lookup m)(k := None)"
    and inv_put: "inv m \<Longrightarrow> inv (put m k v)"
    and inv_del: "inv m \<Longrightarrow> inv (del m k)"
begin

lemmas table_laws = lookup_put lookup_del inv_put inv_del

lemma entries_canonical:
  "inv a \<Longrightarrow> inv b \<Longrightarrow> lookup a = lookup b \<Longrightarrow> entries a = entries b"
  using ordered_keys_map_of_inj entries_ordered lookup_entries by metis

lemma finite_lookup: "inv m \<Longrightarrow> finite (dom (lookup m))"
  by (simp add: lookup_entries finite_dom_map_of)

lemma entries_put_del:
  "inv m \<Longrightarrow> lookup m k = None \<Longrightarrow> entries (del (put m k v) k) = entries m"
  by (rule entries_canonical) (auto simp: table_laws)

lemma entries_del_put:
  "inv m \<Longrightarrow> lookup m k = Some v \<Longrightarrow> entries (put (del m k) k v) = entries m"
  by (rule entries_canonical) (auto simp: table_laws fun_upd_idem)

lemma entries_put_commute:
  "inv m \<Longrightarrow> k \<noteq> k' \<Longrightarrow> entries (put (put m k v) k' v') = entries (put (put m k' v') k v)"
  by (rule entries_canonical) (auto simp: table_laws fun_upd_twist)

lemma set_entries: "inv m \<Longrightarrow> (k, v) \<in> set (entries m) \<longleftrightarrow> lookup m k = Some v"
  using entries_ordered [of m] by (simp add: lookup_entries strict_sorted_iff)

lemma length_entries: "inv m \<Longrightarrow> length (entries m) = card (dom (lookup m))"
  using entries_ordered [of m] distinct_card [of "map fst (entries m)"]
  by (simp add: lookup_entries dom_map_of_keys strict_sorted_iff)

text \<open>Sums over the values of a table, for the totals that the ledger keeps beside its tables.\<close>

lemma sum_entries:
  fixes g :: "'v \<Rightarrow> nat"
  assumes "inv m"
  shows "(\<Sum>(k, v)\<leftarrow>entries m. g v) = (\<Sum>k\<in>dom (lookup m). g (the (lookup m k)))"
proof -
  have d: "distinct (map fst (entries m))" using entries_ordered [OF assms] by (simp add: strict_sorted_iff)
  have "(\<Sum>(k, v)\<leftarrow>entries m. g v) = (\<Sum>k\<leftarrow>map fst (entries m). g (the (lookup m k)))"
    using d by (auto simp: lookup_entries [OF assms] comp_def intro!: arg_cong [of _ _ sum_list] map_cong)
  also have "\<dots> = (\<Sum>k\<in>set (map fst (entries m)). g (the (lookup m k)))"
    using d by (rule sum_list_distinct_conv_sum_set)
  finally show ?thesis by (simp add: lookup_entries [OF assms] dom_map_of_keys)
qed

lemma sum_put_fresh:
  fixes g :: "'v \<Rightarrow> nat"
  assumes "inv m" and "lookup m k = None"
  shows "(\<Sum>(k, v)\<leftarrow>entries (put m k v). g v) = (\<Sum>(k, v)\<leftarrow>entries m. g v) + g v"
  using sum_insert_map [OF finite_lookup [OF assms(1)] assms(2), of g v] assms(1)
  by (simp add: sum_entries table_laws del: dom_fun_upd fun_upd_apply)

lemma sum_del:
  fixes g :: "'v \<Rightarrow> nat"
  assumes "inv m" and "lookup m k = Some v"
  shows "(\<Sum>(k, v)\<leftarrow>entries (del m k). g v) + g v = (\<Sum>(k, v)\<leftarrow>entries m. g v)"
  using sum_remove_map [OF finite_lookup [OF assms(1)] assms(2), of g] assms(1)
  by (simp add: sum_entries table_laws del: dom_fun_upd fun_upd_apply)

end

subsection \<open>Finite partial functions\<close>

definition map_entries :: "('k::linorder \<rightharpoonup> 'v) \<Rightarrow> ('k \<times> 'v) list" where
  "map_entries m = map (\<lambda>k. (k, the (m k))) (sorted_list_of_set (dom m))"

lemma map_of_map_entries: "finite (dom m) \<Longrightarrow> map_of (map_entries m) = m"
  by (auto simp: map_entries_def map_of_map_keys fun_eq_iff map_of_eq_None_iff restrict_map_def
      domIff split: if_splits)

interpretation fm: ordered_table "\<lambda>m. m" map_entries "\<lambda>m k v. m(k \<mapsto> v)" "\<lambda>m k. m(k := None)"
  "\<lambda>m. finite (dom m)"
  by unfold_locales (simp_all add: map_of_map_entries, simp add: map_entries_def comp_def)


subsection \<open>Secondary indexes\<close>

text \<open>
  An index maps a key to the set of the members filed under it, and never holds an empty set.
  \<open>index_add\<close> is \<open>entry(k).or_default().insert(x)\<close>; \<open>index_remove\<close> removes a member and then
  the entry when it is empty.
\<close>

definition index_add :: "('k \<rightharpoonup> 'x set) \<Rightarrow> 'k \<Rightarrow> 'x \<Rightarrow> ('k \<rightharpoonup> 'x set)" where
  "index_add m k x = m(k \<mapsto> insert x (case m k of None \<Rightarrow> {} | Some s \<Rightarrow> s))"

definition index_remove :: "('k \<rightharpoonup> 'x set) \<Rightarrow> 'k \<Rightarrow> 'x \<Rightarrow> ('k \<rightharpoonup> 'x set)" where
  "index_remove m k x = (case m k of
     None \<Rightarrow> m
   | Some s \<Rightarrow> if s - {x} = {} then m(k := None) else m(k \<mapsto> s - {x}))"

definition index_of :: "('k \<Rightarrow> 'x set) \<Rightarrow> ('k \<rightharpoonup> 'x set)" where
  "index_of f k = (if f k = {} then None else Some (f k))"

lemma index_of_lookup: "(case index_of f k of None \<Rightarrow> {} | Some s \<Rightarrow> s) = f k"
  by (simp add: index_of_def)

lemma index_add_of: "index_add (index_of f) k x = index_of (f(k := insert x (f k)))"
  by (auto simp: index_add_def index_of_lookup fun_eq_iff) (simp_all add: index_of_def)

lemma index_remove_of: "index_remove (index_of f) k x = index_of (f(k := f k - {x}))"
  by (auto simp: index_remove_def index_of_def fun_eq_iff)

lemma index_of_fold_add:
  "fold (\<lambda>(k, x) m. index_add m k x) xs (index_of f) = index_of (\<lambda>k. f k \<union> {x. (k, x) \<in> set xs})"
proof (induction xs arbitrary: f)
  case (Cons p xs)
  obtain k x where p: "p = (k, x)" by (cases p)
  have "(\<lambda>i. (f(k := insert x (f k))) i \<union> {y. (i, y) \<in> set xs}) = (\<lambda>i. f i \<union> {y. (i, y) \<in> set (p # xs)})"
    unfolding p by (rule ext) auto
  then show ?case unfolding p by (simp add: index_add_of Cons)
qed simp

end
