(* ===== verification/State_Map.thy ===== *)
theory State_Map
  imports Tables
begin

section \<open>The ordered state map (\<^verbatim>\<open>kernel/src/state_map.rs\<close>)\<close>

text \<open>
  \<open>StateMap\<close> is the persistent AVL tree under every table of the ledger. A node caches its
  height and the number of entries below it. The model keeps the tree as it is: \<open>link\<close> is
  \<open>Link\<close>, an optional node; an \<open>unwrap\<close> or \<open>expect\<close> on an absent child is \<open>None\<close>.
  The copy-on-write pointers are values here, so the pointer comparison that shortcuts
  equality has no counterpart. Cached heights (\<open>u16\<close>) and sizes (\<open>usize\<close>) are natural
  numbers; \<open>audit_height_bound\<close> shows that the height of a map of fewer than \<open>2 ^ 64\<close>
  entries fits its cache.
\<close>

datatype ('k, 'v) link =
    Absent
  | Node "('k, 'v) link" 'k 'v "('k, 'v) link" nat nat

fun link_height :: "('k, 'v) link \<Rightarrow> nat" where
  "link_height Absent = 0"
| "link_height (Node l k v r h n) = h"

fun link_length :: "('k, 'v) link \<Rightarrow> nat" where
  "link_length Absent = 0"
| "link_length (Node l k v r h n) = n"

text \<open>A node with its caches recomputed (\<open>Node::refresh\<close>).\<close>

definition refresh :: "('k, 'v) link \<Rightarrow> 'k \<Rightarrow> 'v \<Rightarrow> ('k, 'v) link \<Rightarrow> ('k, 'v) link" where
  "refresh l k v r =
     Node l k v r (1 + max (link_height l) (link_height r)) (1 + link_length l + link_length r)"

fun get :: "('k::linorder, 'v) link \<Rightarrow> 'k \<Rightarrow> 'v option" where
  "get Absent key = None"
| "get (Node l k v r h n) key =
     (if key < k then get l key else if k < key then get r key else Some v)"

definition contains_key :: "('k::linorder, 'v) link \<Rightarrow> 'k \<Rightarrow> bool" where
  "contains_key m key = (get m key \<noteq> None)"

fun rotate_left :: "('k, 'v) link \<Rightarrow> ('k, 'v) link option" where
  "rotate_left (Node l k v (Node middle pk pv pr ph pn) h n) =
     Some (refresh (refresh l k v middle) pk pv pr)"
| "rotate_left _ = None"

fun rotate_right :: "('k, 'v) link \<Rightarrow> ('k, 'v) link option" where
  "rotate_right (Node (Node pl pk pv middle ph pn) k v r h n) =
     Some (refresh pl pk pv (refresh middle k v r))"
| "rotate_right _ = None"

fun left_of :: "('k, 'v) link \<Rightarrow> ('k, 'v) link" where
  "left_of Absent = Absent"
| "left_of (Node l k v r h n) = l"

fun right_of :: "('k, 'v) link \<Rightarrow> ('k, 'v) link" where
  "right_of Absent = Absent"
| "right_of (Node l k v r h n) = r"

text \<open>
  \<open>rebalance\<close> takes the fields of the node it receives; its stale caches are recomputed
  first. A missing child of the higher side is the \<open>unwrap\<close> panic.
\<close>

definition rebalance ::
    "('k, 'v) link \<Rightarrow> 'k \<Rightarrow> 'v \<Rightarrow> ('k, 'v) link \<Rightarrow> ('k, 'v) link option" where
  "rebalance l k v r =
     (let root = refresh l k v r;
          balance = int (link_height l) - int (link_height r)
      in if balance > 1 then
           (if l = Absent then None
            else if link_height (left_of l) < link_height (right_of l) then
              Option.bind (rotate_left l)
                (\<lambda>child. rotate_right (Node child k v r (link_height root) (link_length root)))
            else rotate_right root)
         else if balance < -1 then
           (if r = Absent then None
            else if link_height (right_of r) < link_height (left_of r) then
              Option.bind (rotate_right r)
                (\<lambda>child. rotate_left (Node l k v child (link_height root) (link_length root)))
            else rotate_left root)
         else Some root)"

fun insert_link ::
    "('k::linorder, 'v) link \<Rightarrow> 'k \<Rightarrow> 'v \<Rightarrow> (('k, 'v) link \<times> 'v option) option" where
  "insert_link Absent key value = Some (Node Absent key value Absent 1 1, None)"
| "insert_link (Node l k v r h n) key value =
     (if key < k then
        Option.bind (insert_link l key value) (\<lambda>(l', previous).
        Option.bind (rebalance l' k v r) (\<lambda>t. Some (t, previous)))
      else if k < key then
        Option.bind (insert_link r key value) (\<lambda>(r', previous).
        Option.bind (rebalance l k v r') (\<lambda>t. Some (t, previous)))
      else Option.bind (rebalance l k value r) (\<lambda>t. Some (t, Some v)))"

fun pop_min :: "('k, 'v) link \<Rightarrow> (('k, 'v) link \<times> 'k \<times> 'v) option" where
  "pop_min Absent = None"
| "pop_min (Node l k v r h n) =
     (if l = Absent then Some (r, k, v)
      else Option.bind (pop_min l) (\<lambda>(l', mk, mv).
           Option.bind (rebalance l' k v r) (\<lambda>t. Some (t, mk, mv))))"

fun remove_link :: "('k::linorder, 'v) link \<Rightarrow> 'k \<Rightarrow> (('k, 'v) link \<times> 'v) option" where
  "remove_link Absent key = None"
| "remove_link (Node l k v r h n) key =
     (if key = k \<and> (l = Absent \<or> r = Absent) then
        Some (if l = Absent then r else l, v)
      else if key < k then
        Option.bind (remove_link l key) (\<lambda>(l', previous).
        Option.bind (rebalance l' k v r) (\<lambda>t. Some (t, previous)))
      else if k < key then
        Option.bind (remove_link r key) (\<lambda>(r', previous).
        Option.bind (rebalance l k v r') (\<lambda>t. Some (t, previous)))
      else
        Option.bind (pop_min r) (\<lambda>(r', mk, mv).
        Option.bind (rebalance l mk mv r') (\<lambda>t. Some (t, v))))"

text \<open>
  The public operations. \<open>None\<close> is a panic; the map and the previous value are the result
  otherwise. \<open>get_mut\<close> hands out a reference to the value: the model takes the update the
  caller makes through it.
\<close>

definition sm_insert :: "('k::linorder, 'v) link \<Rightarrow> 'k \<Rightarrow> 'v \<Rightarrow> (('k, 'v) link \<times> 'v option) option" where
  "sm_insert m key value = insert_link m key value"

definition sm_remove :: "('k::linorder, 'v) link \<Rightarrow> 'k \<Rightarrow> (('k, 'v) link \<times> 'v option) option" where
  "sm_remove m key =
     (case get m key of
        None \<Rightarrow> Some (m, None)
      | Some _ \<Rightarrow> Option.bind (remove_link m key) (\<lambda>(m', previous). Some (m', Some previous)))"

fun update_at :: "('k::linorder, 'v) link \<Rightarrow> 'k \<Rightarrow> ('v \<Rightarrow> 'v) \<Rightarrow> ('k, 'v) link option" where
  "update_at Absent key f = None"
| "update_at (Node l k v r h n) key f =
     (if key < k then Option.bind (update_at l key f) (\<lambda>l'. Some (Node l' k v r h n))
      else if k < key then Option.bind (update_at r key f) (\<lambda>r'. Some (Node l k v r' h n))
      else Some (Node l k (f v) r h n))"

definition get_mut :: "('k::linorder, 'v) link \<Rightarrow> 'k \<Rightarrow> ('v \<Rightarrow> 'v) \<Rightarrow> ('k, 'v) link option" where
  "get_mut m key f = (case get m key of None \<Rightarrow> Some m | Some _ \<Rightarrow> update_at m key f)"

definition entry_or_default ::
    "'v \<Rightarrow> ('k::linorder, 'v) link \<Rightarrow> 'k \<Rightarrow> ('v \<Rightarrow> 'v) \<Rightarrow> ('k, 'v) link option" where
  "entry_or_default d m key f =
     Option.bind (if contains_key m key then Some m
                  else map_option fst (sm_insert m key d)) (\<lambda>m'. update_at m' key f)"

text \<open>
  Iteration keeps a stack of nodes whose entry and right subtree are still to come.
  \<open>iter_next\<close> is \<open>Iter::next\<close> and \<open>IterFrom::next\<close>; \<open>iter_run\<close> drains the iterator.
\<close>

fun push_left :: "('k, 'v) link list \<Rightarrow> ('k, 'v) link \<Rightarrow> ('k, 'v) link list" where
  "push_left stack Absent = stack"
| "push_left stack (Node l k v r h n) = push_left (Node l k v r h n # stack) l"

fun seek_from :: "('k::linorder) \<Rightarrow> ('k, 'v) link list \<Rightarrow> ('k, 'v) link \<Rightarrow> ('k, 'v) link list" where
  "seek_from bound stack Absent = stack"
| "seek_from bound stack (Node l k v r h n) =
     (if k < bound then seek_from bound stack r
      else seek_from bound (Node l k v r h n # stack) l)"

fun iter_next :: "('k, 'v) link list \<Rightarrow> (('k \<times> 'v) \<times> ('k, 'v) link list) option" where
  "iter_next [] = None"
| "iter_next (Absent # stack) = None"
| "iter_next (Node l k v r h n # stack) = Some ((k, v), push_left stack r)"

fun inorder :: "('k, 'v) link \<Rightarrow> ('k \<times> 'v) list" where
  "inorder Absent = []"
| "inorder (Node l k v r h n) = inorder l @ (k, v) # inorder r"

fun stack_weight :: "('k, 'v) link list \<Rightarrow> nat" where
  "stack_weight [] = 0"
| "stack_weight (t # ts) = (case t of Absent \<Rightarrow> 0 | Node l k v r h n \<Rightarrow> 1 + length (inorder r)) + stack_weight ts"

lemma stack_weight_push_left: "stack_weight (push_left stack t) = length (inorder t) + stack_weight stack"
  by (induction stack t rule: push_left.induct) auto

function iter_run :: "('k, 'v) link list \<Rightarrow> ('k \<times> 'v) list" where
  "iter_run stack =
     (case iter_next stack of None \<Rightarrow> [] | Some (item, stack') \<Rightarrow> item # iter_run stack')"
  by pat_completeness auto
termination
proof (relation "measure stack_weight")
  fix stack :: "('k, 'v) link list" and x item stack'
  assume "iter_next stack = Some x" and "(item, stack') = x"
  then have "iter_next stack = Some (item, stack')" by simp
  then show "(stack', stack) \<in> measure stack_weight"
    by (cases stack rule: iter_next.cases) (auto simp: stack_weight_push_left)
qed simp

declare iter_run.simps [simp del]

definition iter :: "('k, 'v) link \<Rightarrow> ('k \<times> 'v) list" where
  "iter m = iter_run (push_left [] m)"

definition iter_from :: "('k::linorder, 'v) link \<Rightarrow> 'k \<Rightarrow> ('k \<times> 'v) list" where
  "iter_from m bound = iter_run (seek_from bound [] m)"

definition sm_keys :: "('k, 'v) link \<Rightarrow> 'k list" where
  "sm_keys m = map fst (iter m)"

definition sm_values :: "('k, 'v) link \<Rightarrow> 'v list" where
  "sm_values m = map snd (iter m)"

text \<open>\<open>PartialEq\<close> compares the sizes and the entries in key order, never the tree shapes.\<close>

definition sm_eq :: "('k, 'v) link \<Rightarrow> ('k, 'v) link \<Rightarrow> bool" where
  "sm_eq a b = (link_length a = link_length b \<and> iter a = iter b)"

text \<open>
  Conversion from a sorted \<open>BTreeMap\<close>: \<open>build\<close> consumes \<open>len\<close> items of the ordered
  iterator; an exhausted iterator is the \<open>unwrap\<close> panic.
\<close>

function build :: "('k \<times> 'v) list \<Rightarrow> nat \<Rightarrow> (('k, 'v) link \<times> ('k \<times> 'v) list) option" where
  "build items 0 = Some (Absent, items)"
| "build items (Suc m) =
     Option.bind (build items (Suc m div 2)) (\<lambda>(left, rest).
       (case rest of
          [] \<Rightarrow> None
        | (key, value) # rest' \<Rightarrow>
            Option.bind (build rest' (Suc m - Suc m div 2 - 1)) (\<lambda>(right, rest'').
              Some (refresh left key value right, rest''))))"
  by pat_completeness auto
termination
  by (relation "measure snd") auto

definition from_btree :: "('k \<times> 'v) list \<Rightarrow> ('k, 'v) link option" where
  "from_btree items = map_option fst (build items (length items))"

text \<open>\<open>BorshSerialize\<close>: the number of entries as a \<open>u32\<close>, then the entries in key order.\<close>

definition serialize_map :: "('k \<Rightarrow> bytes) \<Rightarrow> ('v \<Rightarrow> bytes) \<Rightarrow> ('k, 'v) link \<Rightarrow> bytes option" where
  "serialize_map enc_k enc_v m =
     (case try_from_nat (link_length m) of
        None \<Rightarrow> None
      | Some len \<Rightarrow> Some (u32_le len @ concat (map (\<lambda>(k, v). enc_k k @ enc_v v) (iter m))))"

subsection \<open>The invariant\<close>

text \<open>
  \<open>audit\<close> is the invariant the repository's own tests check after every operation: keys
  strictly ordered between the bounds, sibling heights at most one apart, caches exact.
\<close>

fun balanced :: "('k, 'v) link \<Rightarrow> bool" where
  "balanced Absent = True"
| "balanced (Node l k v r h n) =
     (h = 1 + max (link_height l) (link_height r) \<and> n = 1 + link_length l + link_length r \<and>
      link_height l \<le> link_height r + 1 \<and> link_height r \<le> link_height l + 1 \<and>
      balanced l \<and> balanced r)"

definition audit :: "('k::linorder, 'v) link \<Rightarrow> bool" where
  "audit m = (balanced m \<and> ordered_keys (inorder m))"

subsection \<open>Rotations and rebalancing\<close>

lemma refresh_simps [simp]:
  "inorder (refresh l k v r) = inorder l @ (k, v) # inorder r"
  "link_height (refresh l k v r) = 1 + max (link_height l) (link_height r)"
  "link_length (refresh l k v r) = 1 + link_length l + link_length r"
  "refresh l k v r \<noteq> Absent"
  by (simp_all add: refresh_def)

lemma balanced_refresh [simp]:
  "balanced (refresh l k v r) \<longleftrightarrow>
     link_height l \<le> link_height r + 1 \<and> link_height r \<le> link_height l + 1 \<and> balanced l \<and> balanced r"
  by (auto simp: refresh_def)

lemma balanced_height_0: "balanced t \<Longrightarrow> link_height t = 0 \<longleftrightarrow> t = Absent"
  by (cases t) auto

lemma link_length_inorder: "balanced t \<Longrightarrow> link_length t = length (inorder t)"
  by (induction t) auto

text \<open>
  The one lemma every mutation rests on: two balanced subtrees whose heights differ by at
  most two are rebalanced without a panic, keeping the entries, and the height is that of
  the plain node or one less.
\<close>

lemma rebalance_correct:
  assumes l: "balanced l" and r: "balanced r"
    and lr: "link_height l \<le> link_height r + 2" and rl: "link_height r \<le> link_height l + 2"
  shows "\<exists>t. rebalance l k v r = Some t \<and> balanced t \<and>
    inorder t = inorder l @ (k, v) # inorder r \<and> t \<noteq> Absent \<and>
    max (link_height l) (link_height r) \<le> link_height t \<and>
    link_height t \<le> 1 + max (link_height l) (link_height r) \<and>
    (link_height l \<le> link_height r + 1 \<and> link_height r \<le> link_height l + 1 \<longrightarrow>
       link_height t = 1 + max (link_height l) (link_height r))"
proof -
  consider (left) "link_height l = link_height r + 2" | (right) "link_height r = link_height l + 2"
    | (even) "link_height l \<le> link_height r + 1" "link_height r \<le> link_height l + 1"
    using lr rl by linarith
  then show ?thesis
  proof cases
    case left
    then obtain ll lk lv lr' lh ln where l_eq: "l = Node ll lk lv lr' lh ln" by (cases l) auto
    show ?thesis
    proof (cases "link_height ll < link_height lr'")
      case True
      then obtain ml mk mv mr mh mn where "lr' = Node ml mk mv mr mh mn" by (cases lr') auto
      with True left l r l_eq show ?thesis
        by (auto simp: rebalance_def Let_def refresh_def)
    next
      case False
      with left l r l_eq show ?thesis by (auto simp: rebalance_def Let_def refresh_def)
    qed
  next
    case right
    then obtain rl' rk rv rr rh rn where r_eq: "r = Node rl' rk rv rr rh rn" by (cases r) auto
    show ?thesis
    proof (cases "link_height rr < link_height rl'")
      case True
      then obtain ml mk mv mr mh mn where "rl' = Node ml mk mv mr mh mn" by (cases rl') auto
      with True right l r r_eq show ?thesis
        by (auto simp: rebalance_def Let_def refresh_def)
    next
      case False
      with right l r r_eq show ?thesis by (auto simp: rebalance_def Let_def refresh_def)
    qed
  next
    case even
    with l r show ?thesis by (auto simp: rebalance_def Let_def)
  qed
qed

subsection \<open>Lookup, insertion and removal\<close>

lemma get_map_of: "ordered_keys (inorder m) \<Longrightarrow> get m key = map_of (inorder m) key"
proof (induction m)
  case (Node l k v r h n)
  have sub: "ordered_keys (inorder l)" "ordered_keys (inorder r)"
    using Node.prems by (auto simp: sorted_wrt_append)
  have ord: "ordered_keys (inorder l @ (k, v) # inorder r)" using Node.prems by simp
  consider "key < k" | "k < key" | "key = k" by (rule linorder_cases)
  then show ?case
  proof cases
    case 1
    then show ?thesis
      using Node.IH(1) sub map_of_ordered_lt [OF ord, of key] by (auto simp: map_add_def split: option.split)
  next
    case 2
    then show ?thesis
      using Node.IH(2) sub map_of_ordered_gt [OF ord, of key] by (auto simp: map_add_def split: option.split)
  next
    case 3
    then show ?thesis
      using map_of_ordered_gt [OF ord, of key] by (auto simp: map_add_def)
  qed
qed simp

text \<open>A child that grew or shrank by at most one level changes the node's height by at most one.\<close>

lemma rebalance_grow_left:
  assumes "balanced (Node l k v r h n)" "balanced l'"
    "link_height l \<le> link_height l'" "link_height l' \<le> link_height l + 1"
  obtains t where "rebalance l' k v r = Some t" "balanced t"
    "inorder t = inorder l' @ (k, v) # inorder r" "h \<le> link_height t" "link_height t \<le> h + 1"
  using rebalance_correct [of l' r k v] assms by (auto simp: max_def split: if_splits)

lemma rebalance_grow_right:
  assumes "balanced (Node l k v r h n)" "balanced r'"
    "link_height r \<le> link_height r'" "link_height r' \<le> link_height r + 1"
  obtains t where "rebalance l k v r' = Some t" "balanced t"
    "inorder t = inorder l @ (k, v) # inorder r'" "h \<le> link_height t" "link_height t \<le> h + 1"
  using rebalance_correct [of l r' k v] assms by (auto simp: max_def split: if_splits)

lemma rebalance_shrink_left:
  assumes "balanced (Node l k v r h n)" "balanced l'"
    "link_height l' \<le> link_height l" "link_height l \<le> link_height l' + 1"
  obtains t where "rebalance l' k v r = Some t" "balanced t"
    "inorder t = inorder l' @ (k, v) # inorder r" "link_height t \<le> h" "h \<le> link_height t + 1"
  using rebalance_correct [of l' r k v] assms by (auto simp: max_def split: if_splits)

lemma rebalance_shrink_right:
  assumes "balanced (Node l k v r h n)" "balanced r'"
    "link_height r' \<le> link_height r" "link_height r \<le> link_height r' + 1"
  obtains t where "rebalance l k' v' r' = Some t" "balanced t"
    "inorder t = inorder l @ (k', v') # inorder r'" "link_height t \<le> h" "h \<le> link_height t + 1"
  using rebalance_correct [of l r' k' v'] assms by (auto simp: max_def split: if_splits)

lemma audit_Node:
  assumes "audit (Node l k v r h n)"
  shows "balanced (Node l k v r h n)" and "audit l" and "audit r"
    and "\<forall>x\<in>fst ` set (inorder l). x < k" and "\<forall>y\<in>fst ` set (inorder r). k < y"
    and "k \<le> key \<Longrightarrow> map_of (inorder l) key = None"
    and "key \<le> k \<Longrightarrow> map_of (inorder r) key = None"
  using assms map_of_ordered_lt [of "inorder l" k v "inorder r" key]
    map_of_ordered_gt [of "inorder l" k v "inorder r" key]
  by (simp_all add: audit_def sorted_wrt_mid)

lemma auditI:
  "balanced t \<Longrightarrow> inorder t = inorder l @ (k, v) # inorder r \<Longrightarrow> audit l \<Longrightarrow> audit r \<Longrightarrow>
   \<forall>x\<in>fst ` set (inorder l). x < k \<Longrightarrow> \<forall>y\<in>fst ` set (inorder r). k < y \<Longrightarrow> audit t"
  by (simp add: audit_def sorted_wrt_mid)

text \<open>Insertion never panics on an audited map, keeps the audit and is a map update.\<close>

lemma insert_link_correct:
  assumes "audit m"
  shows "\<exists>m'. insert_link m key value = Some (m', map_of (inorder m) key) \<and> audit m' \<and>
    map_of (inorder m') = (map_of (inorder m))(key \<mapsto> value) \<and>
    link_height m \<le> link_height m' \<and> link_height m' \<le> link_height m + 1"
  using assms
proof (induction m)
  case Absent
  then show ?case by (auto simp: audit_def)
next
  case (Node l k v r h n)
  note nd = audit_Node [OF Node.prems]
  consider (less) "key < k" | (greater) "k < key" | (equal) "key = k" by (rule linorder_cases)
  then show ?case
  proof cases
    case less
    obtain l' where l': "insert_link l key value = Some (l', map_of (inorder l) key)" "audit l'"
      "map_of (inorder l') = (map_of (inorder l))(key \<mapsto> value)"
      "link_height l \<le> link_height l'" "link_height l' \<le> link_height l + 1"
      using Node.IH(1) [OF nd(2)] by blast
    have "balanced l'" using l'(2) by (simp add: audit_def)
    then obtain t where t: "rebalance l' k v r = Some t" "balanced t"
      "inorder t = inorder l' @ (k, v) # inorder r" "h \<le> link_height t" "link_height t \<le> h + 1"
      using rebalance_grow_left [OF nd(1)] l' by blast
    have "audit t" using auditI [OF t(2,3) l'(2) nd(3)] keys_of_map_upd [OF l'(3)] nd(4,5) less by auto
    with less l' t nd(7) [of key] show ?thesis
      by (auto simp: map_add_def fun_eq_iff split: option.split)
  next
    case greater
    obtain r' where r': "insert_link r key value = Some (r', map_of (inorder r) key)" "audit r'"
      "map_of (inorder r') = (map_of (inorder r))(key \<mapsto> value)"
      "link_height r \<le> link_height r'" "link_height r' \<le> link_height r + 1"
      using Node.IH(2) [OF nd(3)] by blast
    have "balanced r'" using r'(2) by (simp add: audit_def)
    then obtain t where t: "rebalance l k v r' = Some t" "balanced t"
      "inorder t = inorder l @ (k, v) # inorder r'" "h \<le> link_height t" "link_height t \<le> h + 1"
      using rebalance_grow_right [OF nd(1)] r' by blast
    have "audit t" using auditI [OF t(2,3) nd(2) r'(2)] keys_of_map_upd [OF r'(3)] nd(4,5) greater by auto
    with greater r' t nd(6) [of key] show ?thesis
      by (auto simp: map_add_def fun_eq_iff split: option.split)
  next
    case equal
    obtain t where t: "rebalance l k value r = Some t" "balanced t"
      "inorder t = inorder l @ (k, value) # inorder r" "link_height t = h"
      using rebalance_correct [of l r k "value"] nd(1) by auto
    have "audit t" using auditI [OF t(2,3) nd(2,3)] nd(4,5) by simp
    with equal t nd(6) [of key] show ?thesis
      by (auto simp: map_add_def fun_eq_iff split: option.split)
  qed
qed

lemma pop_min_correct:
  assumes "audit m" and "m \<noteq> Absent"
  shows "\<exists>m' k v. pop_min m = Some (m', k, v) \<and> audit m' \<and> inorder m = (k, v) # inorder m' \<and>
    link_height m' \<le> link_height m \<and> link_height m \<le> link_height m' + 1"
  using assms
proof (induction m)
  case (Node l k v r h n)
  note nd = audit_Node [OF Node.prems(1)]
  show ?case
  proof (cases "l = Absent")
    case True
    with nd(1,3) show ?thesis by auto
  next
    case False
    obtain l' mk mv where l': "pop_min l = Some (l', mk, mv)" "audit l'"
      "inorder l = (mk, mv) # inorder l'" "link_height l' \<le> link_height l"
      "link_height l \<le> link_height l' + 1"
      using Node.IH(1) [OF nd(2) False] by blast
    have "balanced l'" using l'(2) by (simp add: audit_def)
    then obtain t where t: "rebalance l' k v r = Some t" "balanced t"
      "inorder t = inorder l' @ (k, v) # inorder r" "link_height t \<le> h" "h \<le> link_height t + 1"
      using rebalance_shrink_left [OF nd(1)] l' by blast
    have "audit t" using auditI [OF t(2,3) l'(2) nd(3)] nd(4,5) l'(3) by auto
    with False l' t show ?thesis by auto
  qed
qed simp

text \<open>Removal of a present key: no panic, the audit is kept, exactly that key goes.\<close>

lemma remove_link_correct:
  assumes "audit m" and "map_of (inorder m) key = Some value"
  shows "\<exists>m'. remove_link m key = Some (m', value) \<and> audit m' \<and>
    map_of (inorder m') = (map_of (inorder m))(key := None) \<and>
    link_height m' \<le> link_height m \<and> link_height m \<le> link_height m' + 1"
  using assms
proof (induction m)
  case (Node l k v r h n)
  note nd = audit_Node [OF Node.prems(1)]
  consider (less) "key < k" | (greater) "k < key" | (equal) "key = k" by (rule linorder_cases)
  then show ?case
  proof cases
    case less
    then have "map_of (inorder l) key = Some value"
      using Node.prems(2) nd(7) [OF less_imp_le [OF less]]
      by (auto simp: map_add_def split: option.splits if_splits)
    then obtain l' where l': "remove_link l key = Some (l', value)" "audit l'"
      "map_of (inorder l') = (map_of (inorder l))(key := None)"
      "link_height l' \<le> link_height l" "link_height l \<le> link_height l' + 1"
      using Node.IH(1) [OF nd(2)] by blast
    have "balanced l'" using l'(2) by (simp add: audit_def)
    then obtain t where t: "rebalance l' k v r = Some t" "balanced t"
      "inorder t = inorder l' @ (k, v) # inorder r" "link_height t \<le> h" "h \<le> link_height t + 1"
      using rebalance_shrink_left [OF nd(1)] l' by blast
    have "audit t" using auditI [OF t(2,3) l'(2) nd(3)] keys_of_map_del [OF l'(3)] nd(4,5) by auto
    with less l' t nd(7) [of key] show ?thesis by (auto simp: map_add_def fun_eq_iff split: option.split)
  next
    case greater
    then have "map_of (inorder r) key = Some value"
      using Node.prems(2) nd(6) [OF less_imp_le [OF greater]]
      by (auto simp: map_add_def split: option.splits if_splits)
    then obtain r' where r': "remove_link r key = Some (r', value)" "audit r'"
      "map_of (inorder r') = (map_of (inorder r))(key := None)"
      "link_height r' \<le> link_height r" "link_height r \<le> link_height r' + 1"
      using Node.IH(2) [OF nd(3)] by blast
    have "balanced r'" using r'(2) by (simp add: audit_def)
    then obtain t where t: "rebalance l k v r' = Some t" "balanced t"
      "inorder t = inorder l @ (k, v) # inorder r'" "link_height t \<le> h" "h \<le> link_height t + 1"
      using rebalance_shrink_right [OF nd(1)] r' by blast
    have "audit t" using auditI [OF t(2,3) nd(2) r'(2)] keys_of_map_del [OF r'(3)] nd(4,5) by auto
    with greater r' t nd(6) [of key] show ?thesis
      by (auto simp: map_add_def fun_eq_iff split: option.split)
  next
    case equal
    have val: "value = v" using Node.prems(2) nd(6,7) [of key] equal by (auto simp: map_add_def)
    show ?thesis
    proof (cases "l = Absent \<or> r = Absent")
      case True
      with equal val nd nd(6,7) [of key] show ?thesis
        by (auto simp: fun_eq_iff map_add_def split: option.split)
    next
      case False
      then obtain r' mk mv where r': "pop_min r = Some (r', mk, mv)" "audit r'"
        "inorder r = (mk, mv) # inorder r'" "link_height r' \<le> link_height r"
        "link_height r \<le> link_height r' + 1"
        using pop_min_correct [OF nd(3)] by blast
      have "balanced r'" using r'(2) by (simp add: audit_def)
      then obtain t where t: "rebalance l mk mv r' = Some t" "balanced t"
        "inorder t = inorder l @ (mk, mv) # inorder r'" "link_height t \<le> h" "h \<le> link_height t + 1"
        using rebalance_shrink_right [OF nd(1)] r' by blast
      have mk: "k < mk" "\<forall>y\<in>fst ` set (inorder r'). mk < y"
        using nd(3,5) r'(3) by (auto simp: audit_def)
      have "audit t" using auditI [OF t(2,3) nd(2) r'(2)] nd(4) mk by fastforce
      with False equal val r' t nd(6,7) [of key] show ?thesis
        by (auto simp: map_add_def fun_eq_iff split: option.split)
    qed
  qed
qed simp

subsection \<open>Iteration\<close>

lemma iter_run_push_left: "iter_run (push_left stack t) = inorder t @ iter_run stack"
proof (induction t arbitrary: stack)
  case (Node l k v r h n)
  have "iter_run (Node l k v r h n # stack) = (k, v) # iter_run (push_left stack r)"
    by (subst iter_run.simps) simp
  with Node show ?case by simp
qed simp

lemma iter_run_Nil [simp]: "iter_run [] = []"
  by (subst iter_run.simps) simp

lemma iter_inorder: "iter m = inorder m"
  by (simp add: iter_def iter_run_push_left)

lemma iter_run_seek_from:
  "ordered_keys (inorder t) \<Longrightarrow>
   iter_run (seek_from bound stack t) = filter (\<lambda>(k, v). bound \<le> k) (inorder t) @ iter_run stack"
proof (induction t arbitrary: stack)
  case (Node l k v r h n)
  have ord: "ordered_keys (inorder l)" "ordered_keys (inorder r)"
    "\<forall>x\<in>set (inorder l). fst x < k" "\<forall>x\<in>set (inorder r). k < fst x"
    using Node.prems by (simp_all add: sorted_wrt_mid)
  show ?case
  proof (cases "k < bound")
    case True
    then have "filter (\<lambda>(k, v). bound \<le> k) (inorder l) = []"
      using ord(3) by (force simp: filter_empty_conv)
    with True Node.IH(2) [OF ord(2)] show ?thesis by simp
  next
    case False
    have "iter_run (Node l k v r h n # stack) = (k, v) # iter_run (push_left stack r)"
      by (subst iter_run.simps) simp
    moreover have "filter (\<lambda>(k, v). bound \<le> k) (inorder r) = inorder r"
      using ord(4) False by (force simp: filter_id_conv)
    ultimately show ?thesis using False Node.IH(1) [OF ord(1)] by (simp add: iter_run_push_left)
  qed
qed simp

lemma iter_from_filter: "audit m \<Longrightarrow> iter_from m bound = filter (\<lambda>(k, v). bound \<le> k) (iter m)"
  by (simp add: iter_from_def audit_def iter_run_seek_from iter_inorder)

text \<open>The contents of an audited map determine its iteration order, whatever the tree shape.\<close>

lemma audit_canonical: "audit a \<Longrightarrow> audit b \<Longrightarrow> get a = get b \<Longrightarrow> inorder a = inorder b"
  by (rule ordered_keys_map_of_inj) (auto simp: audit_def get_map_of fun_eq_iff)

subsection \<open>Building from a sorted sequence\<close>

text \<open>The height \<open>build\<close> gives to a tree of \<open>n\<close> entries: the number of bits of \<open>n\<close>.\<close>

fun bits :: "nat \<Rightarrow> nat" where
  "bits n = (if n = 0 then 0 else Suc (bits (n div 2)))"

declare bits.simps [simp del]

lemma bits_0 [simp]: "bits 0 = 0" by (subst bits.simps) simp

lemma bits_pos: "0 < n \<Longrightarrow> bits n = Suc (bits (n div 2))" by (subst bits.simps) simp

lemma bits_mono: "m \<le> n \<Longrightarrow> bits m \<le> bits n"
proof (induction n arbitrary: m rule: less_induct)
  case (less n)
  show ?case
  proof (cases "m = 0")
    case False
    then have "bits (m div 2) \<le> bits (n div 2)" using less by (simp add: div_le_mono)
    with False less.prems show ?thesis by (simp add: bits_pos)
  qed simp
qed

lemma bits_Suc: "bits (Suc n) \<le> Suc (bits n)"
proof (induction n rule: less_induct)
  case (less n)
  show ?case
  proof (cases "n = 0")
    case True
    then show ?thesis by (simp add: bits_pos)
  next
    case False
    have "bits (Suc n div 2) \<le> Suc (bits (n div 2))"
    proof (cases "even n")
      case True
      then have "Suc n div 2 = n div 2" by presburger
      then show ?thesis by simp
    next
      case odd: False
      then have "Suc n div 2 = Suc (n div 2)" by presburger
      with less.IH [of "n div 2"] False show ?thesis by simp
    qed
    with False show ?thesis by (simp add: bits_pos)
  qed
qed

lemma build_correct:
  "len \<le> length items \<Longrightarrow> \<exists>t. build items len = Some (t, drop len items) \<and> balanced t \<and>
     inorder t = take len items \<and> link_height t = bits len"
proof (induction items len rule: build.induct)
  case (2 items m)
  let ?a = "Suc m div 2" and ?b = "Suc m - Suc m div 2 - 1"
  obtain l where l: "build items ?a = Some (l, drop ?a items)" "balanced l" "inorder l = take ?a items"
    "link_height l = bits ?a"
    using "2.IH"(1) "2.prems" le_trans [of "Suc m div 2" "Suc m" "length items"] by fastforce
  have lt: "?a < length items" using "2.prems" by linarith
  then obtain k v where kv: "items ! ?a = (k, v)" by (cases "items ! ?a")
  have rest: "drop ?a items = (k, v) # drop (Suc ?a) items"
    using Cons_nth_drop_Suc [OF lt] kv by simp
  obtain r where r: "build (drop (Suc ?a) items) ?b = Some (r, drop ?b (drop (Suc ?a) items))" "balanced r"
    "inorder r = take ?b (drop (Suc ?a) items)" "link_height r = bits ?b"
    using "2.IH"(2) [OF l(1) refl rest refl] "2.prems" by fastforce
  have sum: "?a = ?b \<or> ?a = Suc ?b" by linarith
  then have h: "bits ?b \<le> bits ?a" "bits ?a \<le> Suc (bits ?b)"
    using bits_mono [of ?b ?a] bits_Suc [of ?b] by auto
  have "take (Suc m) items = take ?a items @ (k, v) # take ?b (drop (Suc ?a) items)"
    using take_add [of ?a "Suc ?b" items] rest by (simp add: take_Suc_conv_app_nth)
  moreover have "drop ?b (drop (Suc ?a) items) = drop (Suc m) items" by simp
  ultimately show ?case
    using l r rest h by (auto simp: bits_pos max_def)
qed simp

lemma from_btree_correct:
  assumes "ordered_keys items"
  shows "\<exists>m. from_btree items = Some m \<and> audit m \<and> iter m = items"
  using build_correct [of "length items" items] assms
  by (auto simp: from_btree_def audit_def iter_inorder)

subsection \<open>Height bound\<close>

lemma balanced_min_size: "balanced t \<Longrightarrow> 2 ^ (link_height t div 2) \<le> link_length t + 1"
proof (induction t)
  case (Node l k v r h n)
  have IH: "2 ^ (link_height l div 2) \<le> link_length l + 1" "2 ^ (link_height r div 2) \<le> link_length r + 1"
    using Node by auto
  let ?m = "min (link_height l) (link_height r)"
  have h: "h div 2 \<le> Suc (?m div 2)" using Node.prems by auto
  have "2 ^ (?m div 2) \<le> link_length l + 1" "2 ^ (?m div 2) \<le> link_length r + 1"
    using IH by (meson div_le_mono min.cobounded1 min.cobounded2 one_le_numeral order_trans power_increasing)+
  then have "2 ^ Suc (?m div 2) \<le> n + 1" using Node.prems by simp
  moreover have "(2::nat) ^ (h div 2) \<le> 2 ^ Suc (?m div 2)" using h by (intro power_increasing) auto
  ultimately show ?case by simp
qed simp

lemma audit_height_bound:
  assumes "audit m" and "link_length m < 2 ^ 64"
  shows "link_height m < 130"
proof (rule ccontr)
  assume "\<not> link_height m < 130"
  then have "65 \<le> link_height m div 2" by simp
  then have "(2::nat) ^ 65 \<le> 2 ^ (link_height m div 2)" by (intro power_increasing) auto
  also have "\<dots> \<le> link_length m + 1" using assms(1) by (intro balanced_min_size) (simp add: audit_def)
  finally show False using assms(2) by simp
qed

subsection \<open>The public operations\<close>

lemma sm_insert_total:
  assumes "audit m"
  obtains m' where "sm_insert m key value = Some (m', get m key)" and "audit m'"
    and "get m' = (get m)(key \<mapsto> value)"
  using insert_link_correct [OF assms, of key "value"] assms
  by (auto simp: sm_insert_def audit_def get_map_of fun_eq_iff)

lemma sm_remove_total:
  assumes "audit m"
  obtains m' where "sm_remove m key = Some (m', get m key)" and "audit m'"
    and "get m' = (get m)(key := None)"
proof (cases "get m key")
  case None
  then have "get m = (get m)(key := None)" by auto
  with None assms that show ?thesis by (simp add: sm_remove_def)
next
  case (Some v)
  with assms have "map_of (inorder m) key = Some v" by (simp add: audit_def get_map_of)
  from remove_link_correct [OF assms this] obtain m' where "remove_link m key = Some (m', v)"
    "audit m'" "map_of (inorder m') = (map_of (inorder m))(key := None)" by blast
  with Some assms that show ?thesis by (auto simp: sm_remove_def audit_def get_map_of fun_eq_iff)
qed

definition sm_put :: "('k::linorder, 'v) link \<Rightarrow> 'k \<Rightarrow> 'v \<Rightarrow> ('k, 'v) link" where
  "sm_put m key value = (case sm_insert m key value of None \<Rightarrow> m | Some (m', _) \<Rightarrow> m')"

definition sm_del :: "('k::linorder, 'v) link \<Rightarrow> 'k \<Rightarrow> ('k, 'v) link" where
  "sm_del m key = (case sm_remove m key of None \<Rightarrow> m | Some (m', _) \<Rightarrow> m')"

interpretation avl: ordered_table get iter sm_put sm_del audit
proof unfold_locales
  fix m :: "('a, 'b) link" and k v
  assume m: "audit m"
  then show "get m = map_of (iter m)" and "ordered_keys (iter m)"
    by (auto simp: iter_inorder audit_def get_map_of)
  show "get (sm_put m k v) = (get m)(k \<mapsto> v)" and "audit (sm_put m k v)"
    by (rule sm_insert_total [OF m, of k v]; simp add: sm_put_def)+
  show "get (sm_del m k) = (get m)(k := None)" and "audit (sm_del m k)"
    by (rule sm_remove_total [OF m, of k]; simp add: sm_del_def)+
qed

lemma update_at_correct:
  "ordered_keys (inorder m) \<Longrightarrow> get m key = Some v \<Longrightarrow>
   \<exists>m'. update_at m key f = Some m' \<and> get m' = (get m)(key \<mapsto> f v) \<and>
     map fst (inorder m') = map fst (inorder m) \<and>
     link_height m' = link_height m \<and> link_length m' = link_length m \<and> (balanced m \<longrightarrow> balanced m')"
proof (induction m)
  case (Node l k v' r h n)
  have "ordered_keys (inorder l)" "ordered_keys (inorder r)"
    using Node.prems(1) by (simp_all add: sorted_wrt_mid)
  with Node show ?case by (auto simp: fun_eq_iff split: if_splits)
qed simp

lemma get_mut_correct:
  assumes "audit m"
  shows "\<exists>m'. get_mut m key f = Some m' \<and> audit m' \<and> get m' = (get m)(key := map_option f (get m key))"
  using update_at_correct [of m key _ f] assms
  by (cases "get m key") (auto simp: get_mut_def audit_def fun_upd_idem)

lemma entry_or_default_correct:
  assumes "audit m"
  shows "\<exists>m'. entry_or_default d m key f = Some m' \<and> audit m' \<and>
    get m' = (get m)(key \<mapsto> f (case get m key of None \<Rightarrow> d | Some v \<Rightarrow> v))"
proof (cases "get m key")
  case None
  obtain m1 where m1: "sm_insert m key d = Some (m1, get m key)" "audit m1" "get m1 = (get m)(key \<mapsto> d)"
    using sm_insert_total [OF assms] by blast
  with update_at_correct [of m1 key d f] None show ?thesis
    by (auto simp: entry_or_default_def contains_key_def audit_def)
next
  case (Some v)
  with update_at_correct [of m key v f] assms show ?thesis
    by (auto simp: entry_or_default_def contains_key_def audit_def)
qed

subsection \<open>Properties\<close>

text \<open>Sequences of mutations, as the ledger makes them on one map.\<close>

datatype ('k, 'v) map_op = MInsert 'k 'v | MRemove 'k

fun sm_step :: "('k::linorder, 'v) link \<Rightarrow> ('k, 'v) map_op \<Rightarrow> (('k, 'v) link \<times> 'v option) option" where
  "sm_step m (MInsert k v) = sm_insert m k v"
| "sm_step m (MRemove k) = sm_remove m k"

fun sm_run :: "('k::linorder, 'v) link \<Rightarrow> ('k, 'v) map_op list \<Rightarrow> (('k, 'v) link \<times> 'v option list) option" where
  "sm_run m [] = Some (m, [])"
| "sm_run m (x # xs) =
     Option.bind (sm_step m x) (\<lambda>(m', p). Option.bind (sm_run m' xs) (\<lambda>(m'', ps). Some (m'', p # ps)))"

text \<open>The specification: a partial function, updated; each operation answers the value it replaces.\<close>

fun spec_step :: "('k \<rightharpoonup> 'v) \<Rightarrow> ('k, 'v) map_op \<Rightarrow> ('k \<rightharpoonup> 'v) \<times> 'v option" where
  "spec_step f (MInsert k v) = (f(k \<mapsto> v), f k)"
| "spec_step f (MRemove k) = (f(k := None), f k)"

fun spec_run :: "('k \<rightharpoonup> 'v) \<Rightarrow> ('k, 'v) map_op list \<Rightarrow> ('k \<rightharpoonup> 'v) \<times> 'v option list" where
  "spec_run f [] = (f, [])"
| "spec_run f (x # xs) =
     (let (f', p) = spec_step f x; (f'', ps) = spec_run f' xs in (f'', p # ps))"

lemma sm_step_refines:
  assumes "audit m"
  shows "\<exists>m'. sm_step m x = Some (m', snd (spec_step (get m) x)) \<and> audit m' \<and> get m' = fst (spec_step (get m) x)"
proof (cases x)
  case (MInsert k v)
  with sm_insert_total [OF assms, of k v] show ?thesis by auto
next
  case (MRemove k)
  with sm_remove_total [OF assms, of k] show ?thesis by auto
qed

lemma sm_run_refines:
  "audit m \<Longrightarrow> \<exists>m'. sm_run m xs = Some (m', snd (spec_run (get m) xs)) \<and> audit m' \<and>
     get m' = fst (spec_run (get m) xs)"
proof (induction xs arbitrary: m)
  case (Cons x xs)
  obtain m1 where m1: "sm_step m x = Some (m1, snd (spec_step (get m) x))" "audit m1"
    "get m1 = fst (spec_step (get m) x)"
    using sm_step_refines [OF Cons.prems] by blast
  from Cons.IH [OF m1(2)] show ?case using m1 by (auto simp: case_prod_beta Let_def)
qed simp

text \<open>
  C21. Refinement of the state map: any sequence of insertions and removals on an empty
  map runs without a panic, answers at every step the value the key had, ends in a tree that
  passes the audit (ordered, balanced, exact caches), and holds exactly the entries of the
  mathematical map under the same updates; its cached size is the number of those entries.
\<close>

theorem state_map_refines_finite_map:
  "\<exists>m. sm_run (Absent :: ('k::linorder, 'v) link) ops = Some (m, snd (spec_run Map.empty ops)) \<and>
     audit m \<and> get m = fst (spec_run Map.empty ops) \<and> link_length m = card (dom (get m))"
proof -
  have "audit (Absent :: ('k, 'v) link)" by (simp add: audit_def)
  moreover have "get (Absent :: ('k, 'v) link) = Map.empty" by (simp add: fun_eq_iff)
  ultimately obtain m where m: "sm_run (Absent :: ('k, 'v) link) ops = Some (m, snd (spec_run Map.empty ops))"
    "audit m" "get m = fst (spec_run Map.empty ops)"
    using sm_run_refines [of "Absent :: ('k, 'v) link" ops] by metis
  have "link_length m = card (dom (get m))"
    using avl.length_entries [OF m(2)] link_length_inorder [of m] m(2)
    by (simp add: iter_inorder audit_def)
  with m show ?thesis by blast
qed

text \<open>
  C30. Canonical form: two audited maps compare equal exactly when they hold the same
  entries, whatever their tree shapes, and then they serialize to the same bytes (the
  encoding feeds the state root, so it must not depend on the history of the tree).
\<close>

theorem state_map_canonical:
  assumes "audit a" and "audit b"
  shows "(sm_eq a b \<longleftrightarrow> get a = get b) \<and>
    (get a = get b \<longrightarrow> serialize_map enc_k enc_v a = serialize_map enc_k enc_v b)"
proof -
  have len: "link_length a = length (iter a)" "link_length b = length (iter b)"
    using assms by (simp_all add: iter_inorder audit_def link_length_inorder)
  have iter: "iter a = iter b \<longleftrightarrow> get a = get b"
    using avl.entries_canonical [OF assms] assms by (auto simp: avl.lookup_entries)
  have "serialize_map enc_k enc_v a = serialize_map enc_k enc_v b" if "get a = get b"
    using iter that len by (simp add: serialize_map_def cong: option.case_cong)
  with iter len show ?thesis by (auto simp: sm_eq_def)
qed

text \<open>Two trees of different shape with the entries 1, 2 and 3.\<close>

theorem state_map_canonical_witness:
  "\<exists>a b. sm_run (Absent :: (nat, nat) link) [MInsert 1 10, MInsert 2 20] = Some (a, [None, None]) \<and>
     sm_run Absent [MInsert 2 20, MInsert 1 10] = Some (b, [None, None]) \<and> a \<noteq> b \<and> sm_eq a b"
proof -
  let ?a = "Node Absent 1 10 (Node Absent 2 20 Absent 1 1) 2 2 :: (nat, nat) link"
  let ?b = "Node (Node Absent 1 10 Absent 1 1) 2 20 Absent 2 2 :: (nat, nat) link"
  have "audit ?a" "audit ?b" "get ?a = get ?b" by (auto simp: audit_def fun_eq_iff)
  then have "sm_eq ?a ?b" using state_map_canonical [of ?a ?b] by blast
  moreover have "sm_run (Absent :: (nat, nat) link) [MInsert 1 10, MInsert 2 20] = Some (?a, [None, None])"
    and "sm_run (Absent :: (nat, nat) link) [MInsert 2 20, MInsert 1 10] = Some (?b, [None, None])"
    by (simp_all add: sm_insert_def rebalance_def Let_def refresh_def)
  ultimately show ?thesis by (intro exI [of _ ?a] exI [of _ ?b]) simp
qed

text \<open>
  Iteration: the iterator yields exactly the cached number of entries, in strictly
  increasing key order, and \<open>iter_from\<close> yields the suffix whose keys are at least the bound;
  the cached height of a map of fewer than \<open>2 ^ 64\<close> entries is below 130, so the \<open>u16\<close> cache
  and the iterator's stack never overflow.
\<close>

theorem state_map_iteration:
  assumes "audit m"
  shows "length (iter m) = link_length m \<and> ordered_keys (iter m) \<and>
    ((k, v) \<in> set (iter m) \<longleftrightarrow> get m k = Some v) \<and>
    iter_from m bound = filter (\<lambda>(k, v). bound \<le> k) (iter m) \<and>
    (link_length m < 2 ^ 64 \<longrightarrow> link_height m < 130)"
  using assms avl.set_entries [OF assms, of k v] avl.entries_ordered [OF assms]
    iter_from_filter [OF assms] audit_height_bound [OF assms]
  by (simp add: iter_inorder audit_def link_length_inorder)

theorem state_map_iteration_witness:
  "\<exists>m. sm_run (Absent :: (nat, nat) link) [MInsert 3 30, MInsert 1 10, MInsert 2 20] =
       Some (m, [None, None, None]) \<and>
     iter_from m 2 = [(2, 20), (3, 30)] \<and> length (iter m) = 3 \<and> link_height m < 130"
proof -
  let ?m = "Node (Node Absent 1 10 Absent 1 1) 2 20 (Node Absent 3 30 Absent 1 1) 2 3 :: (nat, nat) link"
  have run: "sm_run (Absent :: (nat, nat) link) [MInsert 3 30, MInsert 1 10, MInsert 2 20] =
      Some (?m, [None, None, None])"
    by (simp add: sm_insert_def rebalance_def Let_def refresh_def)
  have aud: "audit ?m" by (simp add: audit_def)
  show ?thesis
    using run state_map_iteration [OF aud, of 2 20 2] by (intro exI [of _ ?m]) (simp add: iter_inorder)
qed

text \<open>
  Round trip through a sorted sequence: building a map from the strictly ordered
  entries of a \<open>BTreeMap\<close> never runs out of items, passes the audit and iterates over exactly
  those entries; rebuilding any audited map from its own iteration gives an equal map.
\<close>

theorem state_map_from_btree_roundtrip:
  assumes "ordered_keys items"
  shows "\<exists>m. from_btree items = Some m \<and> audit m \<and> iter m = items \<and>
    (\<forall>m'. audit m' \<and> iter m' = items \<longrightarrow> sm_eq m m')"
proof -
  obtain m where m: "from_btree items = Some m" "audit m" "iter m = items"
    using from_btree_correct [OF assms] by blast
  then show ?thesis by (auto simp: sm_eq_def iter_inorder audit_def link_length_inorder)
qed

theorem state_map_from_btree_roundtrip_witness:
  "\<exists>m. from_btree [(1 :: nat, True), (2, False), (5, True)] = Some m \<and> audit m \<and>
     iter m = [(1, True), (2, False), (5, True)]"
  using state_map_from_btree_roundtrip [of "[(1 :: nat, True), (2, False), (5, True)]"] by auto

end
