(* ===== verification/Wire.thy ===== *)
theory Wire
  imports Prelude
begin

section \<open>The canonical wire encoding (\<^verbatim>\<open>crypto/src/codec.rs\<close>, \<^verbatim>\<open>depend/traits/borsh\<close>)\<close>

text \<open>
  Every block, operation and ledger table has one Borsh encoding: integers little-endian, arrays
  raw, sequences behind a \<open>u32\<close> count, options and enums behind a tag byte, structures field by
  field. An encoder is a function to bytes together with the predicate of what it accepts (a
  sequence longer than \<open>u32::MAX\<close> is an error). A decoder reads a value off the front of the input
  and returns the rest; \<open>None\<close> is a decoding error. The interface \<open>codec\<close> says that decoding
  inverts encoding in both directions, so that every value has exactly one encoding and no other
  bytes decode to it. Each type of the wire format is an instance.
\<close>

type_synonym 'a decoder = "bytes \<Rightarrow> ('a \<times> bytes) option"

named_theorems codec_enc \<open>what a decoder returns on an encoding\<close>
named_theorems codec_dec \<open>what a decoded input was\<close>

subsection \<open>Integers, arrays, sequences, options\<close>

definition enc_u8 :: "u8 \<Rightarrow> bytes" where "enc_u8 b = [b]"

fun dec_u8 :: "u8 decoder" where
  "dec_u8 [] = None"
| "dec_u8 (b # bs) = Some (b, bs)"

definition dec_int :: "nat \<Rightarrow> 'a::len word decoder" where
  "dec_int n bs = (if length bs < n then None else Some (of_nat (le_val (take n bs)), drop n bs))"

abbreviation dec_u32 :: "u32 decoder" where "dec_u32 \<equiv> dec_int 4"
abbreviation dec_u64 :: "u64 decoder" where "dec_u64 \<equiv> dec_int 8"
abbreviation dec_u128 :: "u128 decoder" where "dec_u128 \<equiv> dec_int 16"

definition enc_array :: "bytes \<Rightarrow> bytes" where "enc_array bs = bs"

definition dec_array :: "nat \<Rightarrow> bytes decoder" where
  "dec_array n bs = (if length bs < n then None else Some (take n bs, drop n bs))"

definition enc_seq :: "('a \<Rightarrow> bytes) \<Rightarrow> 'a list \<Rightarrow> bytes" where
  "enc_seq enc xs = concat (map enc xs)"

fun dec_seq :: "'a decoder \<Rightarrow> nat \<Rightarrow> 'a list decoder" where
  "dec_seq dec 0 bs = Some ([], bs)"
| "dec_seq dec (Suc n) bs =
     Option.bind (dec bs) (\<lambda>(x, bs). Option.bind (dec_seq dec n bs) (\<lambda>(xs, bs). Some (x # xs, bs)))"

definition enc_vec :: "('a \<Rightarrow> bytes) \<Rightarrow> 'a list \<Rightarrow> bytes" where
  "enc_vec enc xs = u32_le (of_nat (length xs)) @ enc_seq enc xs"

definition ok_vec :: "nat \<Rightarrow> ('a \<Rightarrow> bool) \<Rightarrow> 'a list \<Rightarrow> bool" where
  "ok_vec maximum ok xs = (length xs \<le> maximum \<and> list_all ok xs)"

text \<open>A sequence whose count is checked against a maximum before its elements are read
  (\<open>deserialize_bounded_vec\<close>); a plain \<open>Vec\<close> has the maximum \<open>u32::MAX\<close>.\<close>

definition dec_vec :: "nat \<Rightarrow> 'a decoder \<Rightarrow> 'a list decoder" where
  "dec_vec maximum dec bs =
     Option.bind (dec_u32 bs) (\<lambda>(n, bs). if unat n > maximum then None else dec_seq dec (unat n) bs)"

definition U32_MAX :: nat where "U32_MAX = 4294967295"

fun enc_option :: "('a \<Rightarrow> bytes) \<Rightarrow> 'a option \<Rightarrow> bytes" where
  "enc_option enc None = [0]"
| "enc_option enc (Some x) = 1 # enc x"

definition dec_option :: "'a decoder \<Rightarrow> 'a option decoder" where
  "dec_option dec bs =
     Option.bind (dec_u8 bs) (\<lambda>(flag, bs).
       if flag = 0 then Some (None, bs)
       else if flag = 1 then Option.bind (dec bs) (\<lambda>(x, bs). Some (Some x, bs))
       else None)"

text \<open>A reader that stops after a number of bytes (\<open>OperationReader\<close>), and a decoder for a whole
  slice (\<open>try_from_slice\<close>).\<close>

definition dec_limited :: "nat \<Rightarrow> 'a decoder \<Rightarrow> 'a decoder" where
  "dec_limited limit dec bs =
     Option.bind (dec (take limit bs)) (\<lambda>(x, rest). Some (x, rest @ drop limit bs))"

definition try_from_slice :: "'a decoder \<Rightarrow> bytes \<Rightarrow> 'a option" where
  "try_from_slice dec bs =
     Option.bind (dec bs) (\<lambda>(x, rest). if rest = [] then Some x else None)"

datatype codec_error = EncodeFailed | DecodeFailed | InvalidBlock

definition canonical_bytes :: "('a \<Rightarrow> bytes) \<Rightarrow> ('a \<Rightarrow> bool) \<Rightarrow> 'a \<Rightarrow> (bytes, codec_error) result" where
  "canonical_bytes enc ok x = (if ok x then Ok (enc x) else Err EncodeFailed)"

definition canonical_decode :: "'a decoder \<Rightarrow> bytes \<Rightarrow> ('a, codec_error) result" where
  "canonical_decode dec bs = ok_or (try_from_slice dec bs) DecodeFailed"

subsection \<open>The interface of a wire type\<close>

locale codec =
  fixes enc :: "'a \<Rightarrow> bytes" and dec :: "'a decoder" and ok :: "'a \<Rightarrow> bool"
  assumes dec_enc: "ok x \<Longrightarrow> dec (enc x @ rest) = Some (x, rest)"
    and enc_dec: "dec bs = Some (x, rest) \<Longrightarrow> ok x \<and> bs = enc x @ rest"
begin

lemma dec_enc_whole: "ok x \<Longrightarrow> dec (enc x) = Some (x, [])"
  using dec_enc [of x "[]"] by simp

lemma try_from_slice_iff: "try_from_slice dec bs = Some x \<longleftrightarrow> ok x \<and> bs = enc x"
proof
  assume "try_from_slice dec bs = Some x"
  then have "dec bs = Some (x, [])" by (auto simp: try_from_slice_def bind_eq_Some_conv split: if_splits)
  then show "ok x \<and> bs = enc x" using enc_dec by fastforce
next
  assume "ok x \<and> bs = enc x"
  then show "try_from_slice dec bs = Some x" by (simp add: try_from_slice_def dec_enc_whole)
qed

lemma enc_inj:
  assumes "ok x" and "ok y" and "enc x @ r = enc y @ s"
  shows "x = y \<and> r = s"
proof -
  have "Some (x, r) = dec (enc y @ s)" unfolding assms(3) [symmetric] by (rule dec_enc [OF assms(1), symmetric])
  also have "\<dots> = Some (y, s)" by (rule dec_enc [OF assms(2)])
  finally show ?thesis by simp
qed

lemma canonical_roundtrip:
  "canonical_bytes enc ok x = Ok bs \<longleftrightarrow> canonical_decode dec bs = Ok x"
proof -
  have "canonical_bytes enc ok x = Ok bs \<longleftrightarrow> ok x \<and> bs = enc x" by (auto simp: canonical_bytes_def)
  moreover have "canonical_decode dec bs = Ok x \<longleftrightarrow> try_from_slice dec bs = Some x"
    by (cases "try_from_slice dec bs") (simp_all add: canonical_decode_def ok_or_def)
  ultimately show ?thesis by (simp only: try_from_slice_iff)
qed

lemma dec_seq_enc: "list_all ok xs \<Longrightarrow> dec_seq dec (length xs) (enc_seq enc xs @ rest) = Some (xs, rest)"
  by (induction xs) (simp_all add: enc_seq_def dec_enc)

lemma enc_seq_dec: "dec_seq dec n bs = Some (xs, rest) \<Longrightarrow> length xs = n \<and> list_all ok xs \<and> bs = enc_seq enc xs @ rest"
proof (induction n arbitrary: bs xs)
  case (Suc n)
  then obtain x bs' ys where "dec bs = Some (x, bs')" "dec_seq dec n bs' = Some (ys, rest)" "xs = x # ys"
    by (auto simp: bind_eq_Some_conv)
  with Suc.IH [of bs' ys] show ?case by (auto simp: enc_seq_def dest: enc_dec)
qed (simp add: enc_seq_def)

end


subsection \<open>Instances of the basic types\<close>

lemma le_bytes_le_val:
  assumes "length bs = n" and "8 * n \<le> LENGTH('a)"
  shows "le_bytes n (of_nat (le_val bs) :: 'a::len word) = bs"
  using assms
proof (induction n arbitrary: bs)
  case (Suc n)
  obtain b cs where bs: "bs = b # cs" "length cs = n" using Suc.prems(1) by (cases bs) auto
  let ?w = "of_nat (unat b + 256 * le_val cs) :: 'a word"
  have "unat b + 256 * le_val cs < 2 ^ (8 * Suc n)" using le_val_bound [of "b # cs"] bs(2) by simp
  then have fits: "unat b + 256 * le_val cs < 2 ^ LENGTH('a)"
    using Suc.prems(2) by (meson less_le_trans one_le_numeral power_increasing)
  from fits have u: "unat ?w = unat b + 256 * le_val cs" unfolding unat_of_nat by (rule mod_less)
  have b: "unat b < 256" using unat_bound_le [of 8 b] by simp
  have "unat (ucast ?w :: u8) = unat b" unfolding unat_ucast u using b by simp
  then have 1: "ucast ?w = b" by (simp add: word_unat_eq_iff)
  have "unat (drop_bit 8 ?w) = le_val cs" unfolding unat_drop_bit u using b by simp
  moreover have "le_val cs < 2 ^ LENGTH('a)"
    using fits by linarith
  ultimately have 2: "drop_bit 8 ?w = of_nat (le_val cs)" by (simp add: word_unat_eq_iff unat_of_nat)
  show ?case using Suc.IH [OF bs(2)] Suc.prems(2) 1 2 bs by simp
qed simp

lemma codec_int:
  assumes "LENGTH('a) = 8 * n"
  shows "codec (le_bytes n :: 'a::len word \<Rightarrow> bytes) (dec_int n) (\<lambda>_. True)"
proof
  fix x :: "'a word" and rest
  have "unat x < 2 ^ (8 * n)" using unat_bound [of x] assms by simp
  then show "dec_int n (le_bytes n x @ rest) = Some (x, rest)"
    by (simp add: dec_int_def le_val_le_bytes)
next
  fix x :: "'a word" and bs rest
  assume "dec_int n bs = Some (x, rest)"
  then have "x = of_nat (le_val (take n bs))" "rest = drop n bs" "length (take n bs) = n"
    by (auto simp: dec_int_def split: if_splits)
  then show "True \<and> bs = le_bytes n x @ rest" using le_bytes_le_val [of "take n bs" n, where 'a = 'a] assms by simp
qed

lemma codec_vec:
  assumes "codec enc dec ok" and "maximum \<le> U32_MAX"
  shows "codec (enc_vec enc) (dec_vec maximum dec) (ok_vec maximum ok)"
proof -
  have u32: "codec u32_le dec_u32 (\<lambda>_. True)" by (rule codec_int) simp
  have len: "unat (of_nat k :: u32) = k" if "k \<le> maximum" for k
    using that assms(2) by (simp add: unat_of_nat U32_MAX_def)
  show ?thesis
  proof
    fix xs and rest
    assume ok: "ok_vec maximum ok xs"
    then show "dec_vec maximum dec (enc_vec enc xs @ rest) = Some (xs, rest)"
      using codec.dec_enc [OF u32] codec.dec_seq_enc [OF assms(1)] len [of "length xs"]
      by (simp add: dec_vec_def enc_vec_def ok_vec_def)
  next
    fix bs xs rest
    assume "dec_vec maximum dec bs = Some (xs, rest)"
    then obtain n bs' where n: "dec_u32 bs = Some (n, bs')" "unat n \<le> maximum" "dec_seq dec (unat n) bs' = Some (xs, rest)"
      by (auto simp: dec_vec_def bind_eq_Some_conv split: if_splits)
    have "bs = u32_le n @ bs'" using codec.enc_dec [OF u32 n(1)] by simp
    then show "ok_vec maximum ok xs \<and> bs = enc_vec enc xs @ rest"
      using codec.enc_seq_dec [OF assms(1) n(3)] n(2) by (auto simp: enc_vec_def ok_vec_def)
  qed
qed

lemma codec_option:
  assumes "codec enc dec ok"
  shows "codec (enc_option enc) (dec_option dec) (pred_option ok)"
proof
  fix x rest
  assume "pred_option ok x"
  then show "dec_option dec (enc_option enc x @ rest) = Some (x, rest)"
    by (cases x) (simp_all add: dec_option_def codec.dec_enc [OF assms])
next
  fix bs x rest
  assume d: "dec_option dec bs = Some (x, rest)"
  then show "pred_option ok x \<and> bs = enc_option enc x @ rest"
    by (cases bs) (auto simp: dec_option_def bind_eq_Some_conv split: if_splits dest: codec.enc_dec [OF assms])
qed

lemma codec_limited:
  assumes "codec enc dec ok"
  shows "codec enc (dec_limited limit dec) (\<lambda>x. ok x \<and> length (enc x) \<le> limit)"
proof
  fix x rest
  assume "ok x \<and> length (enc x) \<le> limit"
  then show "dec_limited limit dec (enc x @ rest) = Some (x, rest)"
    by (simp add: dec_limited_def codec.dec_enc [OF assms])
next
  fix bs x rest
  assume "dec_limited limit dec bs = Some (x, rest)"
  then obtain r where "dec (take limit bs) = Some (x, r)" "rest = r @ drop limit bs"
    by (auto simp: dec_limited_def bind_eq_Some_conv)
  moreover from this(1) have "ok x" "take limit bs = enc x @ r" using codec.enc_dec [OF assms] by blast+
  ultimately show "(ok x \<and> length (enc x) \<le> limit) \<and> bs = enc x @ rest"
    by (metis append.assoc append_take_drop_id length_append length_take le_add1 le_trans min.cobounded2)
qed

interpretation u8c: codec enc_u8 dec_u8 "\<lambda>_. True"
proof
  show "dec_u8 bs = Some (x, rest) \<Longrightarrow> True \<and> bs = enc_u8 x @ rest" for bs x rest
    by (cases bs) (simp_all add: enc_u8_def)
qed (simp add: enc_u8_def)

interpretation u32c: codec u32_le dec_u32 "\<lambda>_. True"
  by (rule codec_int) simp

interpretation u64c: codec u64_le dec_u64 "\<lambda>_. True"
  by (rule codec_int) simp

interpretation u128c: codec u128_le dec_u128 "\<lambda>_. True"
  by (rule codec_int) simp

interpretation arrayc: codec enc_array "dec_array n" "\<lambda>bs. length bs = n" for n
  by standard (auto simp: enc_array_def dec_array_def split: if_splits)

lemmas basic_dec_enc [codec_enc] =
  u8c.dec_enc [OF TrueI] u32c.dec_enc [OF TrueI] u64c.dec_enc [OF TrueI] u128c.dec_enc [OF TrueI] arrayc.dec_enc

lemmas basic_enc_dec [codec_dec] =
  u8c.enc_dec u32c.enc_dec u64c.enc_dec u128c.enc_dec arrayc.enc_dec


subsection \<open>Structures\<close>

text \<open>
  A structure is the tuple of its fields behind a conversion; a decoder may check what it read.
\<close>

definition enc_pair :: "('a \<Rightarrow> bytes) \<Rightarrow> ('b \<Rightarrow> bytes) \<Rightarrow> 'a \<times> 'b \<Rightarrow> bytes" where
  "enc_pair enc1 enc2 p = enc1 (fst p) @ enc2 (snd p)"

definition dec_pair :: "'a decoder \<Rightarrow> 'b decoder \<Rightarrow> ('a \<times> 'b) decoder" where
  "dec_pair dec1 dec2 bs =
     Option.bind (dec1 bs) (\<lambda>(x, bs). Option.bind (dec2 bs) (\<lambda>(y, bs). Some ((x, y), bs)))"

definition dec_map :: "('a \<Rightarrow> 'b) \<Rightarrow> 'a decoder \<Rightarrow> 'b decoder" where
  "dec_map f dec bs = Option.bind (dec bs) (\<lambda>(x, bs). Some (f x, bs))"

definition dec_check :: "('a \<Rightarrow> bool) \<Rightarrow> 'a decoder \<Rightarrow> 'a decoder" where
  "dec_check P dec bs = Option.bind (dec bs) (\<lambda>(x, bs). if P x then Some (x, bs) else None)"

definition dec_tag :: "(u8 \<Rightarrow> 'a decoder option) \<Rightarrow> 'a decoder" where
  "dec_tag variant bs =
     Option.bind (dec_u8 bs) (\<lambda>(t, bs). Option.bind (variant t) (\<lambda>dec. dec bs))"

lemma codec_pair:
  assumes "codec enc1 dec1 ok1" and "codec enc2 dec2 ok2"
  shows "codec (enc_pair enc1 enc2) (dec_pair dec1 dec2) (\<lambda>p. ok1 (fst p) \<and> ok2 (snd p))"
proof
  fix p rest
  assume "ok1 (fst p) \<and> ok2 (snd p)"
  then show "dec_pair dec1 dec2 (enc_pair enc1 enc2 p @ rest) = Some (p, rest)"
    by (simp add: dec_pair_def enc_pair_def codec.dec_enc [OF assms(1)] codec.dec_enc [OF assms(2)])
next
  fix bs p rest
  assume "dec_pair dec1 dec2 bs = Some (p, rest)"
  then obtain x y bs' where "dec1 bs = Some (x, bs')" "dec2 bs' = Some (y, rest)" "p = (x, y)"
    by (auto simp: dec_pair_def bind_eq_Some_conv)
  then show "(ok1 (fst p) \<and> ok2 (snd p)) \<and> bs = enc_pair enc1 enc2 p @ rest"
    using codec.enc_dec [OF assms(1)] codec.enc_dec [OF assms(2)] by (fastforce simp: enc_pair_def)
qed

lemma codec_struct:
  assumes "codec enc dec ok" and "\<And>x. f (g x) = x" and "\<And>y. g (f y) = y"
    and "\<And>x. enc' x = enc (g x)" and "\<And>x. ok' x = ok (g x)"
  shows "codec enc' (dec_map f dec) ok'"
proof
  show "ok' x \<Longrightarrow> dec_map f dec (enc' x @ rest) = Some (x, rest)" for x rest
    by (simp add: dec_map_def assms(2,4,5) codec.dec_enc [OF assms(1)])
  show "dec_map f dec bs = Some (x, rest) \<Longrightarrow> ok' x \<and> bs = enc' x @ rest" for bs x rest
    by (auto simp: dec_map_def bind_eq_Some_conv assms(3,4,5) dest: codec.enc_dec [OF assms(1)])
qed

lemma codec_check:
  assumes "codec enc dec ok"
  shows "codec enc (dec_check P dec) (\<lambda>x. ok x \<and> P x)"
proof
  show "ok x \<and> P x \<Longrightarrow> dec_check P dec (enc x @ rest) = Some (x, rest)" for x rest
    by (simp add: dec_check_def codec.dec_enc [OF assms])
  show "dec_check P dec bs = Some (x, rest) \<Longrightarrow> (ok x \<and> P x) \<and> bs = enc x @ rest" for bs x rest
    by (auto simp: dec_check_def bind_eq_Some_conv split: if_splits dest: codec.enc_dec [OF assms])
qed

text \<open>An enum is a tag followed by the fields of its variant.\<close>

lemma codec_tag:
  assumes variants: "\<And>x. ok x \<Longrightarrow> \<exists>dec. variant (t x) = Some dec \<and> (\<forall>rest. dec (payload x @ rest) = Some (x, rest))"
    and canonical: "\<And>v dec bs x rest. variant v = Some dec \<Longrightarrow> dec bs = Some (x, rest) \<Longrightarrow>
      ok x \<and> v = t x \<and> bs = payload x @ rest"
    and enc: "\<And>x. enc x = t x # payload x"
  shows "codec enc (dec_tag variant) ok"
proof
  fix x rest
  assume "ok x"
  then show "dec_tag variant (enc x @ rest) = Some (x, rest)"
    using variants [of x] by (auto simp: dec_tag_def enc)
next
  fix bs x rest
  assume "dec_tag variant bs = Some (x, rest)"
  then show "ok x \<and> bs = enc x @ rest"
    by (cases bs) (auto simp: dec_tag_def bind_eq_Some_conv enc dest: canonical)
qed

subsection \<open>Text\<close>

text \<open>A \<open>String\<close> is a byte sequence that is valid UTF-8; decoding checks it.\<close>

definition utf8_tail :: "u8 \<Rightarrow> bool" where "utf8_tail b = (0x80 \<le> b \<and> b \<le> 0xbf)"

fun utf8_valid :: "bytes \<Rightarrow> bool" where
  "utf8_valid [] = True"
| "utf8_valid (a # rest) =
     (if a \<le> 0x7f then utf8_valid rest
      else if 0xc2 \<le> a \<and> a \<le> 0xdf then
        (case rest of b # rest \<Rightarrow> utf8_tail b \<and> utf8_valid rest | _ \<Rightarrow> False)
      else if 0xe0 \<le> a \<and> a \<le> 0xef then
        (case rest of
           b # c # rest \<Rightarrow>
             (if a = 0xe0 then 0xa0 \<le> b \<and> b \<le> 0xbf
              else if a = 0xed then 0x80 \<le> b \<and> b \<le> 0x9f else utf8_tail b) \<and>
             utf8_tail c \<and> utf8_valid rest
         | _ \<Rightarrow> False)
      else if 0xf0 \<le> a \<and> a \<le> 0xf4 then
        (case rest of
           b # c # d # rest \<Rightarrow>
             (if a = 0xf0 then 0x90 \<le> b \<and> b \<le> 0xbf
              else if a = 0xf4 then 0x80 \<le> b \<and> b \<le> 0x8f else utf8_tail b) \<and>
             utf8_tail c \<and> utf8_tail d \<and> utf8_valid rest
         | _ \<Rightarrow> False)
      else False)"

definition enc_bytes :: "bytes \<Rightarrow> bytes" where "enc_bytes = enc_vec enc_u8"
definition dec_bytes :: "nat \<Rightarrow> bytes decoder" where "dec_bytes maximum = dec_vec maximum dec_u8"

definition dec_string :: "bytes decoder" where "dec_string = dec_check utf8_valid (dec_bytes U32_MAX)"

interpretation bytesc: codec enc_bytes "dec_bytes U32_MAX" "\<lambda>bs. length bs \<le> U32_MAX"
proof -
  have "ok_vec U32_MAX (\<lambda>_. True) = (\<lambda>bs :: bytes. length bs \<le> U32_MAX)"
    by (auto simp: ok_vec_def list_all_iff)
  then show "codec enc_bytes (dec_bytes U32_MAX) (\<lambda>bs. length bs \<le> U32_MAX)"
    using codec_vec [OF u8c.codec_axioms order_refl] by (simp add: enc_bytes_def dec_bytes_def)
qed

interpretation stringc: codec enc_bytes dec_string "\<lambda>bs. length bs \<le> U32_MAX \<and> utf8_valid bs"
  unfolding dec_string_def by (rule codec_check) (rule bytesc.codec_axioms)

lemma length_enc_bytes: "length (enc_bytes bs) = 4 + length bs"
  by (induction bs) (simp_all add: enc_bytes_def enc_vec_def enc_seq_def enc_u8_def)


subsection \<open>Booleans\<close>

definition enc_bool :: "bool \<Rightarrow> bytes" where "enc_bool b = enc_u8 (if b then 1 else 0)"

definition dec_bool :: "bool decoder" where
  "dec_bool bs = Option.bind (dec_u8 bs) (\<lambda>(b, bs).
     if b = 0 then Some (False, bs) else if b = 1 then Some (True, bs) else None)"

interpretation boolc: codec enc_bool dec_bool "\<lambda>_. True"
proof
  show "dec_bool (enc_bool x @ rest) = Some (x, rest)" for x rest
    by (simp add: dec_bool_def enc_bool_def enc_u8_def)
  show "dec_bool bs = Some (x, rest) \<Longrightarrow> True \<and> bs = enc_bool x @ rest" for bs x rest
    by (cases bs) (auto simp: dec_bool_def enc_bool_def enc_u8_def split: if_splits)
qed

end
