(* ===== verification/Hashing.thy ===== *)
theory Hashing
  imports Wire "HOL-Library.Sublist"
begin

unbundle bit_operations_syntax

section \<open>Domain-separated hashes (\<^verbatim>\<open>crypto/src/hash.rs\<close>, \<^verbatim>\<open>crypto/src/program_id.rs\<close>)\<close>

text \<open>
  Every identifier of the chain is a SHA3-256 digest of a framed message: the tag of its domain, the
  length of the payload as a little-endian \<open>u64\<close>, the payload. The digest function itself is the
  parameter \<open>sha3\<close> of each definition; the lemmas on identifiers speak about the framed messages.
  The hexadecimal text form of a hash is here too.
\<close>

type_synonym hash = bytes
type_synonym program_id = bytes

definition HASH_SIZE :: nat where "HASH_SIZE = 32"

definition ascii :: "string \<Rightarrow> bytes" where "ascii s = map of_char s"

datatype hash_domain = Transaction | Operation | CoinTransition | AssetIntent | Header | ChainSpec
  | MerkleNode | AccountState | XPARQArtifact | ProtocolState | PoWSeed | PoWSalt | ProgramAccount
  | Asset | Share | Output | Emission | CompactBlockKey | Raw

fun tag_string :: "hash_domain \<Rightarrow> string" where
  "tag_string Transaction = ''XPARQ_HASH_TX''"
| "tag_string Operation = ''XPARQ_HASH_OPERATION''"
| "tag_string CoinTransition = ''XPARQ_COIN_TRANSITION''"
| "tag_string AssetIntent = ''XPARQ_ASSET_INTENT''"
| "tag_string Header = ''XPARQ_HASH_BLOCK_HEADER''"
| "tag_string ChainSpec = ''XPARQ_HASH_CHAIN_SPEC''"
| "tag_string MerkleNode = ''XPARQ_HASH_MERKLE_NODE''"
| "tag_string AccountState = ''XPARQ_HASH_ACCOUNT_STATE''"
| "tag_string XPARQArtifact = ''XPARQ_HASH_ARTIFACT''"
| "tag_string ProtocolState = ''XPARQ_HASH_PROTOCOL_STATE''"
| "tag_string PoWSeed = ''XPARQ_POW_SEED''"
| "tag_string PoWSalt = ''XPARQ_POW_SALT''"
| "tag_string ProgramAccount = ''XPARQ_HASH_PROGRAM_ACCOUNT''"
| "tag_string Asset = ''XPARQ_ASSET''"
| "tag_string Share = ''XPARQ_ASSET_SHARE''"
| "tag_string Output = ''XPARQ_COIN_OUTPUT''"
| "tag_string Emission = ''XPARQ_COIN_EMISSION''"
| "tag_string CompactBlockKey = ''XPARQ_COMPACT_BLOCK_KEY''"
| "tag_string Raw = ''XPARQ_HASH_RAW''"

definition tag :: "hash_domain \<Rightarrow> bytes" where "tag d = ascii (tag_string d)"

definition frame :: "hash_domain \<Rightarrow> bytes \<Rightarrow> bytes" where
  "frame d bs = tag d @ u64_le (of_nat (length bs)) @ bs"

definition domain :: "(bytes \<Rightarrow> hash) \<Rightarrow> hash_domain \<Rightarrow> bytes \<Rightarrow> hash" where
  "domain sha3 d bs = sha3 (frame d bs)"

definition hash_bytes :: "(bytes \<Rightarrow> hash) \<Rightarrow> bytes \<Rightarrow> hash" where
  "hash_bytes sha3 bs = domain sha3 Raw bs"

text \<open>
  Hashing a value while it is serialized: each chunk the serializer writes lowers the number of
  bytes still declared, and the digest is refused when the stream is longer or shorter than the
  declared length (\<open>domain_serialized\<close>).
\<close>

fun hash_writer :: "bytes \<Rightarrow> u64 \<Rightarrow> bytes list \<Rightarrow> (bytes \<times> u64, codec_error) result" where
  "hash_writer absorbed remaining [] = Ok (absorbed, remaining)"
| "hash_writer absorbed remaining (chunk # chunks) =
     rbind (ok_or (Option.bind (try_from_nat (length chunk)) (checked_sub remaining)) EncodeFailed) (\<lambda>remaining.
       hash_writer (absorbed @ chunk) remaining chunks)"

definition domain_serialized ::
    "(bytes \<Rightarrow> hash) \<Rightarrow> hash_domain \<Rightarrow> u64 \<Rightarrow> bytes list \<Rightarrow> (hash, codec_error) result" where
  "domain_serialized sha3 d encoded_len chunks =
     rbind (hash_writer (tag d @ u64_le encoded_len) encoded_len chunks) (\<lambda>(absorbed, remaining).
       if remaining \<noteq> 0 then Err EncodeFailed else Ok (sha3 absorbed))"

subsection \<open>Hexadecimal text\<close>

definition hex_digit :: "nat \<Rightarrow> char" where
  "hex_digit n = (if n < 10 then char_of (48 + n) else char_of (87 + n))"

definition hash_format :: "string \<Rightarrow> hash \<Rightarrow> string" where
  "hash_format pre h =
     pre @ concat (map (\<lambda>b. [hex_digit (unat b div 16), hex_digit (unat b mod 16)]) h)"

definition hex_nibble :: "char \<Rightarrow> u8 option" where
  "hex_nibble c =
     (let n = of_char c :: nat
      in if 48 \<le> n \<and> n \<le> 57 then Some (of_nat n - 48)
         else if 97 \<le> n \<and> n \<le> 102 then Some (of_nat n - 97 + 10)
         else if 65 \<le> n \<and> n \<le> 70 then Some (of_nat n - 65 + 10)
         else None)"

fun parse_hex :: "string \<Rightarrow> bytes option" where
  "parse_hex (h # l # cs) =
     Option.bind (hex_nibble h) (\<lambda>high. Option.bind (hex_nibble l) (\<lambda>low.
     Option.bind (parse_hex cs) (\<lambda>bs. Some ((push_bit 4 high OR low) # bs))))"
| "parse_hex [c] = None"
| "parse_hex [] = Some []"

datatype hash_parse_error = HashParseError

definition hash_parse :: "string \<Rightarrow> string \<Rightarrow> (hash, hash_parse_error) result" where
  "hash_parse pre text =
     (if take (length pre) text \<noteq> pre then Err HashParseError
      else let encoded = drop (length pre) text
           in if length encoded \<noteq> HASH_SIZE * 2 then Err HashParseError
              else ok_or (parse_hex encoded) HashParseError)"


subsection \<open>Frames of different domains never coincide\<close>

definition all_domains :: "hash_domain list" where
  "all_domains = [Transaction, Operation, CoinTransition, AssetIntent, Header, ChainSpec, MerkleNode,
     AccountState, XPARQArtifact, ProtocolState, PoWSeed, PoWSalt, ProgramAccount, Asset, Share, Output,
     Emission, CompactBlockKey, Raw]"

lemma all_domains_complete: "d \<in> set all_domains"
  by (cases d) (simp_all add: all_domains_def)

text \<open>One tag is a prefix of another only for assets; the next six characters are then known.\<close>

definition tags_separated :: bool where
  "tags_separated = list_all (\<lambda>d. list_all (\<lambda>e.
      prefix (tag_string d) (tag_string e) \<longrightarrow> d = e \<or>
        (length (tag_string d) = 11 \<and> length (tag_string e) \<ge> 17 \<and> tag_string e ! 16 \<noteq> CHR 0x00))
      all_domains) all_domains"

lemma tags_separated: "tags_separated"
  by code_simp

lemma unat_of_char: "unat (of_char c :: u8) = of_char c"
proof -
  have "of_char c < (256 :: nat)" by (rule nat_of_char_less_256)
  then have "of_char c mod 2 ^ LENGTH(8) = (of_char c :: nat)" by simp
  then show ?thesis by (subst of_nat_of_char [symmetric]) (simp only: unat_of_nat)
qed

lemma of_char_inj: "inj (of_char :: char \<Rightarrow> u8)"
  by (rule injI) (metis unat_of_char of_char_eq_iff)

lemma nth_le_bytes: "i < n \<Longrightarrow> le_bytes n w ! i = ucast (drop_bit (8 * i) w)"
proof (induction n arbitrary: i w)
  case (Suc n)
  then show ?case by (cases i) (simp_all add: drop_bit_drop_bit add.commute)
qed simp

lemma prefix_tag_cases:
  assumes "prefix (tag d) (tag e)"
  shows "d = e \<or> (length (tag d) = 11 \<and> 17 \<le> length (tag e) \<and> tag e ! 16 \<noteq> 0)"
proof -
  obtain zs where "map of_char (tag_string e) = map (of_char :: char \<Rightarrow> u8) (tag_string d) @ zs"
    using assms by (auto simp: tag_def ascii_def prefix_def)
  then have "map of_char (take (length (tag_string d)) (tag_string e)) = map (of_char :: char \<Rightarrow> u8) (tag_string d)"
    by (metis append_eq_conv_conj length_map take_map)
  then have "take (length (tag_string d)) (tag_string e) = tag_string d"
    by (rule map_injective [OF _ of_char_inj])
  then have "prefix (tag_string d) (tag_string e)" by (metis take_is_prefix)
  then have cases: "d = e \<or> (length (tag_string d) = 11 \<and> length (tag_string e) \<ge> 17 \<and> tag_string e ! 16 \<noteq> CHR 0x00)"
    using tags_separated all_domains_complete [of d] all_domains_complete [of e]
    by (simp add: tags_separated_def list_all_iff)
  have "of_char c = (0 :: u8) \<Longrightarrow> c = CHR 0x00" for c
    using injD [OF of_char_inj, of c "CHR 0x00"] by simp
  then show ?thesis using cases by (auto simp: tag_def ascii_def)
qed


lemma frame_disjoint_tags:
  assumes "frame d a = frame e b" and "length a < 2 ^ 40" and "prefix (tag d) (tag e)"
  shows "d = e"
proof (rule ccontr)
  assume "d \<noteq> e"
  with prefix_tag_cases [OF assms(3)] have t: "length (tag d) = 11" "17 \<le> length (tag e)" "tag e ! 16 \<noteq> 0" by auto
  have w: "unat (of_nat (length a) :: u64) = length a" using assms(2) by (simp add: unat_of_nat)
  have "frame d a ! 16 = le_bytes 8 (of_nat (length a) :: u64) ! 5"
    using t(1) by (simp add: frame_def nth_append)
  also have "\<dots> = ucast (drop_bit 40 (of_nat (length a) :: u64))" by (simp add: nth_le_bytes)
  also have "\<dots> = 0"
  proof -
    have "unat (drop_bit 40 (of_nat (length a) :: u64)) = 0" unfolding unat_drop_bit w using assms(2) by simp
    then have "drop_bit 40 (of_nat (length a) :: u64) = 0" by (simp only: unat_eq_zero)
    then show ?thesis by simp
  qed
  finally show False using t(2,3) unfolding assms(1) by (simp add: frame_def nth_append)
qed

lemma frame_inj:
  assumes "frame d a = frame e b" and "length a < 2 ^ 40" and "length b < 2 ^ 40"
  shows "d = e \<and> a = b"
proof -
  have "prefix (tag d) (tag e) \<or> prefix (tag e) (tag d)"
    using assms(1) unfolding frame_def by (metis prefixI prefix_same_cases)
  then have "d = e"
    using frame_disjoint_tags [OF assms(1,2)] frame_disjoint_tags [OF assms(1) [symmetric] assms(3)] by blast
  moreover from this have "u64_le (of_nat (length a)) @ a = u64_le (of_nat (length b)) @ b"
    using assms(1) by (simp add: frame_def)
  then have "a = b" by (auto dest: append_eq_append_conv [THEN iffD1, rotated])
  ultimately show ?thesis by simp
qed

text \<open>Equal identifiers of different payloads exhibit two messages on which SHA3-256 collides.\<close>

definition collides :: "('a \<Rightarrow> 'b) \<Rightarrow> 'a \<Rightarrow> 'a \<Rightarrow> bool" where
  "collides f x y = (x \<noteq> y \<and> f x = f y)"

lemma domain_binding:
  assumes "domain sha3 d a = domain sha3 e b" and "length a < 2 ^ 40" and "length b < 2 ^ 40"
  shows "(d = e \<and> a = b) \<or> collides sha3 (frame d a) (frame e b)"
  using frame_inj [OF _ assms(2,3)] assms(1) by (fastforce simp: collides_def domain_def)

subsection \<open>Streaming and text form\<close>

lemma hash_writer_correct:
  "hash_writer absorbed remaining chunks =
     (if length (concat chunks) \<le> unat remaining
      then Ok (absorbed @ concat chunks, remaining - of_nat (length (concat chunks))) else Err EncodeFailed)"
proof (induction chunks arbitrary: absorbed remaining)
  case (Cons c cs)
  show ?case
  proof (cases "length c \<le> unat remaining")
    case True
    then have "length c < 2 ^ 64" using unat_bound_le [of 64 remaining] by simp
    then have c: "try_from_nat (length c) = Some (of_nat (length c) :: u64)" "unat (of_nat (length c) :: u64) = length c"
      by (simp_all add: try_from_nat_def unat_of_nat)
    then have "checked_sub remaining (of_nat (length c)) = Some (remaining - of_nat (length c))"
      "unat (remaining - of_nat (length c)) = unat remaining - length c"
      using True by (simp_all add: checked_sub_def word_le_nat_alt unat_sub)
    then show ?thesis using c True Cons.IH by (auto simp: ok_or_def)
  next
    case False
    have "Option.bind (try_from_nat (length c)) (checked_sub remaining) = None"
    proof (cases "length c < 2 ^ 64")
      case True
      then have "unat (of_nat (length c) :: u64) = length c" by (simp add: unat_of_nat)
      then show ?thesis using True False by (simp add: try_from_nat_def checked_sub_def word_le_nat_alt)
    qed (simp add: try_from_nat_def)
    then show ?thesis using False by (simp add: ok_or_def)
  qed
qed simp

lemma hex_nibble_digit: "n < 16 \<Longrightarrow> hex_nibble (hex_digit n) = Some (of_nat n)"
proof -
  assume n: "n < 16"
  then have "of_char (hex_digit n) = (if n < 10 then 48 + n else 87 + n)" by (simp add: hex_digit_def)
  with n show ?thesis by (auto simp: hex_nibble_def Let_def)
qed

lemma join_nibbles: "push_bit 4 (of_nat (unat b div 16)) OR of_nat (unat b mod 16) = (b :: u8)"
proof -
  have b: "unat b div 16 < 16" using unat_bound_le [of 8 b] by (simp add: less_mult_imp_div_less)
  have "unat (of_nat (unat b mod 16) :: u8) < 2 ^ 4" by (simp add: unat_of_nat)
  then have "push_bit 4 (of_nat (unat b div 16)) AND (of_nat (unat b mod 16) :: u8) = 0" by (rule push_bit_and_small)
  then have "unat (push_bit 4 (of_nat (unat b div 16)) OR of_nat (unat b mod 16) :: u8) = unat b div 16 * 16 + unat b mod 16"
    using b by (simp add: unat_or_disjoint unat_push_bit unat_of_nat)
  then show ?thesis by (simp add: word_unat_eq_iff)
qed

lemma parse_hex_format:
  "parse_hex (concat (map (\<lambda>b. [hex_digit (unat b div 16), hex_digit (unat b mod 16)]) h)) = Some h"
proof (induction h)
  case (Cons b h)
  have "unat b div 16 < 16" using unat_bound_le [of 8 b] by (simp add: less_mult_imp_div_less)
  then show ?case using Cons by (simp add: hex_nibble_digit join_nibbles)
qed simp


subsection \<open>Properties\<close>

text \<open>Domain separation: equal identifiers of the chain belong to the same domain and commit to the
  same payload, or else their two framed messages are a collision of the hash function, for payloads
  below one tebibyte. One tag is a prefix of another (assets); the length field keeps them apart.\<close>

theorem domain_separation:
  assumes "domain sha3 d a = domain sha3 e b" and "length a < 2 ^ 40" and "length b < 2 ^ 40"
  shows "(d = e \<and> a = b) \<or> collides sha3 (frame d a) (frame e b)"
  using assms by (rule domain_binding)

theorem domain_separation_witness:
  "domain (take 4) Asset [1, 2] = domain (take 4) Share [1, 2] \<and>
   collides (take 4) (frame Asset [1, 2]) (frame Share [1, 2])"
proof -
  have eq: "domain (take 4) Asset [1, 2] = domain (take 4) Share [1, 2]"
    by (simp add: domain_def frame_def tag_def ascii_def)
  have "length [1 :: u8, 2] < 2 ^ 40" by simp
  from domain_separation [OF eq this this] eq show ?thesis by simp
qed

text \<open>Hashing a value while it is serialized gives the digest of its buffered encoding exactly
  when the declared length is the length of the stream, and an error otherwise, however the
  serializer cuts the stream into chunks.\<close>

theorem domain_serialized_exact:
  "domain_serialized sha3 d encoded_len chunks =
     (if length (concat chunks) = unat encoded_len then Ok (domain sha3 d (concat chunks)) else Err EncodeFailed)"
proof -
  let ?n = "length (concat chunks)"
  have "encoded_len - of_nat ?n = 0 \<longleftrightarrow> ?n = unat encoded_len" if "?n \<le> unat encoded_len"
  proof -
    have u: "unat (of_nat ?n :: u64) = ?n"
      using that unat_bound [of encoded_len] by (simp add: unat_of_nat del: unsigned_less)
    have "encoded_len - of_nat ?n = 0 \<longleftrightarrow> encoded_len = of_nat ?n" by simp
    then show ?thesis using u by (metis word_unat_eq_iff)
  qed
  moreover have "?n = unat encoded_len \<Longrightarrow> of_nat ?n = encoded_len" by simp
  ultimately show ?thesis
    by (auto simp: domain_serialized_def hash_writer_correct domain_def frame_def)
qed

text \<open>The text form of a hash parses back to it: formatting any 32-byte hash with a prefix and
  parsing the result with the same prefix gives the hash.\<close>

theorem hash_text_roundtrip:
  assumes "length h = 32"
  shows "hash_parse pre (hash_format pre h) = Ok h"
proof -
  have "length (concat (map (\<lambda>b. [hex_digit (unat b div 16), hex_digit (unat b mod 16)]) h)) = 2 * length h" for h :: bytes
    by (induction h) auto
  then show ?thesis using assms by (simp add: hash_parse_def hash_format_def parse_hex_format HASH_SIZE_def ok_or_def)
qed

theorem hash_text_roundtrip_witness: "hash_parse ''0x'' (hash_format ''0x'' (replicate 32 0xab)) = Ok (replicate 32 0xab)"
  by (rule hash_text_roundtrip) simp

end
