(* ===== verification/Monetary.thy ===== *)
theory Monetary
  imports Hashing
begin

section \<open>Owners, coin shares and assets\<close>

text \<open>
  The value types of \<^verbatim>\<open>kernel/src/common.rs\<close>, \<^verbatim>\<open>kernel/src/monetary/coin.rs\<close> and
  \<^verbatim>\<open>kernel/src/monetary/asset.rs\<close>: who owns value, what a coin or an asset share is, how the
  identifiers of shares and assets are derived, and the checks on asset metadata, amounts and
  inputs. The newtypes \<open>Zeno\<close> and \<open>Unit\<close> are the machine integers they wrap; identifiers are
  byte strings of 32 bytes. Each wire type has its instance of the interface \<open>codec\<close>. The lemmas
  show that identifiers commit to what they are derived from.
\<close>

subsection \<open>Common types\<close>

type_synonym height = u64
type_synonym nonce = u64
type_synonym zeno = u64
type_synonym units = u128

datatype recipient = Program program_id | BlockMiner

datatype owner = Program program_id

fun owner_program :: "owner \<Rightarrow> program_id" where
  "owner_program (owner.Program identity) = identity"

fun resolve :: "recipient \<Rightarrow> program_id \<Rightarrow> owner" where
  "resolve (recipient.Program p) block_miner = owner.Program p"
| "resolve BlockMiner block_miner = owner.Program block_miner"

text \<open>The order Rust derives for the one variant: that of the program identities.\<close>

definition owner_le :: "owner \<Rightarrow> owner \<Rightarrow> bool" where
  "owner_le a b = (owner_program a \<le> owner_program b)"

instantiation owner :: linorder
begin

definition less_eq_owner :: "owner \<Rightarrow> owner \<Rightarrow> bool" where
  "less_eq_owner = owner_le"

definition less_owner :: "owner \<Rightarrow> owner \<Rightarrow> bool" where
  "less_owner a b = (owner_le a b \<and> \<not> owner_le b a)"

instance
proof
  fix x y z :: owner
  show "x < y \<longleftrightarrow> x \<le> y \<and> \<not> y \<le> x" by (simp add: less_eq_owner_def less_owner_def)
  show "x \<le> x" by (simp add: less_eq_owner_def owner_le_def)
  show "x \<le> y \<Longrightarrow> y \<le> z \<Longrightarrow> x \<le> z" by (simp add: less_eq_owner_def owner_le_def)
  show "x \<le> y \<Longrightarrow> y \<le> x \<Longrightarrow> x = y" by (cases x; cases y) (simp add: less_eq_owner_def owner_le_def)
  show "x \<le> y \<or> y \<le> x" by (simp add: less_eq_owner_def owner_le_def linear)
qed

end

definition enc_owner :: "owner \<Rightarrow> bytes" where
  "enc_owner x = 0 # enc_array (owner_program x)"

definition dec_owner :: "owner decoder" where
  "dec_owner = dec_tag (\<lambda>t. if t = 0 then Some (dec_map owner.Program (dec_array HASH_SIZE)) else None)"

definition ok_owner :: "owner \<Rightarrow> bool" where "ok_owner x = (length (owner_program x) = HASH_SIZE)"

interpretation ownerc: codec enc_owner dec_owner ok_owner
  unfolding dec_owner_def
proof (rule codec_tag [where t = "\<lambda>_. 0" and payload = "\<lambda>x. enc_array (owner_program x)"])
  fix x :: owner
  assume "ok_owner x"
  then show "\<exists>dec. (if (0 :: u8) = 0 then Some (dec_map owner.Program (dec_array HASH_SIZE)) else None) = Some dec \<and>
      (\<forall>rest. dec (enc_array (owner_program x) @ rest) = Some (x, rest))"
    by (cases x) (simp add: dec_map_def ok_owner_def arrayc.dec_enc)
qed (auto simp: dec_map_def enc_owner_def ok_owner_def bind_eq_Some_conv split: if_splits dest!: arrayc.enc_dec)

subsection \<open>Coins\<close>

definition COIN_CONTRACT :: hash where "COIN_CONTRACT = replicate HASH_SIZE 0"

definition from_emission :: "(bytes \<Rightarrow> hash) \<Rightarrow> hash \<Rightarrow> hash" where
  "from_emission sha3 origin = domain sha3 Emission (COIN_CONTRACT @ origin)"

definition from_output :: "(bytes \<Rightarrow> hash) \<Rightarrow> hash \<Rightarrow> u32 \<Rightarrow> hash" where
  "from_output sha3 commitment index = domain sha3 Output (COIN_CONTRACT @ commitment @ u32_le index)"

subsection \<open>Assets\<close>

definition ASSET_NAME_MAX_LEN :: nat where "ASSET_NAME_MAX_LEN = 64"

datatype asset_error = InvalidAmount | InvalidProgram | AssetAlreadyExists | ShareAlreadyExists
  | UnknownAsset | UnknownObject | AssetMismatch | Unauthorized | InvalidMintNonce
  | SupplyOverflow | BalanceOverflow | Encoding

record metadata =
  md_name :: bytes
  md_max_supply :: units
  md_creator :: owner
  md_mint_authority :: owner

record asset_record =
  ar_metadata :: metadata
  ar_supply :: units
  ar_total_minted :: units
  ar_mint_nonce :: u64
  ar_total_burned :: units

text \<open>
  A name is the bytes of its UTF-8 text. \<open>trim\<close> removes white space at both ends; of the names that
  pass the byte check only those with a space at an end change, and every other name that
  \<open>trim\<close> changes has a byte outside the printable range.
\<close>

definition ascii_graphic :: "u8 \<Rightarrow> bool" where "ascii_graphic b = (0x21 \<le> b \<and> b \<le> 0x7e)"

definition ascii_whitespace :: "u8 \<Rightarrow> bool" where
  "ascii_whitespace b = (b = 0x20 \<or> 0x09 \<le> b \<and> b \<le> 0x0d)"

definition trim :: "bytes \<Rightarrow> bytes" where
  "trim name = rev (dropWhile ascii_whitespace (rev (dropWhile ascii_whitespace name)))"

definition validate_asset_name :: "bytes \<Rightarrow> (unit, asset_error) result" where
  "validate_asset_name name =
     (if name = [] \<or> length name > ASSET_NAME_MAX_LEN \<or> trim name \<noteq> name \<or>
         \<not> list_all (\<lambda>b. b = 0x20 \<or> ascii_graphic b) name
      then Err InvalidProgram else Ok ())"

definition metadata_validate :: "metadata \<Rightarrow> (unit, asset_error) result" where
  "metadata_validate m =
     rbind (validate_asset_name (md_name m)) (\<lambda>_.
       if md_max_supply m = 0 then Err InvalidProgram else Ok ())"

definition metadata_new :: "bytes \<Rightarrow> units \<Rightarrow> owner \<Rightarrow> owner \<Rightarrow> (metadata, asset_error) result" where
  "metadata_new name max_supply creator mint_authority =
     (let m = \<lparr>md_name = name, md_max_supply = max_supply, md_creator = creator, md_mint_authority = mint_authority\<rparr>
      in rbind (metadata_validate m) (\<lambda>_. Ok m))"

definition enc_metadata :: "metadata \<Rightarrow> bytes" where
  "enc_metadata m = enc_bytes (md_name m) @ u128_le (md_max_supply m) @ enc_owner (md_creator m) @
     enc_owner (md_mint_authority m)"

definition dec_metadata :: "metadata decoder" where
  "dec_metadata = dec_map
     (\<lambda>(name, max_supply, creator, mint_authority).
       \<lparr>md_name = name, md_max_supply = max_supply, md_creator = creator, md_mint_authority = mint_authority\<rparr>)
     (dec_pair dec_string (dec_pair dec_u128 (dec_pair dec_owner dec_owner)))"

definition ok_metadata :: "metadata \<Rightarrow> bool" where
  "ok_metadata m = (length (md_name m) \<le> U32_MAX \<and> utf8_valid (md_name m) \<and>
     ok_owner (md_creator m) \<and> ok_owner (md_mint_authority m))"

definition asset_contract_derive :: "(bytes \<Rightarrow> hash) \<Rightarrow> metadata \<Rightarrow> u64 \<Rightarrow> (hash, asset_error) result" where
  "asset_contract_derive sha3 m nonce =
     rbind (map_err (\<lambda>_. Encoding)
              (canonical_bytes (enc_pair enc_metadata u64_le) (\<lambda>p. ok_metadata (fst p)) (m, nonce)))
       (\<lambda>bs. Ok (domain sha3 Asset bs))"

definition share_derive :: "(bytes \<Rightarrow> hash) \<Rightarrow> hash \<Rightarrow> hash \<Rightarrow> u32 \<Rightarrow> hash" where
  "share_derive sha3 asset commitment output_index =
     domain sha3 Share (asset @ commitment @ u32_le output_index)"

record asset_share =
  as_asset :: hash
  as_amount :: units
  as_owner :: owner

record asset_output =
  ao_recipient :: owner
  ao_amount :: units

definition ensure_nonzero_asset_amount :: "units \<Rightarrow> (unit, asset_error) result" where
  "ensure_nonzero_asset_amount a = (if a = 0 then Err InvalidProgram else Ok ())"

fun any_repeated :: "'a set \<Rightarrow> 'a list \<Rightarrow> bool" where
  "any_repeated seen [] = False"
| "any_repeated seen (x # xs) = (x \<in> seen \<or> any_repeated (insert x seen) xs)"

definition ensure_unique_asset_inputs :: "hash list \<Rightarrow> (unit, asset_error) result" where
  "ensure_unique_asset_inputs inputs = (if any_repeated {} inputs then Err InvalidProgram else Ok ())"

definition USIZE_LIMIT :: nat where "USIZE_LIMIT = 2 ^ 64"

definition checked_asset_entry_weight ::
    "u64 \<Rightarrow> nat \<Rightarrow> (bytes, codec_error) result \<Rightarrow> (u64, asset_error) result" where
  "checked_asset_entry_weight current key_len encoded =
     rbind (map_err (\<lambda>_. Encoding) encoded) (\<lambda>bs.
     rbind (if key_len + length bs < USIZE_LIMIT then Ok (key_len + length bs) else Err Encoding) (\<lambda>n.
     rbind (ok_or (try_from_nat n) Encoding) (\<lambda>entry.
     ok_or (checked_add current entry) Encoding)))"

subsection \<open>Wire instances\<close>

interpretation metadatac: codec enc_metadata dec_metadata ok_metadata
  unfolding dec_metadata_def
  by (rule codec_struct [OF codec_pair [OF stringc.codec_axioms codec_pair [OF u128c.codec_axioms
        codec_pair [OF ownerc.codec_axioms ownerc.codec_axioms]]],
        where g = "\<lambda>m. (md_name m, md_max_supply m, md_creator m, md_mint_authority m)"])
    (auto simp: enc_metadata_def enc_pair_def ok_metadata_def)

definition enc_asset_share :: "asset_share \<Rightarrow> bytes" where
  "enc_asset_share s = enc_array (as_asset s) @ u128_le (as_amount s) @ enc_owner (as_owner s)"

definition dec_asset_share :: "asset_share decoder" where
  "dec_asset_share = dec_map (\<lambda>(asset, amount, owner). \<lparr>as_asset = asset, as_amount = amount, as_owner = owner\<rparr>)
     (dec_pair (dec_array HASH_SIZE) (dec_pair dec_u128 dec_owner))"

definition ok_asset_share :: "asset_share \<Rightarrow> bool" where
  "ok_asset_share s = (length (as_asset s) = HASH_SIZE \<and> ok_owner (as_owner s))"

interpretation asset_sharec: codec enc_asset_share dec_asset_share ok_asset_share
  unfolding dec_asset_share_def
  by (rule codec_struct [OF codec_pair [OF arrayc.codec_axioms codec_pair [OF u128c.codec_axioms ownerc.codec_axioms]],
        where g = "\<lambda>s. (as_asset s, as_amount s, as_owner s)"])
    (auto simp: enc_asset_share_def enc_pair_def ok_asset_share_def)

definition enc_asset_output :: "asset_output \<Rightarrow> bytes" where
  "enc_asset_output s = enc_owner (ao_recipient s) @ u128_le (ao_amount s)"

definition dec_asset_output :: "asset_output decoder" where
  "dec_asset_output = dec_map (\<lambda>(recipient, amount). \<lparr>ao_recipient = recipient, ao_amount = amount\<rparr>)
     (dec_pair dec_owner dec_u128)"

definition ok_asset_output :: "asset_output \<Rightarrow> bool" where "ok_asset_output s = ok_owner (ao_recipient s)"

interpretation asset_outputc: codec enc_asset_output dec_asset_output ok_asset_output
  unfolding dec_asset_output_def
  by (rule codec_struct [OF codec_pair [OF ownerc.codec_axioms u128c.codec_axioms],
        where g = "\<lambda>s. (ao_recipient s, ao_amount s)"])
    (auto simp: enc_asset_output_def enc_pair_def ok_asset_output_def)

definition enc_asset_record :: "asset_record \<Rightarrow> bytes" where
  "enc_asset_record r = enc_metadata (ar_metadata r) @ u128_le (ar_supply r) @ u128_le (ar_total_minted r) @
     u64_le (ar_mint_nonce r) @ u128_le (ar_total_burned r)"

definition dec_asset_record :: "asset_record decoder" where
  "dec_asset_record = dec_map
     (\<lambda>(m, supply, minted, nonce, burned). \<lparr>ar_metadata = m, ar_supply = supply, ar_total_minted = minted,
        ar_mint_nonce = nonce, ar_total_burned = burned\<rparr>)
     (dec_pair dec_metadata (dec_pair dec_u128 (dec_pair dec_u128 (dec_pair dec_u64 dec_u128))))"

interpretation asset_recordc: codec enc_asset_record dec_asset_record "\<lambda>r. ok_metadata (ar_metadata r)"
  unfolding dec_asset_record_def
  by (rule codec_struct [OF codec_pair [OF metadatac.codec_axioms codec_pair [OF u128c.codec_axioms
        codec_pair [OF u128c.codec_axioms codec_pair [OF u64c.codec_axioms u128c.codec_axioms]]]],
        where g = "\<lambda>r. (ar_metadata r, ar_supply r, ar_total_minted r, ar_mint_nonce r, ar_total_burned r)"])
    (auto simp: enc_asset_record_def enc_pair_def)


subsection \<open>Checks on names and inputs\<close>

lemma any_repeated_iff: "any_repeated seen xs \<longleftrightarrow> \<not> (distinct xs \<and> set xs \<inter> seen = {})"
  by (induction xs arbitrary: seen) auto

lemma ensure_unique_asset_inputs_Ok [result_simps]:
  "ensure_unique_asset_inputs inputs = Ok u \<longleftrightarrow> distinct inputs"
  by (simp add: ensure_unique_asset_inputs_def any_repeated_iff)

lemma ensure_nonzero_asset_amount_Ok [result_simps]: "ensure_nonzero_asset_amount a = Ok u \<longleftrightarrow> a \<noteq> 0"
  by (simp add: ensure_nonzero_asset_amount_def)

lemma utf8_valid_ascii: "list_all (\<lambda>b. b \<le> 0x7f) bs \<Longrightarrow> utf8_valid bs"
  by (induction bs) auto

lemma validate_asset_name_Ok:
  assumes "validate_asset_name name = Ok u"
  shows "name \<noteq> [] \<and> length name \<le> ASSET_NAME_MAX_LEN \<and> hd name \<noteq> 0x20 \<and> utf8_valid name"
proof -
  from assms have v: "name \<noteq> []" "length name \<le> ASSET_NAME_MAX_LEN" "trim name = name"
      "list_all (\<lambda>b. b = 0x20 \<or> ascii_graphic b) name"
    by (auto simp: validate_asset_name_def not_less split: if_splits)
  have "hd name \<noteq> 0x20"
  proof
    assume "hd name = 0x20"
    then obtain xs where xs: "name = 0x20 # xs" using v(1) by (cases name) auto
    have "length (trim name) \<le> length (dropWhile ascii_whitespace name)"
      unfolding trim_def by (metis length_dropWhile_le length_rev)
    also have "\<dots> \<le> length xs" unfolding xs by (simp add: ascii_whitespace_def length_dropWhile_le)
    finally show False using v(3) xs by simp
  qed
  moreover have "utf8_valid name"
  proof (rule utf8_valid_ascii)
    show "list_all (\<lambda>b. b \<le> 0x7f) name"
      by (rule list.pred_mono_strong [OF v(4)]) (auto simp: ascii_graphic_def intro: order_trans)
  qed
  ultimately show ?thesis using v(1,2) by simp
qed

text \<open>Metadata that passes its checks always encodes, so that its asset identifier exists.\<close>

lemma metadata_validate_encodes:
  assumes "metadata_validate m = Ok u" and "ok_owner (md_creator m)" and "ok_owner (md_mint_authority m)"
  shows "\<exists>a. asset_contract_derive sha3 m nonce = Ok a"
proof -
  have "validate_asset_name (md_name m) = Ok ()" using assms(1) by (auto simp: metadata_validate_def result_simps)
  then have "ok_metadata m"
    using validate_asset_name_Ok assms(2,3) by (fastforce simp: ok_metadata_def ASSET_NAME_MAX_LEN_def U32_MAX_def)
  then show ?thesis by (simp add: asset_contract_derive_def canonical_bytes_def)
qed

subsection \<open>Identifiers commit to their origin\<close>

text \<open>Every way a share identifier comes about.\<close>

datatype share_origin = FromEmission hash | FromOutput hash u32 | FromAsset hash hash u32

fun origin_message :: "share_origin \<Rightarrow> bytes" where
  "origin_message (FromEmission origin) = frame Emission (COIN_CONTRACT @ origin)"
| "origin_message (FromOutput commitment index) = frame Output (COIN_CONTRACT @ commitment @ u32_le index)"
| "origin_message (FromAsset asset commitment index) = frame Share (asset @ commitment @ u32_le index)"

fun share_identifier :: "(bytes \<Rightarrow> hash) \<Rightarrow> share_origin \<Rightarrow> hash" where
  "share_identifier sha3 (FromEmission origin) = from_emission sha3 origin"
| "share_identifier sha3 (FromOutput commitment index) = from_output sha3 commitment index"
| "share_identifier sha3 (FromAsset asset commitment index) = share_derive sha3 asset commitment index"

fun origin_ok :: "share_origin \<Rightarrow> bool" where
  "origin_ok (FromEmission origin) = (length origin = HASH_SIZE)"
| "origin_ok (FromOutput commitment index) = (length commitment = HASH_SIZE)"
| "origin_ok (FromAsset asset commitment index) = (length asset = HASH_SIZE \<and> length commitment = HASH_SIZE)"

lemma share_identifier_message: "share_identifier sha3 x = sha3 (origin_message x)"
  by (cases x) (simp_all add: from_emission_def from_output_def share_derive_def domain_def)

lemma u32_le_inj: "u32_le a = u32_le b \<Longrightarrow> a = b"
  using u32c.enc_inj [where r = "[]" and s = "[]"] by simp

lemma origin_message_inj:
  assumes "origin_ok x" and "origin_ok y" and "origin_message x = origin_message y"
  shows "x = y"
proof -
  have bound: "n \<le> 100 \<Longrightarrow> n < 2 ^ 40" for n :: nat by simp
  have "length COIN_CONTRACT = 32" by (simp add: COIN_CONTRACT_def HASH_SIZE_def)
  then show ?thesis
    using assms
    by (cases x; cases y)
      (auto simp: HASH_SIZE_def simp del: power_numeral dest!: frame_inj [OF _ bound bound] dest: u32_le_inj)
qed

lemma length_enc_owner: "ok_owner x \<Longrightarrow> length (enc_owner x) = 33"
  by (simp add: enc_owner_def ok_owner_def enc_array_def HASH_SIZE_def)

lemma length_enc_metadata: "ok_metadata m \<Longrightarrow> length (enc_metadata m) = length (md_name m) + 86"
  by (simp add: enc_metadata_def ok_metadata_def length_enc_owner length_enc_bytes)

lemma metadata_noncec:
  "codec (enc_pair enc_metadata u64_le) (dec_pair dec_metadata dec_u64) (\<lambda>p. ok_metadata (fst p) \<and> True)"
  by (rule codec_pair [OF metadatac.codec_axioms u64c.codec_axioms])

subsection \<open>Properties\<close>

text \<open>C35. Share identifiers are unforgeable names: two shares with one identifier, whether minted by
  emission, created as outputs of coin transitions or as outputs of asset programs, come from the
  same origin (the same commitment, the same index and the same asset), or their derivation
  messages are a collision of the hash function.\<close>

theorem share_identifier_binding:
  assumes "origin_ok x" and "origin_ok y" and "share_identifier sha3 x = share_identifier sha3 y"
  shows "x = y \<or> collides sha3 (origin_message x) (origin_message y)"
  using assms origin_message_inj by (auto simp: share_identifier_message collides_def)

theorem share_identifier_binding_witness:
  "let x = FromEmission (replicate 32 1); y = FromOutput (replicate 32 1) 0
   in share_identifier (take 8) x = share_identifier (take 8) y \<and> x \<noteq> y \<and>
      collides (take 8) (origin_message x) (origin_message y)"
proof -
  let ?x = "FromEmission (replicate 32 1)" and ?y = "FromOutput (replicate 32 1) 0"
  have "share_identifier (take 8) ?x = share_identifier (take 8) ?y"
    by (simp add: from_emission_def from_output_def domain_def frame_def tag_def ascii_def)
  with share_identifier_binding [of ?x ?y "take 8"] show ?thesis by (simp add: HASH_SIZE_def Let_def)
qed

text \<open>An asset identifier commits to all of the asset's metadata and to the registration nonce: two
  registrations with one identifier agree on name, maximum supply, creator, mint authority and
  nonce, or exhibit a collision of the hash function.\<close>

theorem asset_contract_binding:
  assumes "asset_contract_derive sha3 m n = Ok a" and "asset_contract_derive sha3 m' n' = Ok a"
  shows "(m = m' \<and> n = n') \<or>
    collides sha3 (frame Asset (enc_metadata m @ u64_le n)) (frame Asset (enc_metadata m' @ u64_le n'))"
proof -
  have ok: "ok_metadata m" "ok_metadata m'"
    and eq: "domain sha3 Asset (enc_metadata m @ u64_le n) = domain sha3 Asset (enc_metadata m' @ u64_le n')"
    using assms by (auto simp: asset_contract_derive_def canonical_bytes_def enc_pair_def split: if_splits)
  have len: "length (enc_metadata x @ u64_le k) < 2 ^ 40" if "ok_metadata x" for x k
    using that by (simp add: length_enc_metadata) (simp add: ok_metadata_def U32_MAX_def)
  have "(m, n) = (m', n')" if "enc_metadata m @ u64_le n = enc_metadata m' @ u64_le n'"
    using codec.enc_inj [OF metadata_noncec, of "(m, n)" "(m', n')" "[]" "[]"] ok that by (simp add: enc_pair_def)
  with domain_binding [OF eq len [OF ok(1)] len [OF ok(2)]] show ?thesis by blast
qed

theorem asset_contract_binding_witness:
  "let m = \<lparr>md_name = ascii ''Gold'', md_max_supply = 10, md_creator = owner.Program (replicate 32 1),
            md_mint_authority = owner.Program (replicate 32 2)\<rparr>
   in metadata_validate m = Ok () \<and> asset_contract_derive (take 4) m 0 = asset_contract_derive (take 4) m 1 \<and>
      collides (take 4) (frame Asset (enc_metadata m @ u64_le 0)) (frame Asset (enc_metadata m @ u64_le 1))"
proof -
  let ?m = "\<lparr>md_name = ascii ''Gold'', md_max_supply = 10, md_creator = owner.Program (replicate 32 1),
            md_mint_authority = owner.Program (replicate 32 2)\<rparr>"
  have v: "metadata_validate ?m = Ok ()" by code_simp
  have "ok_metadata ?m" by (simp add: ok_metadata_def U32_MAX_def ascii_def ok_owner_def HASH_SIZE_def)
  then have d: "asset_contract_derive (take 4) ?m k = Ok (ascii ''XPAR'')" for k
    by (simp add: asset_contract_derive_def canonical_bytes_def domain_def frame_def tag_def ascii_def)
  from asset_contract_binding [OF d d, of 0 1] v d show ?thesis by (simp add: Let_def)
qed

end
