(* ===== verification/VM.thy ===== *)
theory VM
  imports Monetary
begin

section \<open>The program machine: code validation and scalar execution\<close>

text \<open>
  \<^verbatim>\<open>kernel/src/program/vm/*\<close> (versions 1 to 3 of the byte code: a validator that bounds stack,
  memory and fuel of straight-line code, and the interpreter that trusts it) and
  \<^verbatim>\<open>kernel/src/program/vm_app/validation.rs\<close> (version 4: decoding into an instruction table with
  checked jump targets). The interpreter indexes and unwraps without checks; each such place is
  the value \<open>None\<close> of the model, and the theorems show that validated code never gets there.
  Both loops move forward through the code, which is their termination measure.
\<close>

subsection \<open>Constants and types\<close>

definition MAGIC :: bytes where "MAGIC = ascii ''XPVM''"
definition VERSION :: u8 where "VERSION = 1"
definition APPLICATION_VERSION :: u8 where "APPLICATION_VERSION = 4"
definition ASSET_ISSUANCE_VERSION :: u8 where "ASSET_ISSUANCE_VERSION = 3"
definition MAX_STACK_ITEMS :: u16 where "MAX_STACK_ITEMS = 256"
definition MAX_MEMORY_PAGES :: u16 where "MAX_MEMORY_PAGES = 16"
definition HEADER_LEN :: nat where "HEADER_LEN = 13"
definition MEMORY_PAGE_COST :: u64 where "MEMORY_PAGE_COST = 1"

type_synonym i64 = "64 word"

definition checked_add_i64 :: "i64 \<Rightarrow> i64 \<Rightarrow> i64 option" where
  "checked_add_i64 a b =
     (if - (2 ^ 63) \<le> sint a + sint b \<and> sint a + sint b < 2 ^ 63 then Some (a + b) else None)"

record validated_code =
  vc_entry :: u32
  vc_max_stack :: u16
  vc_memory_pages :: u16
  vc_instruction_count :: u32
  vc_instruction_fuel :: u64

datatype code_error = InvalidHeader | UnsupportedVersion | InvalidLimit | InvalidEntry
  | InvalidInstruction | MissingReturn

datatype execution_error = InvalidCode code_error | UnknownProgram | OutOfFuel | ArithmeticOverflow
  | InvalidOperand | Reverted | ResourceLimit | ReentrantCall | SettlementFailed

datatype vm_effect = ProgramState i64

subsection \<open>Monetary requests embedded in code\<close>

record transfer_request =
  tr_recipient :: owner
  tr_amount :: u64

record register_asset_request =
  rr_name :: bytes
  rr_max_supply :: units
  rr_initial_mint :: units
  rr_nonce :: u64
  rr_skip_if_exists :: bool

datatype mint_asset_target = Existing hash | Registered

record mint_asset_request =
  mr_asset :: mint_asset_target
  mr_recipient :: owner
  mr_amount :: units

definition dec_transfer_request :: "transfer_request decoder" where
  "dec_transfer_request = dec_map (\<lambda>(recipient, amount). \<lparr>tr_recipient = recipient, tr_amount = amount\<rparr>)
     (dec_pair dec_owner dec_u64)"

definition dec_register_asset_request :: "register_asset_request decoder" where
  "dec_register_asset_request = dec_map
     (\<lambda>(name, max_supply, initial_mint, nonce, skip). \<lparr>rr_name = name, rr_max_supply = max_supply,
        rr_initial_mint = initial_mint, rr_nonce = nonce, rr_skip_if_exists = skip\<rparr>)
     (dec_pair dec_string (dec_pair dec_u128 (dec_pair dec_u128 (dec_pair dec_u64 dec_bool))))"

definition dec_mint_asset_target :: "mint_asset_target decoder" where
  "dec_mint_asset_target = dec_tag (\<lambda>t.
     if t = 0 then Some (dec_map Existing (dec_array HASH_SIZE))
     else if t = 1 then Some (\<lambda>bs. Some (Registered, bs)) else None)"

definition dec_mint_asset_request :: "mint_asset_request decoder" where
  "dec_mint_asset_request = dec_map
     (\<lambda>(asset, recipient, amount). \<lparr>mr_asset = asset, mr_recipient = recipient, mr_amount = amount\<rparr>)
     (dec_pair dec_mint_asset_target (dec_pair dec_owner dec_u128))"

definition decode_register_request :: "bytes \<Rightarrow> (register_asset_request \<times> bytes, code_error) result" where
  "decode_register_request bs =
     rbind (ok_or (if 4 \<le> length bs then Some (take 4 bs) else None) InvalidInstruction) (\<lambda>prefix.
       let n = le_val prefix in
       if n = 0 \<or> n > ASSET_NAME_MAX_LEN then Err InvalidInstruction
       else rbind (ok_or (dec_register_asset_request bs) InvalidInstruction) (\<lambda>(request, rest).
         rbind (map_err (\<lambda>_. InvalidInstruction) (validate_asset_name (rr_name request))) (\<lambda>_.
           if rr_max_supply request = 0 \<or> rr_initial_mint request = 0 \<or>
              rr_initial_mint request > rr_max_supply request
           then Err InvalidInstruction else Ok (request, rest))))"

subsection \<open>Version 4: the instruction table\<close>

definition MAX_DATA_BYTES :: nat where "MAX_DATA_BYTES = 4096"
definition MAX_CODE_BYTES :: nat where "MAX_CODE_BYTES = 65536"
definition MAX_INSTRUCTIONS :: nat where "MAX_INSTRUCTIONS = 4096"

record instruction =
  in_op :: u8
  in_immediate :: bytes
  in_next :: nat

definition slice_at :: "bytes \<Rightarrow> nat \<Rightarrow> nat \<Rightarrow> bytes option" where
  "slice_at bs from n = (if from + n \<le> length bs then Some (take n (drop from bs)) else None)"

definition plain_opcode :: "u8 \<Rightarrow> bool" where
  "plain_opcode op = (op = 0x00 \<or> (0x02 \<le> op \<and> op \<le> 0x05) \<or> (0x12 \<le> op \<and> op \<le> 0x19) \<or>
     (0x22 \<le> op \<and> op \<le> 0x2b) \<or> (0x30 \<le> op \<and> op \<le> 0x37) \<or> (0x40 \<le> op \<and> op \<le> 0x4c))"

text \<open>The position and the length of the immediate of the opcode before position \<open>pc\<close>.\<close>

definition immediate_extent :: "bytes \<Rightarrow> u8 \<Rightarrow> nat \<Rightarrow> (nat \<times> nat, code_error) result" where
  "immediate_extent code op pc =
     (if op = 0x01 then Ok (pc, 16)
      else if op = 0x11 then Ok (pc, 33)
      else if op = 0x20 \<or> op = 0x21 then Ok (pc, 4)
      else if op = 0x10 then
        rbind (ok_or (slice_at code pc 2) InvalidInstruction) (\<lambda>prefix.
          if le_val prefix > MAX_DATA_BYTES then Err InvalidLimit else Ok (pc + 2, le_val prefix))
      else if plain_opcode op then Ok (pc, 0)
      else Err InvalidInstruction)"

definition decode_instruction :: "bytes \<Rightarrow> nat \<Rightarrow> (instruction, code_error) result" where
  "decode_instruction code start =
     (let op = code ! start in
      rbind (immediate_extent code op (start + 1)) (\<lambda>(pc, n).
      rbind (ok_or (slice_at code pc n) InvalidInstruction) (\<lambda>immediate.
      if op = 0x11 \<and> try_from_slice dec_owner immediate = None then Err InvalidInstruction
      else Ok \<lparr>in_op = op, in_immediate = immediate, in_next = pc + n\<rparr>)))"

lemma decode_instruction_next:
  assumes "decode_instruction code start = Ok i"
  shows "start < in_next i \<and> in_next i \<le> length code"
  using assms
  by (auto simp: decode_instruction_def Let_def immediate_extent_def result_simps slice_at_def split: if_splits)

text \<open>The decoded table, in the order of the positions, and whether a return was seen.\<close>

type_synonym table = "(nat \<times> instruction) list"

function decode_loop :: "bytes \<Rightarrow> nat \<Rightarrow> table \<Rightarrow> bool \<Rightarrow> (table \<times> bool, code_error) result" where
  "decode_loop code pc decoded has_return =
     (if pc < length code then
        (if length decoded \<ge> MAX_INSTRUCTIONS then Err InvalidLimit
         else case decode_instruction code pc of
           Inl e \<Rightarrow> Inl e
         | Inr i \<Rightarrow> decode_loop code (in_next i) (decoded @ [(pc, i)]) (has_return \<or> in_op i = 0x03))
      else Ok (decoded, has_return))"
  by pat_completeness auto
termination
  by (relation "measure (\<lambda>(code, pc, _). length code - pc)") (auto dest: decode_instruction_next)

definition jump_target :: "instruction \<Rightarrow> nat" where
  "jump_target i = HEADER_LEN + le_val (in_immediate i)"

definition is_jump :: "instruction \<Rightarrow> bool" where
  "is_jump i = (in_op i = 0x20 \<or> in_op i = 0x21)"

definition instructions :: "bytes \<Rightarrow> (table, code_error) result" where
  "instructions code =
     (if length code < HEADER_LEN \<or> take 4 code \<noteq> MAGIC \<or> code ! 4 \<noteq> APPLICATION_VERSION then Err InvalidHeader
      else if length code > MAX_CODE_BYTES then Err InvalidLimit
      else rbind (decode_loop code HEADER_LEN [] False) (\<lambda>(decoded, has_return).
        if list_ex (\<lambda>i. is_jump i \<and> jump_target i \<notin> fst ` set decoded) (map snd decoded)
        then Err InvalidEntry
        else if \<not> has_return then Err MissingReturn
        else Ok decoded))"

definition u16_from_le :: "u8 \<Rightarrow> u8 \<Rightarrow> u16" where "u16_from_le a b = of_nat (le_val [a, b])"

definition u32_from_le :: "bytes \<Rightarrow> u32" where "u32_from_le bs = of_nat (le_val bs)"

definition app_validate_code :: "bytes \<Rightarrow> (validated_code, code_error) result" where
  "app_validate_code code = rbind (instructions code) (\<lambda>decoded.
     let stack = u16_from_le (code ! 5) (code ! 6); pages = u16_from_le (code ! 7) (code ! 8) in
     if stack = 0 \<or> stack > MAX_STACK_ITEMS \<or> pages = 0 \<or> pages > MAX_MEMORY_PAGES then Err InvalidLimit
     else let entry = u32_from_le (take 4 (drop 9 code)) in
       if entry \<noteq> 0 \<or> HEADER_LEN \<notin> fst ` set decoded then Err InvalidEntry
       else Ok \<lparr>vc_entry = entry, vc_max_stack = stack, vc_memory_pages = pages,
                vc_instruction_count = of_nat (length decoded), vc_instruction_fuel = 0\<rparr>)"


subsection \<open>Versions 1 to 3: the validator\<close>

definition opcode_cost :: "u8 \<Rightarrow> u64" where
  "opcode_cost op =
     (if op = 0x04 then 2 else if op = 0x05 then 5 else if op = 0x06 \<or> op = 0x07 then 20
      else if op = 0x08 then 40 else if op = 0x09 then 20 else 1)"

record validator =
  va_offset :: nat
  va_boundaries :: "nat list"
  va_depth :: u16
  va_count :: u32
  va_fuel :: u64
  va_returned :: bool
  va_coin_transfer_seen :: bool
  va_asset_transfer_seen :: bool
  va_asset_register_seen :: bool
  va_asset_mint_seen :: bool

definition push_depth :: "u16 \<Rightarrow> validator \<Rightarrow> (validator, code_error) result" where
  "push_depth max_stack s =
     rbind (ok_or (checked_add (va_depth s) 1) InvalidLimit) (\<lambda>depth.
       if depth > max_stack then Err InvalidLimit else Ok (s\<lparr>va_depth := depth\<rparr>))"

definition validate_transfer :: "bytes \<Rightarrow> u8 \<Rightarrow> validator \<Rightarrow> (validator, code_error) result" where
  "validate_transfer body opcode s =
     (let bs = drop (va_offset s) body in
      rbind (if opcode = 0x07 then ok_or (map_option snd (dec_array HASH_SIZE bs)) InvalidInstruction
             else Ok bs) (\<lambda>bs.
      rbind (ok_or (dec_transfer_request bs) InvalidInstruction) (\<lambda>(request, bs).
      if tr_amount request = 0 then Err InvalidInstruction
      else Ok (s\<lparr>va_offset := length body - length bs\<rparr>))))"

definition validate_opcode :: "u8 \<Rightarrow> u16 \<Rightarrow> bytes \<Rightarrow> u8 \<Rightarrow> validator \<Rightarrow> (validator, code_error) result" where
  "validate_opcode version max_stack body opcode s =
     (if opcode = 0x00 then Ok s
      else if opcode = 0x01 then
        (if length body - va_offset s < 8 then Err InvalidInstruction
         else push_depth max_stack (s\<lparr>va_offset := va_offset s + 8\<rparr>))
      else if opcode = 0x02 then
        (if va_depth s < 2 then Err InvalidInstruction else Ok (s\<lparr>va_depth := va_depth s - 1\<rparr>))
      else if opcode = 0x04 then push_depth max_stack s
      else if opcode = 0x05 then
        (if va_depth s = 0 then Err InvalidInstruction else Ok (s\<lparr>va_depth := va_depth s - 1\<rparr>))
      else if opcode = 0x06 \<or> opcode = 0x07 then
        (if version < 2 then Err InvalidInstruction
         else if (if opcode = 0x06 then va_coin_transfer_seen s else va_asset_transfer_seen s)
         then Err InvalidInstruction
         else validate_transfer body opcode
           (if opcode = 0x06 then s\<lparr>va_coin_transfer_seen := True\<rparr> else s\<lparr>va_asset_transfer_seen := True\<rparr>))
      else if opcode = 0x08 then
        (if version \<noteq> ASSET_ISSUANCE_VERSION \<or> va_asset_register_seen s \<or> va_asset_mint_seen s
         then Err InvalidInstruction
         else rbind (decode_register_request (drop (va_offset s) body)) (\<lambda>(_, bs).
           Ok (s\<lparr>va_offset := length body - length bs, va_asset_register_seen := True\<rparr>)))
      else if opcode = 0x09 then
        (if version \<noteq> ASSET_ISSUANCE_VERSION \<or> va_asset_mint_seen s then Err InvalidInstruction
         else rbind (ok_or (dec_mint_asset_request (drop (va_offset s) body)) InvalidInstruction) (\<lambda>(request, bs).
           if mr_amount request = 0 \<or> (mr_asset request = Registered \<and> \<not> va_asset_register_seen s)
           then Err InvalidInstruction
           else Ok (s\<lparr>va_offset := length body - length bs, va_asset_mint_seen := True\<rparr>)))
      else if opcode = 0x03 then
        (if va_depth s \<noteq> 1 \<or> va_offset s \<noteq> length body then Err InvalidInstruction
         else Ok (s\<lparr>va_returned := True\<rparr>))
      else Err InvalidInstruction)"

definition validate_step :: "u8 \<Rightarrow> u16 \<Rightarrow> bytes \<Rightarrow> validator \<Rightarrow> (validator, code_error) result" where
  "validate_step version max_stack body s =
     (let opcode = body ! va_offset s in
      rbind (ok_or (checked_add (va_count s) 1) InvalidInstruction) (\<lambda>count.
      rbind (ok_or (checked_add (va_fuel s) (opcode_cost opcode)) InvalidLimit) (\<lambda>fuel.
      validate_opcode version max_stack body opcode
        (s\<lparr>va_boundaries := va_boundaries s @ [va_offset s], va_offset := va_offset s + 1,
           va_count := count, va_fuel := fuel\<rparr>))))"

lemma dec_transfer_request_length: "dec_transfer_request bs = Some (r, rest) \<Longrightarrow> length rest \<le> length bs"
  by (auto simp: dec_transfer_request_def dec_map_def dec_pair_def bind_eq_Some_conv dest!: ownerc.enc_dec u64c.enc_dec)

lemma dec_register_asset_request_length: "dec_register_asset_request bs = Some (r, rest) \<Longrightarrow> length rest \<le> length bs"
  by (auto simp: dec_register_asset_request_def dec_map_def dec_pair_def bind_eq_Some_conv
      dest!: stringc.enc_dec u128c.enc_dec u64c.enc_dec boolc.enc_dec)

lemma dec_mint_asset_target_length: "dec_mint_asset_target bs = Some (r, rest) \<Longrightarrow> length rest \<le> length bs"
  by (auto simp: dec_mint_asset_target_def dec_tag_def dec_map_def bind_eq_Some_conv split: if_splits
      dest!: u8c.enc_dec arrayc.enc_dec)

lemma dec_mint_asset_request_length: "dec_mint_asset_request bs = Some (r, rest) \<Longrightarrow> length rest \<le> length bs"
  by (fastforce simp: dec_mint_asset_request_def dec_map_def dec_pair_def bind_eq_Some_conv
      dest!: ownerc.enc_dec u128c.enc_dec dec_mint_asset_target_length)

lemma decode_register_request_length: "decode_register_request bs = Ok (r, rest) \<Longrightarrow> length rest \<le> length bs"
  by (auto simp: decode_register_request_def Let_def result_simps split: if_splits prod.splits
      dest: dec_register_asset_request_length)


lemma dec_array_length: "dec_array n bs = Some (x, rest) \<Longrightarrow> length rest \<le> length bs"
  by (auto dest!: arrayc.enc_dec)

lemmas decoder_lengths = dec_array_length dec_transfer_request_length dec_mint_asset_request_length
  decode_register_request_length

lemma push_depth_Ok:
  "push_depth m s = Ok s' \<longleftrightarrow> Suc (unat (va_depth s)) \<le> unat m \<and> s' = s\<lparr>va_depth := va_depth s + 1\<rparr>"
proof -
  have "unat m < 2 ^ 16" by (rule unat_bound_le) simp
  then have fits: "Suc (unat (va_depth s)) \<le> unat m \<Longrightarrow> Suc (unat (va_depth s)) < 2 ^ 16" by linarith
  have "Suc (unat (va_depth s)) < 2 ^ 16 \<Longrightarrow> unat (va_depth s + 1) = Suc (unat (va_depth s))"
    by (simp add: unat_word_ariths)
  with fits show ?thesis
    by (auto simp: push_depth_def checked_add_def result_simps word_less_nat_alt split: if_splits)
qed

lemma validate_transfer_Ok:
  "validate_transfer body op s = Ok s' \<longleftrightarrow>
     (\<exists>bs r rest. (if op = 0x07 then (\<exists>a. dec_array HASH_SIZE (drop (va_offset s) body) = Some (a, bs))
        else bs = drop (va_offset s) body) \<and> dec_transfer_request bs = Some (r, rest) \<and> tr_amount r \<noteq> 0 \<and>
        s' = s\<lparr>va_offset := length body - length rest\<rparr>)"
  by (auto simp: validate_transfer_def Let_def result_simps split: if_splits)

lemma validate_transfer_offset:
  assumes "validate_transfer body op s = Ok s'" and "va_offset s \<le> length body"
  shows "va_offset s \<le> va_offset s' \<and> va_offset s' \<le> length body"
proof -
  from assms(1) obtain bs r rest where bs: "length bs \<le> length (drop (va_offset s) body)"
      "dec_transfer_request bs = Some (r, rest)" "s' = s\<lparr>va_offset := length body - length rest\<rparr>"
    unfolding validate_transfer_Ok by (force split: if_splits dest: dec_array_length)
  with dec_transfer_request_length [OF bs(2)] assms(2) show ?thesis by simp
qed

lemma validate_opcode_offset:
  assumes "validate_opcode version m body op s = Ok s'" and "va_offset s \<le> length body"
  shows "va_offset s \<le> va_offset s' \<and> va_offset s' \<le> length body"
  using assms
  by (auto simp: validate_opcode_def push_depth_Ok result_simps split: if_splits prod.splits
      dest!: decoder_lengths dest: validate_transfer_offset)

lemma validate_step_offset:
  assumes "validate_step version m body s = Ok s'" and "va_offset s < length body"
  shows "va_offset s < va_offset s' \<and> va_offset s' \<le> length body"
  using assms
  by (auto simp: validate_step_def Let_def result_simps dest!: validate_opcode_offset)

function validate_loop :: "u8 \<Rightarrow> u16 \<Rightarrow> bytes \<Rightarrow> validator \<Rightarrow> (validator, code_error) result" where
  "validate_loop version max_stack body s =
     (if va_offset s < length body then
        (case validate_step version max_stack body s of
           Inl e \<Rightarrow> Inl e
         | Inr s' \<Rightarrow> if va_returned s' then Ok s' else validate_loop version max_stack body s')
      else Ok s)"
  by pat_completeness auto
termination
  by (relation "measure (\<lambda>(_, _, body, s). length body - va_offset s)") (auto dest: validate_step_offset)

declare validate_loop.simps [simp del]
declare decode_loop.simps [simp del]

definition validator_init :: validator where
  "validator_init = \<lparr>va_offset = 0, va_boundaries = [], va_depth = 0, va_count = 0, va_fuel = 0,
     va_returned = False, va_coin_transfer_seen = False, va_asset_transfer_seen = False,
     va_asset_register_seen = False, va_asset_mint_seen = False\<rparr>"

definition validate_code :: "bytes \<Rightarrow> (validated_code, code_error) result" where
  "validate_code code =
     (if length code > 4 \<and> code ! 4 = APPLICATION_VERSION then app_validate_code code
      else if length code < HEADER_LEN \<or> take 4 code \<noteq> MAGIC then Err InvalidHeader
      else if code ! 4 \<notin> {VERSION, 2, ASSET_ISSUANCE_VERSION} then Err UnsupportedVersion
      else
        let max_stack = u16_from_le (code ! 5) (code ! 6); memory_pages = u16_from_le (code ! 7) (code ! 8) in
        if max_stack = 0 \<or> max_stack > MAX_STACK_ITEMS \<or> memory_pages > MAX_MEMORY_PAGES then Err InvalidLimit
        else let entry = u32_from_le (take 4 (drop 9 code)); body = drop HEADER_LEN code in
          rbind (validate_loop (code ! 4) max_stack body validator_init) (\<lambda>s.
            if \<not> va_returned s then Err MissingReturn
            else if entry \<noteq> 0 \<or> 0 \<notin> set (va_boundaries s) then Err InvalidEntry
            else Ok \<lparr>vc_entry = entry, vc_max_stack = max_stack, vc_memory_pages = memory_pages,
                     vc_instruction_count = va_count s, vc_instruction_fuel = va_fuel s\<rparr>))"

subsection \<open>Versions 1 to 3: the interpreter\<close>

record execution_result =
  er_value :: i64
  er_fuel_used :: u64
  er_proposed_effect :: "vm_effect option"
  er_coin_transfer :: "transfer_request option"
  er_asset_transfer :: "(hash \<times> transfer_request) option"
  er_asset_register :: "register_asset_request option"
  er_asset_mint :: "mint_asset_request option"

definition has_monetary_effects :: "execution_result \<Rightarrow> bool" where
  "has_monetary_effects r = (er_coin_transfer r \<noteq> None \<or> er_asset_transfer r \<noteq> None \<or>
     er_asset_register r \<noteq> None \<or> er_asset_mint r \<noteq> None)"

text \<open>The local variables of the interpreter; the stack has its top at the head.\<close>

record machine =
  ma_cursor :: nat
  ma_stack :: "i64 list"
  ma_state_value :: i64
  ma_proposed_effect :: "vm_effect option"
  ma_coin_transfer :: "transfer_request option"
  ma_asset_transfer :: "(hash \<times> transfer_request) option"
  ma_asset_register :: "register_asset_request option"
  ma_asset_mint :: "mint_asset_request option"

text \<open>
  One instruction: \<open>None\<close> where the source panics (an index out of range, a failed \<open>expect\<close>, the
  \<open>unreachable\<close> arm), otherwise the next state, or the returned value, or an error.
\<close>

datatype outcome = Next machine | Return i64

definition machine_step :: "bytes \<Rightarrow> machine \<Rightarrow> (outcome, execution_error) result option" where
  "machine_step code m =
     (if ma_cursor m \<ge> length code then None else
      let opcode = code ! ma_cursor m; cursor = ma_cursor m + 1; m = m\<lparr>ma_cursor := cursor\<rparr> in
      if opcode = 0x00 then Some (Ok (Next m))
      else if opcode = 0x01 then
        Option.bind (slice_at code cursor 8) (\<lambda>bs.
          Some (Ok (Next (m\<lparr>ma_cursor := cursor + 8, ma_stack := of_nat (le_val bs) # ma_stack m\<rparr>))))
      else if opcode = 0x02 then
        (case ma_stack m of
           right # left # stack \<Rightarrow>
             Some (rbind (ok_or (checked_add_i64 left right) ArithmeticOverflow) (\<lambda>v.
               Ok (Next (m\<lparr>ma_stack := v # stack\<rparr>))))
         | _ \<Rightarrow> None)
      else if opcode = 0x04 then Some (Ok (Next (m\<lparr>ma_stack := ma_state_value m # ma_stack m\<rparr>)))
      else if opcode = 0x05 then
        (case ma_stack m of
           v # stack \<Rightarrow> Some (Ok (Next (m\<lparr>ma_stack := stack, ma_state_value := v,
             ma_proposed_effect := Some (ProgramState v)\<rparr>)))
         | [] \<Rightarrow> None)
      else if opcode = 0x06 then
        Option.bind (dec_transfer_request (drop cursor code)) (\<lambda>(request, bs).
          Some (Ok (Next (m\<lparr>ma_coin_transfer := Some request, ma_cursor := length code - length bs\<rparr>))))
      else if opcode = 0x07 then
        Option.bind (dec_array HASH_SIZE (drop cursor code)) (\<lambda>(asset, bs).
        Option.bind (dec_transfer_request bs) (\<lambda>(request, bs).
          Some (Ok (Next (m\<lparr>ma_asset_transfer := Some (asset, request), ma_cursor := length code - length bs\<rparr>)))))
      else if opcode = 0x08 then
        Option.bind (result_ok (decode_register_request (drop cursor code))) (\<lambda>(request, bs).
          Some (Ok (Next (m\<lparr>ma_asset_register := Some request, ma_cursor := length code - length bs\<rparr>))))
      else if opcode = 0x09 then
        Option.bind (dec_mint_asset_request (drop cursor code)) (\<lambda>(request, bs).
          Some (Ok (Next (m\<lparr>ma_asset_mint := Some request, ma_cursor := length code - length bs\<rparr>))))
      else if opcode = 0x03 then
        (case ma_stack m of v # _ \<Rightarrow> Some (Ok (Return v)) | [] \<Rightarrow> None)
      else None)"

lemma machine_step_cursor:
  assumes "machine_step code m = Some (Ok (Next m'))"
  shows "ma_cursor m < length code \<and> ma_cursor m < ma_cursor m'"
  using assms
  by (auto simp: machine_step_def Let_def result_simps bind_eq_Some_conv slice_at_def split: if_splits list.splits
      dest!: decoder_lengths)


function machine_loop :: "bytes \<Rightarrow> machine \<Rightarrow> (machine \<times> i64, execution_error) result option" where
  "machine_loop code m =
     (case machine_step code m of
        None \<Rightarrow> None
      | Some (Inl e) \<Rightarrow> Some (Err e)
      | Some (Inr (Return v)) \<Rightarrow> Some (Ok (m, v))
      | Some (Inr (Next m')) \<Rightarrow> machine_loop code m')"
  by pat_completeness auto
termination
  by (relation "measure (\<lambda>(code, m). length code - ma_cursor m)") (auto dest: machine_step_cursor)

declare machine_loop.simps [simp del]

definition machine_init :: "i64 \<Rightarrow> machine" where
  "machine_init initial_state = \<lparr>ma_cursor = HEADER_LEN, ma_stack = [], ma_state_value = initial_state,
     ma_proposed_effect = None, ma_coin_transfer = None, ma_asset_transfer = None, ma_asset_register = None,
     ma_asset_mint = None\<rparr>"

definition execute_code_with_state :: "bytes \<Rightarrow> i64 \<Rightarrow> u64 \<Rightarrow> (execution_result, execution_error) result option" where
  "execute_code_with_state code initial_state fuel_limit =
     (if length code > 4 \<and> code ! 4 = APPLICATION_VERSION then Some (Err InvalidOperand)
      else case validate_code code of
        Inl e \<Rightarrow> Some (Err (InvalidCode e))
      | Inr v \<Rightarrow>
        (case checked_add (ucast (vc_memory_pages v) * MEMORY_PAGE_COST) (vc_instruction_fuel v) of
           None \<Rightarrow> Some (Err OutOfFuel)
         | Some fuel_used \<Rightarrow>
           if fuel_used > fuel_limit then Some (Err OutOfFuel)
           else map_option (\<lambda>r. rbind r (\<lambda>(m, v).
             Ok \<lparr>er_value = v, er_fuel_used = fuel_used, er_proposed_effect = ma_proposed_effect m,
                 er_coin_transfer = ma_coin_transfer m, er_asset_transfer = ma_asset_transfer m,
                 er_asset_register = ma_asset_register m, er_asset_mint = ma_asset_mint m\<rparr>))
             (machine_loop code (machine_init initial_state))))"

definition execute_code :: "bytes \<Rightarrow> u64 \<Rightarrow> (execution_result, execution_error) result option" where
  "execute_code code fuel_limit = execute_code_with_state code 0 fuel_limit"

subsection \<open>The validator simulates the interpreter\<close>

definition tracks :: "u16 \<Rightarrow> validator \<Rightarrow> machine \<Rightarrow> bool" where
  "tracks max_stack s m \<longleftrightarrow> ma_cursor m = HEADER_LEN + va_offset s \<and>
     length (ma_stack m) = unat (va_depth s) \<and> unat (va_depth s) \<le> unat max_stack"

text \<open>What one step of the interpreter may do where the validator accepted the instruction.\<close>

definition step_agrees :: "u16 \<Rightarrow> validator \<Rightarrow> (outcome, execution_error) result option \<Rightarrow> bool" where
  "step_agrees max_stack s' r \<longleftrightarrow> (case r of
     None \<Rightarrow> False
   | Some (Inl e) \<Rightarrow> e = ArithmeticOverflow
   | Some (Inr (Next m')) \<Rightarrow> \<not> va_returned s' \<and> tracks max_stack s' m'
   | Some (Inr (Return v)) \<Rightarrow> va_returned s')"

lemma step_agrees_simps [simp]:
  "\<not> step_agrees k s' None"
  "step_agrees k s' (Some (Inl e)) \<longleftrightarrow> e = ArithmeticOverflow"
  "step_agrees k s' (Some (Inr (Next m'))) \<longleftrightarrow> \<not> va_returned s' \<and> tracks k s' m'"
  "step_agrees k s' (Some (Inr (Return v))) \<longleftrightarrow> va_returned s'"
  by (simp_all add: step_agrees_def)

lemma unat_pred: "0 < unat w \<Longrightarrow> unat (w - 1) = unat (w :: 'a::len word) - 1"
  by (simp add: unat_minus_one unat_gt_0)

lemma unat_succ_u16: "Suc (unat (d :: u16)) \<le> unat (k :: u16) \<Longrightarrow> unat (d + 1) = Suc (unat d)"
proof -
  assume "Suc (unat d) \<le> unat k"
  moreover have "unat k < 2 ^ 16" by (rule unat_bound_le) simp
  ultimately show ?thesis by (simp add: unat_word_ariths)
qed

lemma opcode_agrees:
  assumes v: "validate_opcode version k (drop HEADER_LEN code) (code ! c) s = Ok s'"
    and len: "HEADER_LEN \<le> length code" and c: "c < length code"
    and m: "ma_cursor m = c" "c + 1 = HEADER_LEN + va_offset s"
    and depth: "length (ma_stack m) = unat (va_depth s)" "unat (va_depth s) \<le> unat k"
    and nr: "\<not> va_returned s"
  shows "step_agrees k s' (machine_step code m)"
proof -
  let ?body = "drop HEADER_LEN code"
  have drop: "drop (HEADER_LEN + va_offset s) code = drop (va_offset s) ?body" by (simp add: add.commute)
  have pos: "length code - length bs = HEADER_LEN + (length ?body - length bs)" if "length bs \<le> length ?body" for bs :: bytes
    using that len by simp
  have le: "length (drop (va_offset s) ?body) \<le> length ?body" by simp
  note dl = order_trans [OF decoder_lengths(2) le] order_trans [OF decoder_lengths(3) le] order_trans [OF decoder_lengths(4) le]
    order_trans [OF decoder_lengths(2) order_trans [OF decoder_lengths(1) le]]
  consider "code ! c = 0x00" | "code ! c = 0x01" | "code ! c = 0x02" | "code ! c = 0x03" | "code ! c = 0x04"
    | "code ! c = 0x05" | "code ! c = 0x06" | "code ! c = 0x07" | "code ! c = 0x08" | "code ! c = 0x09"
    using v by (auto simp: validate_opcode_def split: if_splits)
  then show ?thesis
  proof cases
    case 2
    then show ?thesis using v depth m c nr len
      by (auto simp: validate_opcode_def machine_step_def Let_def push_depth_Ok slice_at_def tracks_def unat_succ_u16 split: if_splits)
  next
    case 3
    then have "2 \<le> unat (va_depth s)" "s' = s\<lparr>va_depth := va_depth s - 1\<rparr>"
      using v by (auto simp: validate_opcode_def word_less_nat_alt split: if_splits)
    moreover from this obtain a b st where "ma_stack m = a # b # st" using depth(1) by (cases "ma_stack m" rule: remdups_adj.cases) auto
    ultimately show ?thesis using 3 depth m c nr
      by (cases "checked_add_i64 b a") (auto simp: machine_step_def Let_def tracks_def unat_pred)
  next
    case 4
    then have "va_depth s = 1" "s' = s\<lparr>va_returned := True\<rparr>" using v by (auto simp: validate_opcode_def split: if_splits)
    with 4 depth m c show ?thesis by (cases "ma_stack m") (auto simp: machine_step_def Let_def)
  next
    case 5
    then show ?thesis using v depth m c nr
      by (auto simp: validate_opcode_def machine_step_def Let_def push_depth_Ok tracks_def unat_succ_u16)
  next
    case 6
    then have "va_depth s \<noteq> 0" "s' = s\<lparr>va_depth := va_depth s - 1\<rparr>" using v by (auto simp: validate_opcode_def split: if_splits)
    moreover from this have "0 < unat (va_depth s)" by (simp add: unat_gt_0)
    ultimately show ?thesis using 6 depth m c nr
      by (cases "ma_stack m") (auto simp: machine_step_def Let_def tracks_def unat_pred)
  next
    case 7
    then show ?thesis using v depth m c nr dl pos
      by (auto simp: validate_opcode_def validate_transfer_Ok machine_step_def Let_def drop tracks_def simp del: drop_drop split: if_splits)
  next
    case 8
    with v obtain a bs r rest where d: "dec_array HASH_SIZE (drop (va_offset s) ?body) = Some (a, bs)"
        "dec_transfer_request bs = Some (r, rest)" "s' = s\<lparr>va_asset_transfer_seen := True, va_offset := length ?body - length rest\<rparr>"
      by (auto simp: validate_opcode_def validate_transfer_Ok simp del: drop_drop split: if_splits)
    from dl(4) [OF d(2,1)] have "length code - length rest = HEADER_LEN + (length ?body - length rest)" by (rule pos)
    with 8 d depth m c nr show ?thesis
      by (auto simp: machine_step_def Let_def drop tracks_def simp del: drop_drop)
  next
    case 9
    then show ?thesis using v depth m c nr dl pos
      by (auto simp: validate_opcode_def result_simps machine_step_def Let_def drop tracks_def simp del: drop_drop split: if_splits prod.splits)
  next
    case 10
    then show ?thesis using v depth m c nr dl pos
      by (auto simp: validate_opcode_def result_simps machine_step_def Let_def drop tracks_def simp del: drop_drop split: if_splits prod.splits)
  qed (use v depth m c nr in \<open>auto simp: validate_opcode_def machine_step_def Let_def tracks_def\<close>)
qed


lemma validate_opcode_fuel:
  "validate_opcode version k body op s = Ok s' \<Longrightarrow> va_fuel s' = va_fuel s"
  by (auto simp: validate_opcode_def push_depth_Ok validate_transfer_Ok result_simps split: if_splits prod.splits)

lemma validate_step_agrees:
  assumes "validate_step version k (drop HEADER_LEN code) s = Ok s'" and "tracks k s m" and "\<not> va_returned s"
    and "va_offset s < length (drop HEADER_LEN code)"
  shows "step_agrees k s' (machine_step code m) \<and>
    unat (va_fuel s') = unat (va_fuel s) + unat (opcode_cost (code ! ma_cursor m))"
proof -
  have op: "drop HEADER_LEN code ! va_offset s = code ! ma_cursor m" and c: "ma_cursor m < length code"
    using assms(2,4) by (simp_all add: tracks_def)
  from assms(1) obtain n f where f: "checked_add (va_fuel s) (opcode_cost (code ! ma_cursor m)) = Some f"
    and v: "validate_opcode version k (drop HEADER_LEN code) (code ! ma_cursor m)
      (s\<lparr>va_boundaries := va_boundaries s @ [va_offset s], va_offset := va_offset s + 1, va_count := n, va_fuel := f\<rparr>) = Ok s'"
    by (auto simp: validate_step_def Let_def op result_simps)
  have "step_agrees k s' (machine_step code m)"
    by (rule opcode_agrees [OF v]) (use assms c in \<open>simp_all add: tracks_def\<close>)
  moreover have "va_fuel s' = f" using validate_opcode_fuel [OF v] by simp
  moreover have "unat f = unat (va_fuel s) + unat (opcode_cost (code ! ma_cursor m))" using f by (simp only: checked_add_Some)
  ultimately show ?thesis by simp
qed

lemma validate_code_Ok:
  assumes "validate_code code = Ok v" and "code ! 4 \<noteq> APPLICATION_VERSION"
  shows "HEADER_LEN \<le> length code \<and> vc_max_stack v \<le> MAX_STACK_ITEMS \<and> vc_memory_pages v \<le> MAX_MEMORY_PAGES \<and>
    (\<exists>sf. validate_loop (code ! 4) (vc_max_stack v) (drop HEADER_LEN code) validator_init = Ok sf \<and>
      va_returned sf \<and> va_fuel sf = vc_instruction_fuel v)"
  using assms
  by (auto simp: validate_code_def Let_def result_simps not_less split: if_splits)

text \<open>
  A partial run of the interpreter with the fuel its instructions cost, and the invariant that the
  validator was in a matching state.
\<close>

inductive vm_run :: "bytes \<Rightarrow> i64 \<Rightarrow> nat \<Rightarrow> machine \<Rightarrow> bool" for code :: bytes and initial_state :: i64 where
  start: "vm_run code initial_state 0 (machine_init initial_state)"
| step: "vm_run code initial_state fuel m \<Longrightarrow> machine_step code m = Some (Ok (Next m')) \<Longrightarrow>
    vm_run code initial_state (fuel + unat (opcode_cost (code ! ma_cursor m))) m'"

definition accepted_from :: "bytes \<Rightarrow> validated_code \<Rightarrow> nat \<Rightarrow> machine \<Rightarrow> bool" where
  "accepted_from code v fuel m \<longleftrightarrow> (\<exists>s sf. tracks (vc_max_stack v) s m \<and> \<not> va_returned s \<and> unat (va_fuel s) = fuel \<and>
     validate_loop (code ! 4) (vc_max_stack v) (drop HEADER_LEN code) s = Ok sf \<and>
     va_returned sf \<and> va_fuel sf = vc_instruction_fuel v)"

lemma accepted_from_step:
  assumes "accepted_from code v fuel m"
  shows "case machine_step code m of
      None \<Rightarrow> False
    | Some (Inl e) \<Rightarrow> e = ArithmeticOverflow
    | Some (Inr (Next m')) \<Rightarrow> accepted_from code v (fuel + unat (opcode_cost (code ! ma_cursor m))) m'
    | Some (Inr (Return x)) \<Rightarrow> fuel + unat (opcode_cost (code ! ma_cursor m)) = unat (vc_instruction_fuel v)"
proof -
  from assms obtain s sf where s: "tracks (vc_max_stack v) s m" "\<not> va_returned s" "unat (va_fuel s) = fuel"
      "validate_loop (code ! 4) (vc_max_stack v) (drop HEADER_LEN code) s = Ok sf"
      "va_returned sf" "va_fuel sf = vc_instruction_fuel v"
    by (auto simp: accepted_from_def)
  have off: "va_offset s < length (drop HEADER_LEN code)"
    using s(2,4,5) by (subst (asm) validate_loop.simps) (auto split: if_splits)
  with s(4) obtain s' where s': "validate_step (code ! 4) (vc_max_stack v) (drop HEADER_LEN code) s = Ok s'"
      "(if va_returned s' then Ok s' else validate_loop (code ! 4) (vc_max_stack v) (drop HEADER_LEN code) s') = Ok sf"
    by (subst (asm) validate_loop.simps) (auto split: sum.splits)
  have a: "step_agrees (vc_max_stack v) s' (machine_step code m)"
      "unat (va_fuel s') = fuel + unat (opcode_cost (code ! ma_cursor m))"
    using validate_step_agrees [OF s'(1) s(1,2) off] s(3) by simp_all
  show ?thesis
  proof (cases "machine_step code m")
    case (Some r)
    show ?thesis
    proof (cases r)
      case (Inr out)
      then show ?thesis using a Some s s'(2)
        by (cases out) (auto simp: accepted_from_def)
    qed (use a Some in simp)
  qed (use a in simp)
qed

lemma accepted_from_init:
  assumes "validate_code code = Ok v" and "code ! 4 \<noteq> APPLICATION_VERSION"
  shows "accepted_from code v 0 (machine_init s)"
proof -
  have "tracks (vc_max_stack v) validator_init (machine_init s)"
    by (simp add: tracks_def validator_init_def machine_init_def)
  moreover have "\<not> va_returned validator_init" "unat (va_fuel validator_init) = 0" by (simp_all add: validator_init_def)
  ultimately show ?thesis
    using validate_code_Ok [OF assms] unfolding accepted_from_def by blast
qed

lemma vm_run_accepted:
  assumes "vm_run code s fuel m" and "validate_code code = Ok v" and "code ! 4 \<noteq> APPLICATION_VERSION"
  shows "accepted_from code v fuel m"
  using assms
proof (induction rule: vm_run.induct)
  case start
  then show ?case by (rule accepted_from_init)
next
  case (step fuel m m')
  then show ?case using accepted_from_step [of code v fuel m] by simp
qed

lemma machine_loop_accepted:
  assumes "accepted_from code v fuel m"
  shows "machine_loop code m = Some (Err ArithmeticOverflow) \<or> (\<exists>m' x. machine_loop code m = Some (Ok (m', x)))"
  using assms
proof (induction code m arbitrary: fuel rule: machine_loop.induct)
  case (1 code m)
  show ?case
  proof (cases "machine_step code m")
    case None
    then show ?thesis using accepted_from_step [OF 1(2)] by simp
  next
    case (Some r)
    show ?thesis
    proof (cases r)
      case (Inl e)
      then show ?thesis using accepted_from_step [OF 1(2)] Some by (subst (2) machine_loop.simps, subst machine_loop.simps) simp
    next
      case (Inr out)
      then show ?thesis
      proof (cases out)
        case (Next m')
        then have "machine_step code m = Some (Ok (Next m'))" using Some Inr by simp
        with accepted_from_step [OF 1(2)] 1(1) [OF Some Inr Next] show ?thesis
          by (subst (2) machine_loop.simps, subst machine_loop.simps) simp
      qed (use Some Inr in \<open>subst (2) machine_loop.simps, simp\<close>)
    qed
  qed
qed


subsection \<open>The instruction table of version 4\<close>

definition immediate_ok :: "instruction \<Rightarrow> bool" where
  "immediate_ok i \<longleftrightarrow>
     (if in_op i = 0x01 then length (in_immediate i) = 16
      else if in_op i = 0x11 then try_from_slice dec_owner (in_immediate i) \<noteq> None
      else if is_jump i then length (in_immediate i) = 4
      else if in_op i = 0x10 then length (in_immediate i) \<le> MAX_DATA_BYTES
      else plain_opcode (in_op i) \<and> in_immediate i = [])"

lemma decode_instruction_Ok:
  assumes "decode_instruction code start = Ok i"
  shows "in_op i = code ! start \<and> immediate_ok i"
  using assms
  by (auto simp: decode_instruction_def Let_def immediate_extent_def result_simps slice_at_def immediate_ok_def is_jump_def
      split: if_splits)

definition table_ok :: "bytes \<Rightarrow> nat \<Rightarrow> table \<Rightarrow> bool" where
  "table_ok code pc decoded \<longleftrightarrow> pc \<le> length code \<and> length decoded \<le> MAX_INSTRUCTIONS \<and>
     sorted_wrt (<) (map fst decoded) \<and>
     (\<forall>(p, i) \<in> set decoded. p < pc \<and> in_op i = code ! p \<and> immediate_ok i \<and>
        (in_next i = pc \<or> in_next i \<in> fst ` set decoded))"

lemma table_ok_snoc:
  assumes "table_ok code pc decoded" and "decode_instruction code pc = Ok i"
    and "length decoded < MAX_INSTRUCTIONS"
  shows "table_ok code (in_next i) (decoded @ [(pc, i)])"
  using assms(1,3) decode_instruction_next [OF assms(2)] decode_instruction_Ok [OF assms(2)]
  by (fastforce simp: table_ok_def sorted_wrt_append)

lemma decode_loop_table_ok:
  assumes "decode_loop code pc decoded r = Ok (decoded', r')" and "table_ok code pc decoded"
    and "r \<longleftrightarrow> (\<exists>i \<in> snd ` set decoded. in_op i = 0x03)"
  shows "table_ok code (length code) decoded' \<and> (r' \<longleftrightarrow> (\<exists>i \<in> snd ` set decoded'. in_op i = 0x03))"
  using assms
proof (induction code pc decoded r rule: decode_loop.induct)
  case (1 code pc decoded r)
  show ?case
  proof (cases "pc < length code")
    case True
    with 1(2) obtain i where small: "length decoded < MAX_INSTRUCTIONS" and i: "decode_instruction code pc = Ok i"
      and rest: "decode_loop code (in_next i) (decoded @ [(pc, i)]) (r \<or> in_op i = 0x03) = Ok (decoded', r')"
      by (subst (asm) decode_loop.simps) (auto simp: not_le split: if_splits sum.splits)
    show ?thesis
      by (rule 1(1) [OF True _ i rest table_ok_snoc [OF 1(3) i small]]) (use small 1(4) in auto)
  next
    case False
    then have "pc = length code" using 1(3) by (simp add: table_ok_def)
    with 1(2,3,4) show ?thesis by (subst (asm) decode_loop.simps) auto
  qed
qed

lemma instructions_Ok:
  assumes "instructions code = Ok decoded"
  shows "table_ok code (length code) decoded \<and> (\<exists>i \<in> snd ` set decoded. in_op i = 0x03) \<and>
    (\<forall>i \<in> snd ` set decoded. is_jump i \<longrightarrow> jump_target i \<in> fst ` set decoded)"
proof -
  from assms have len: "HEADER_LEN \<le> length code"
    and l: "decode_loop code HEADER_LEN [] False = Ok (decoded, True)"
    and j: "\<not> list_ex (\<lambda>i. is_jump i \<and> jump_target i \<notin> fst ` set decoded) (map snd decoded)"
    by (auto simp: instructions_def result_simps split: if_splits)
  have "table_ok code HEADER_LEN []" using len by (simp add: table_ok_def MAX_INSTRUCTIONS_def)
  from decode_loop_table_ok [OF l this] j show ?thesis by (auto simp: list_ex_iff)
qed

text \<open>Two small programs: add five to the state, and a jump over nothing.\<close>

definition sample_scalar :: bytes where
  "sample_scalar = MAGIC @ [1, 2, 0, 1, 0, 0, 0, 0, 0, 0x04, 0x01, 5, 0, 0, 0, 0, 0, 0, 0, 0x02, 0x03]"

definition sample_app :: bytes where
  "sample_app = MAGIC @ [4, 8, 0, 1, 0, 0, 0, 0, 0, 0x00, 0x20, 6, 0, 0, 0, 0x03]"

subsection \<open>Properties\<close>

text \<open>C19. Running code of versions 1 to 3 never panics, whatever bytes were submitted, whatever the
  state and the fuel limit: every index, \<open>expect\<close> and \<open>unreachable\<close> of the interpreter is guarded by
  the validator. The run ends with a result, charged within the limit exactly the memory pages plus
  the validated instruction fuel, or with one of the errors: a rejected version 4 program, code the
  validator rejects, not enough fuel, or arithmetic overflow.\<close>

theorem execute_code_total:
  "case execute_code_with_state code initial_state fuel_limit of
     None \<Rightarrow> False
   | Some (Inr r) \<Rightarrow> (\<exists>v. validate_code code = Ok v \<and> er_fuel_used r \<le> fuel_limit \<and>
       unat (er_fuel_used r) = unat (vc_memory_pages v) + unat (vc_instruction_fuel v))
   | Some (Inl e) \<Rightarrow> (e = InvalidOperand \<and> code ! 4 = APPLICATION_VERSION) \<or> e = OutOfFuel \<or> e = ArithmeticOverflow \<or>
       (\<exists>c. e = InvalidCode c \<and> validate_code code = Err c)"
proof (cases "length code > 4 \<and> code ! 4 = APPLICATION_VERSION")
  case True
  then show ?thesis by (simp add: execute_code_with_state_def)
next
  case app: False
  show ?thesis
  proof (cases "validate_code code")
    case (Inl c)
    then show ?thesis using app by (simp add: execute_code_with_state_def)
  next
    case (Inr v)
    have no_app: "code ! 4 \<noteq> APPLICATION_VERSION"
      using Inr app by (auto simp: validate_code_def HEADER_LEN_def split: if_splits)
    show ?thesis
    proof (cases "checked_add (ucast (vc_memory_pages v)) (vc_instruction_fuel v)")
      case None
      then show ?thesis using app Inr by (simp add: execute_code_with_state_def MEMORY_PAGE_COST_def)
    next
      case (Some f)
      then have "unat f = unat (ucast (vc_memory_pages v) :: u64) + unat (vc_instruction_fuel v)" by (simp only: checked_add_Some)
      also have "unat (ucast (vc_memory_pages v) :: u64) = unat (vc_memory_pages v)" by (rule unat_ucast_up) simp
      finally show ?thesis
        using machine_loop_accepted [OF accepted_from_init [OF Inr no_app], of initial_state] app Inr Some
        by (auto simp: execute_code_with_state_def MEMORY_PAGE_COST_def not_less)
    qed
  qed
qed

text \<open>C20. The validator's bounds are exact for every run of accepted code: at each reachable state the
  operand stack is within the declared limit (at most 256 items), the machine can make a step, and
  when it returns the instructions it executed cost exactly the fuel charged in advance.\<close>

theorem validated_bounds:
  assumes "validate_code code = Ok v" and "code ! 4 \<noteq> APPLICATION_VERSION" and "vm_run code initial_state fuel m"
  shows "length (ma_stack m) \<le> unat (vc_max_stack v) \<and> unat (vc_max_stack v) \<le> 256 \<and> machine_step code m \<noteq> None \<and>
    (\<forall>x. machine_step code m = Some (Ok (Return x)) \<longrightarrow>
      fuel + unat (opcode_cost (code ! ma_cursor m)) = unat (vc_instruction_fuel v))"
proof -
  have a: "accepted_from code v fuel m" by (rule vm_run_accepted [OF assms(3,1,2)])
  have "length (ma_stack m) \<le> unat (vc_max_stack v)" using a by (auto simp: accepted_from_def tracks_def)
  moreover have "unat (vc_max_stack v) \<le> 256"
    using validate_code_Ok [OF assms(1,2)] by (simp add: MAX_STACK_ITEMS_def word_le_nat_alt)
  moreover have "machine_step code m \<noteq> None"
    using accepted_from_step [OF a] by (cases "machine_step code m") simp_all
  ultimately show ?thesis using accepted_from_step [OF a] by auto
qed

theorem validated_bounds_witness:
  "\<exists>v m. validate_code sample_scalar = Ok v \<and> vm_run sample_scalar 7 2 m \<and> ma_stack m = [7] \<and>
     length (ma_stack m) \<le> unat (vc_max_stack v) \<and> machine_step sample_scalar m \<noteq> None"
proof -
  let ?v = "\<lparr>vc_entry = 0, vc_max_stack = 2, vc_memory_pages = 1, vc_instruction_count = 4, vc_instruction_fuel = 5\<rparr>"
  let ?m = "(machine_init 7)\<lparr>ma_cursor := 14, ma_stack := [7]\<rparr>"
  have v: "validate_code sample_scalar = Ok ?v" by code_simp
  have n: "sample_scalar ! 4 \<noteq> APPLICATION_VERSION" by code_simp
  have s: "machine_step sample_scalar (machine_init 7) = Some (Ok (Next ?m))" by code_simp
  have c: "unat (opcode_cost (sample_scalar ! ma_cursor (machine_init 7))) = 2" by code_simp
  have r: "vm_run sample_scalar 7 2 ?m" using vm_run.step [OF vm_run.start s] by (simp only: c add_0)
  show ?thesis using v r validated_bounds [OF v n r]
    by (intro exI [of _ ?v] exI [of _ ?m]) simp
qed

text \<open>C36. Control flow of accepted version 4 code is closed: execution proceeds from an instruction of
  the table to an instruction of the table or to the end of the code, every jump leads to the start
  of an instruction, every immediate has the length its opcode needs, positions are distinct, and
  there is a return instruction.\<close>

theorem app_control_flow_closed:
  assumes "app_validate_code code = Ok v"
  shows "\<exists>decoded. instructions code = Ok decoded \<and> unat (vc_instruction_count v) = length decoded \<and>
    table_ok code (length code) decoded \<and> HEADER_LEN \<in> fst ` set decoded \<and>
    (\<forall>i \<in> snd ` set decoded. is_jump i \<longrightarrow> jump_target i \<in> fst ` set decoded) \<and>
    (\<exists>i \<in> snd ` set decoded. in_op i = 0x03)"
proof -
  from assms obtain decoded where d: "instructions code = Ok decoded" "HEADER_LEN \<in> fst ` set decoded"
      "vc_instruction_count v = of_nat (length decoded)"
    by (auto simp: app_validate_code_def Let_def result_simps split: if_splits)
  have t: "table_ok code (length code) decoded" using instructions_Ok [OF d(1)] by simp
  then have "length decoded < 2 ^ 32" by (simp add: table_ok_def MAX_INSTRUCTIONS_def)
  then have "unat (vc_instruction_count v) = length decoded" by (simp add: d(3) unat_of_nat)
  with d t instructions_Ok [OF d(1)] show ?thesis by blast
qed

theorem app_control_flow_closed_witness:
  "\<exists>v decoded. app_validate_code sample_app = Ok v \<and> instructions sample_app = Ok decoded \<and>
     table_ok sample_app (length sample_app) decoded \<and> length decoded = 3"
proof -
  let ?v = "\<lparr>vc_entry = 0, vc_max_stack = 8, vc_memory_pages = 1, vc_instruction_count = 3, vc_instruction_fuel = 0\<rparr>"
  have "instructions sample_app = Ok [(13, \<lparr>in_op = 0x00, in_immediate = [], in_next = 14\<rparr>),
      (14, \<lparr>in_op = 0x20, in_immediate = [6, 0, 0, 0], in_next = 19\<rparr>),
      (19, \<lparr>in_op = 0x03, in_immediate = [], in_next = 20\<rparr>)]"
    by (simp add: sample_app_def MAGIC_def ascii_def instructions_def decode_loop.simps decode_instruction_def
        immediate_extent_def slice_at_def plain_opcode_def is_jump_def jump_target_def HEADER_LEN_def
        APPLICATION_VERSION_def MAX_CODE_BYTES_def MAX_INSTRUCTIONS_def)
  then have v: "app_validate_code sample_app = Ok ?v"
    by (simp add: app_validate_code_def sample_app_def MAGIC_def ascii_def u16_from_le_def u32_from_le_def
        MAX_STACK_ITEMS_def MAX_MEMORY_PAGES_def HEADER_LEN_def)
  from app_control_flow_closed [OF v] v show ?thesis by auto
qed

end
