(* ===== verification/Asset_Program.thy ===== *)
theory Asset_Program
  imports VM
begin

section \<open>Program calls and the monetary instructions\<close>

text \<open>
  \<^verbatim>\<open>kernel/src/program/system\<close>: the call envelope (\<^verbatim>\<open>script/call.rs\<close>), the asset instructions and their
  bounded decoder (\<^verbatim>\<open>asset_program/*\<close>), the monetary route shared by coins and assets
  (\<^verbatim>\<open>monetary/mod.rs\<close>), and the dispatch of a call to its decoder (\<^verbatim>\<open>script/execute.rs\<close>). The lemmas show
  that decoding is the exact inverse of encoding on validated calls, so that a payload has one
  reading and a call has one payload per route.
\<close>

subsection \<open>Call envelope\<close>

datatype program_error = UnknownProgram | UnknownOpcode | InvalidPayload | PayloadTooLarge | NoInputs
  | TooManyInputs | NoOutputs | TooManyOutputs | DuplicateInput | ZeroAmount | InvalidMetadata
  | AmountOverflow | ExecutionNotImplemented

definition MAX_PROGRAM_PAYLOAD_SIZE :: nat where "MAX_PROGRAM_PAYLOAD_SIZE = 65536"

definition MONETARY :: u32 where "MONETARY = 0"
definition ASSET :: u32 where "ASSET = 1"
definition VM_ROUTE :: u32 where "VM_ROUTE = 2"

record program_call =
  pc_program :: u32
  pc_opcode :: u8
  pc_payload :: bytes

definition enc_program_call :: "program_call \<Rightarrow> bytes" where
  "enc_program_call c = u32_le (pc_program c) @ enc_u8 (pc_opcode c) @ enc_bytes (pc_payload c)"

definition dec_program_call :: "program_call decoder" where
  "dec_program_call = dec_map (\<lambda>(program, opcode, payload). \<lparr>pc_program = program, pc_opcode = opcode, pc_payload = payload\<rparr>)
     (dec_pair dec_u32 (dec_pair dec_u8 (dec_bytes MAX_PROGRAM_PAYLOAD_SIZE)))"

definition ok_program_call :: "program_call \<Rightarrow> bool" where
  "ok_program_call c = (length (pc_payload c) \<le> MAX_PROGRAM_PAYLOAD_SIZE)"

definition decode_program_call :: "bytes \<Rightarrow> (program_call, program_error) result" where
  "decode_program_call bs =
     rbind (ok_or (dec_u32 bs) InvalidPayload) (\<lambda>(_, r).
     rbind (ok_or (dec_u8 r) InvalidPayload) (\<lambda>(_, r).
     rbind (ok_or (dec_u32 r) InvalidPayload) (\<lambda>(n, r).
     if unat n > MAX_PROGRAM_PAYLOAD_SIZE then Err PayloadTooLarge
     else ok_or (try_from_slice dec_program_call bs) InvalidPayload)))"

subsection \<open>Asset instructions\<close>

record asset_register =
  rg_name :: bytes
  rg_max_supply :: units
  rg_initial_mint :: units
  rg_mint_authority :: owner
  rg_nonce :: u64

record asset_mint =
  mi_asset :: hash
  mi_nonce :: u64
  mi_recipient :: owner
  mi_amount :: units

record asset_transfer =
  tf_asset :: hash
  tf_inputs :: "hash list"
  tf_outputs :: "asset_output list"

record asset_burn =
  bn_asset :: hash
  bn_inputs :: "hash list"
  bn_amount :: units
  bn_output :: units

datatype asset_call = Register asset_register | Mint asset_mint | Transfer asset_transfer | Burn asset_burn

definition MAX_ASSET_INPUTS :: nat where "MAX_ASSET_INPUTS = 256"
definition MAX_ASSET_OUTPUTS :: nat where "MAX_ASSET_OUTPUTS = 256"

datatype asset_opcode = OpRegister | OpMint | OpTransfer | OpBurn

fun asset_opcode_byte :: "asset_opcode \<Rightarrow> u8" where
  "asset_opcode_byte OpRegister = 0x01"
| "asset_opcode_byte OpMint = 0x02"
| "asset_opcode_byte OpTransfer = 0x03"
| "asset_opcode_byte OpBurn = 0x04"

definition asset_opcode_try_from :: "u8 \<Rightarrow> (asset_opcode, program_error) result" where
  "asset_opcode_try_from b =
     (if b = 0x01 then Ok OpRegister else if b = 0x02 then Ok OpMint else if b = 0x03 then Ok OpTransfer
      else if b = 0x04 then Ok OpBurn else Err UnknownOpcode)"

fun max_payload_size :: "asset_opcode \<Rightarrow> nat" where
  "max_payload_size OpRegister = 4096"
| "max_payload_size OpMint = 1024"
| "max_payload_size OpTransfer = 65536"
| "max_payload_size OpBurn = 32768"

definition enc_register :: "asset_register \<Rightarrow> bytes" where
  "enc_register r = enc_bytes (rg_name r) @ u128_le (rg_max_supply r) @ u128_le (rg_initial_mint r) @
     enc_owner (rg_mint_authority r) @ u64_le (rg_nonce r)"

definition dec_register :: "asset_register decoder" where
  "dec_register = dec_map
     (\<lambda>(name, max_supply, initial_mint, authority, nonce). \<lparr>rg_name = name, rg_max_supply = max_supply,
        rg_initial_mint = initial_mint, rg_mint_authority = authority, rg_nonce = nonce\<rparr>)
     (dec_pair dec_string (dec_pair dec_u128 (dec_pair dec_u128 (dec_pair dec_owner dec_u64))))"

definition enc_mint :: "asset_mint \<Rightarrow> bytes" where
  "enc_mint m = enc_array (mi_asset m) @ u64_le (mi_nonce m) @ enc_owner (mi_recipient m) @ u128_le (mi_amount m)"

definition dec_mint :: "asset_mint decoder" where
  "dec_mint = dec_map
     (\<lambda>(asset, nonce, recipient, amount). \<lparr>mi_asset = asset, mi_nonce = nonce, mi_recipient = recipient, mi_amount = amount\<rparr>)
     (dec_pair (dec_array HASH_SIZE) (dec_pair dec_u64 (dec_pair dec_owner dec_u128)))"

definition enc_transfer :: "asset_transfer \<Rightarrow> bytes" where
  "enc_transfer t = enc_array (tf_asset t) @ enc_vec enc_array (tf_inputs t) @ enc_vec enc_asset_output (tf_outputs t)"

definition enc_burn :: "asset_burn \<Rightarrow> bytes" where
  "enc_burn b = enc_array (bn_asset b) @ enc_vec enc_array (bn_inputs b) @ u128_le (bn_amount b) @ u128_le (bn_output b)"

definition bounded_vec :: "'a decoder \<Rightarrow> nat \<Rightarrow> program_error \<Rightarrow> bytes \<Rightarrow> ('a list \<times> bytes, program_error) result" where
  "bounded_vec dec maximum excess bs =
     rbind (ok_or (dec_u32 bs) InvalidPayload) (\<lambda>(n, bs).
       if unat n > maximum then Err excess else ok_or (dec_seq dec (unat n) bs) InvalidPayload)"

definition decode_transfer :: "bytes \<Rightarrow> (asset_call, program_error) result" where
  "decode_transfer payload =
     rbind (ok_or (dec_array HASH_SIZE payload) InvalidPayload) (\<lambda>(asset, r).
     rbind (bounded_vec (dec_array HASH_SIZE) MAX_ASSET_INPUTS TooManyInputs r) (\<lambda>(inputs, r).
     rbind (bounded_vec dec_asset_output MAX_ASSET_OUTPUTS TooManyOutputs r) (\<lambda>(outputs, r).
     if r \<noteq> [] then Err InvalidPayload
     else Ok (Transfer \<lparr>tf_asset = asset, tf_inputs = inputs, tf_outputs = outputs\<rparr>))))"

definition decode_burn :: "bytes \<Rightarrow> (asset_call, program_error) result" where
  "decode_burn payload =
     rbind (ok_or (dec_array HASH_SIZE payload) InvalidPayload) (\<lambda>(asset, r).
     rbind (bounded_vec (dec_array HASH_SIZE) MAX_ASSET_INPUTS TooManyInputs r) (\<lambda>(inputs, r).
     rbind (ok_or (dec_u128 r) InvalidPayload) (\<lambda>(amount, r).
     rbind (ok_or (dec_u128 r) InvalidPayload) (\<lambda>(output, r).
     if r \<noteq> [] then Err InvalidPayload
     else Ok (Burn \<lparr>bn_asset = asset, bn_inputs = inputs, bn_amount = amount, bn_output = output\<rparr>)))))"

definition validate_inputs :: "hash list \<Rightarrow> (unit, program_error) result" where
  "validate_inputs inputs =
     (if inputs = [] then Err NoInputs
      else if length inputs > MAX_ASSET_INPUTS then Err TooManyInputs
      else map_err (\<lambda>_. DuplicateInput) (ensure_unique_asset_inputs inputs))"

fun asset_call_validate :: "asset_call \<Rightarrow> (asset_call, program_error) result" where
  "asset_call_validate (Register r) =
     rbind (map_err (\<lambda>_. InvalidMetadata) (validate_asset_name (rg_name r))) (\<lambda>_.
       if rg_max_supply r = 0 \<or> rg_initial_mint r = 0 then Err ZeroAmount
       else if rg_initial_mint r > rg_max_supply r then Err AmountOverflow
       else Ok (Register r))"
| "asset_call_validate (Mint m) = (if mi_amount m = 0 then Err ZeroAmount else Ok (Mint m))"
| "asset_call_validate (Transfer t) =
     rbind (validate_inputs (tf_inputs t)) (\<lambda>_.
       if tf_outputs t = [] then Err NoOutputs
       else if length (tf_outputs t) > MAX_ASSET_OUTPUTS then Err TooManyOutputs
       else rbind (try_fold (\<lambda>total out.
           if ao_amount out = 0 then Err ZeroAmount else ok_or (checked_add total (ao_amount out)) AmountOverflow)
         0 (tf_outputs t)) (\<lambda>_. Ok (Transfer t)))"
| "asset_call_validate (Burn b) =
     rbind (validate_inputs (bn_inputs b)) (\<lambda>_. if bn_amount b = 0 then Err ZeroAmount else Ok (Burn b))"

definition asset_decode :: "u8 \<Rightarrow> bytes \<Rightarrow> (asset_call, program_error) result" where
  "asset_decode opcode payload =
     rbind (asset_opcode_try_from opcode) (\<lambda>opc.
       if length payload > max_payload_size opc then Err PayloadTooLarge
       else rbind (case opc of
           OpRegister \<Rightarrow> ok_or (map_option Register (try_from_slice dec_register payload)) InvalidPayload
         | OpMint \<Rightarrow> ok_or (map_option Mint (try_from_slice dec_mint payload)) InvalidPayload
         | OpTransfer \<Rightarrow> decode_transfer payload
         | OpBurn \<Rightarrow> decode_burn payload) asset_call_validate)"

subsection \<open>The monetary route and dispatch\<close>

datatype monetary_call = TransferCoin | AssetCall asset_call

definition COIN_TRANSFER :: u8 where "COIN_TRANSFER = 1"

definition coin_decode :: "u8 \<Rightarrow> bytes \<Rightarrow> (unit, program_error) result" where
  "coin_decode opcode payload =
     (if opcode \<noteq> COIN_TRANSFER then Err UnknownOpcode
      else if payload \<noteq> [] \<and> payload \<noteq> [0] then Err InvalidPayload else Ok ())"

definition monetary_decode :: "u8 \<Rightarrow> bytes \<Rightarrow> (monetary_call, program_error) result" where
  "monetary_decode opcode payload =
     (if opcode = 1 \<or> opcode = 4 then
        rbind (if opcode = 1 \<and> payload = [] then Ok (0 :: u8, [])
               else case payload of [] \<Rightarrow> Err InvalidPayload | currency # rest \<Rightarrow> Ok (currency, rest)) (\<lambda>(currency, rest).
          if currency = 0 then
            (if opcode = 1 then
               (if rest \<noteq> [] then Err InvalidPayload
                else rbind (coin_decode COIN_TRANSFER rest) (\<lambda>_. Ok TransferCoin))
             else Err ExecutionNotImplemented)
          else if currency = 1 then
            rbind (asset_decode (asset_opcode_byte (if opcode = 1 then OpTransfer else OpBurn)) rest) (\<lambda>c. Ok (AssetCall c))
          else Err InvalidPayload)
      else if opcode = 2 then rbind (asset_decode (asset_opcode_byte OpRegister) payload) (\<lambda>c. Ok (AssetCall c))
      else if opcode = 3 then rbind (asset_decode (asset_opcode_byte OpMint) payload) (\<lambda>c. Ok (AssetCall c))
      else Err UnknownOpcode)"

fun opcode_of :: "asset_call \<Rightarrow> asset_opcode" where
  "opcode_of (Register _) = OpRegister"
| "opcode_of (Mint _) = OpMint"
| "opcode_of (Transfer _) = OpTransfer"
| "opcode_of (Burn _) = OpBurn"

fun enc_asset_call :: "asset_call \<Rightarrow> bytes" where
  "enc_asset_call (Register r) = enc_register r"
| "enc_asset_call (Mint m) = enc_mint m"
| "enc_asset_call (Transfer t) = enc_transfer t"
| "enc_asset_call (Burn b) = enc_burn b"

definition transfer_coin :: program_call where
  "transfer_coin = \<lparr>pc_program = MONETARY, pc_opcode = 1, pc_payload = [0]\<rparr>"


definition monetary_asset_call :: "asset_call \<Rightarrow> (program_call, program_error) result" where
  "monetary_asset_call c =
     (let (opcode, currency) = (case opcode_of c of
          OpRegister \<Rightarrow> (2, []) | OpMint \<Rightarrow> (3, []) | OpTransfer \<Rightarrow> (1, [1]) | OpBurn \<Rightarrow> (4, [1 :: u8]));
          call = \<lparr>pc_program = MONETARY, pc_opcode = opcode, pc_payload = currency @ enc_asset_call c\<rparr>
      in rbind (monetary_decode (pc_opcode call) (pc_payload call)) (\<lambda>_. Ok call))"

definition call_input :: "program_call \<Rightarrow> (program_id \<times> bytes, code_error) result" where
  "call_input c =
     (if pc_program c \<noteq> VM_ROUTE \<or> (pc_opcode c \<noteq> 0 \<and> pc_opcode c \<noteq> 1) \<or> length (pc_payload c) < 32 \<or>
         length (pc_payload c) > 32 + MAX_DATA_BYTES \<or> (pc_opcode c = 0 \<and> length (pc_payload c) \<noteq> 32)
      then Err InvalidInstruction
      else Ok (take 32 (pc_payload c), drop 32 (pc_payload c)))"

datatype decoded_program_call = XpqTransfer | DecodedAsset asset_call | Vm program_id

definition decode_program :: "program_call \<Rightarrow> (decoded_program_call, program_error) result" where
  "decode_program c =
     (if pc_program c = MONETARY then
        rbind (monetary_decode (pc_opcode c) (pc_payload c)) (\<lambda>m. case m of
            TransferCoin \<Rightarrow> Ok XpqTransfer
          | AssetCall a \<Rightarrow> Ok (DecodedAsset a))
      else if pc_program c = ASSET then rbind (asset_decode (pc_opcode c) (pc_payload c)) (\<lambda>a. Ok (DecodedAsset a))
      else if pc_program c = VM_ROUTE then
        rbind (map_err (\<lambda>_. InvalidPayload) (call_input c)) (\<lambda>(i, _). Ok (Vm i))
      else Err program_error.UnknownProgram)"

subsection \<open>Wire instances\<close>

lemma codec_bytes:
  assumes "maximum \<le> U32_MAX"
  shows "codec enc_bytes (dec_bytes maximum) (\<lambda>bs. length bs \<le> maximum)"
proof -
  have "ok_vec maximum (\<lambda>_. True) = (\<lambda>bs :: bytes. length bs \<le> maximum)" by (auto simp: ok_vec_def list_all_iff)
  then show ?thesis using codec_vec [OF u8c.codec_axioms assms] by (simp add: enc_bytes_def dec_bytes_def)
qed

interpretation program_callc: codec enc_program_call dec_program_call ok_program_call
proof -
  have le: "MAX_PROGRAM_PAYLOAD_SIZE \<le> U32_MAX" by (simp add: MAX_PROGRAM_PAYLOAD_SIZE_def U32_MAX_def)
  show "codec enc_program_call dec_program_call ok_program_call"
    unfolding dec_program_call_def
    by (rule codec_struct [OF codec_pair [OF u32c.codec_axioms codec_pair [OF u8c.codec_axioms codec_bytes [OF le]]],
        where g = "\<lambda>c. (pc_program c, pc_opcode c, pc_payload c)"])
      (auto simp: enc_program_call_def enc_pair_def ok_program_call_def)
qed

definition ok_register :: "asset_register \<Rightarrow> bool" where
  "ok_register r = (length (rg_name r) \<le> U32_MAX \<and> utf8_valid (rg_name r) \<and> ok_owner (rg_mint_authority r))"

interpretation registerc: codec enc_register dec_register ok_register
  unfolding dec_register_def
  by (rule codec_struct [OF codec_pair [OF stringc.codec_axioms codec_pair [OF u128c.codec_axioms codec_pair
        [OF u128c.codec_axioms codec_pair [OF ownerc.codec_axioms u64c.codec_axioms]]]],
        where g = "\<lambda>r. (rg_name r, rg_max_supply r, rg_initial_mint r, rg_mint_authority r, rg_nonce r)"])
    (auto simp: enc_register_def enc_pair_def ok_register_def)

definition ok_mint :: "asset_mint \<Rightarrow> bool" where
  "ok_mint m = (length (mi_asset m) = HASH_SIZE \<and> ok_owner (mi_recipient m))"

interpretation mintc: codec enc_mint dec_mint ok_mint
  unfolding dec_mint_def
  by (rule codec_struct [OF codec_pair [OF arrayc.codec_axioms codec_pair [OF u64c.codec_axioms codec_pair
        [OF ownerc.codec_axioms u128c.codec_axioms]]],
        where g = "\<lambda>m. (mi_asset m, mi_nonce m, mi_recipient m, mi_amount m)"])
    (auto simp: enc_mint_def enc_pair_def ok_mint_def)

lemma inputsc: "codec (enc_vec enc_array) (dec_vec MAX_ASSET_INPUTS (dec_array HASH_SIZE))
    (ok_vec MAX_ASSET_INPUTS (\<lambda>h. length h = HASH_SIZE))"
  by (rule codec_vec [OF arrayc.codec_axioms]) (simp add: MAX_ASSET_INPUTS_def U32_MAX_def)

lemma outputsc: "codec (enc_vec enc_asset_output) (dec_vec MAX_ASSET_OUTPUTS dec_asset_output)
    (ok_vec MAX_ASSET_OUTPUTS ok_asset_output)"
  by (rule codec_vec [OF asset_outputc.codec_axioms]) (simp add: MAX_ASSET_OUTPUTS_def U32_MAX_def)

lemma bounded_vec_Ok: "bounded_vec dec n e bs = Ok (xs, rest) \<longleftrightarrow> dec_vec n dec bs = Some (xs, rest)"
  by (auto simp: bounded_vec_def dec_vec_def result_simps bind_eq_Some_conv split: if_splits)

lemma bounded_inputs:
  "ok_vec MAX_ASSET_INPUTS (\<lambda>h. length h = HASH_SIZE) xs \<Longrightarrow>
     bounded_vec (dec_array HASH_SIZE) MAX_ASSET_INPUTS e (enc_vec enc_array xs @ rest) = Ok (xs, rest)"
  unfolding bounded_vec_Ok by (rule codec.dec_enc [OF inputsc])

lemma bounded_outputs:
  "ok_vec MAX_ASSET_OUTPUTS ok_asset_output xs \<Longrightarrow>
     bounded_vec dec_asset_output MAX_ASSET_OUTPUTS e (enc_vec enc_asset_output xs) = Ok (xs, [])"
  unfolding bounded_vec_Ok by (rule codec.dec_enc_whole [OF outputsc])

fun ok_asset_call :: "asset_call \<Rightarrow> bool" where
  "ok_asset_call (Register r) = ok_register r"
| "ok_asset_call (Mint m) = ok_mint m"
| "ok_asset_call (Transfer t) = (length (tf_asset t) = HASH_SIZE \<and>
     ok_vec MAX_ASSET_INPUTS (\<lambda>h. length h = HASH_SIZE) (tf_inputs t) \<and> ok_vec MAX_ASSET_OUTPUTS ok_asset_output (tf_outputs t))"
| "ok_asset_call (Burn b) = (length (bn_asset b) = HASH_SIZE \<and>
     ok_vec MAX_ASSET_INPUTS (\<lambda>h. length h = HASH_SIZE) (bn_inputs b))"

lemma decode_transfer_enc: "ok_asset_call (Transfer t) \<Longrightarrow> decode_transfer (enc_transfer t) = Ok (Transfer t)"
  by (simp add: decode_transfer_def enc_transfer_def arrayc.dec_enc bounded_inputs bounded_outputs)

lemma decode_transfer_Ok:
  assumes "decode_transfer payload = Ok c"
  shows "\<exists>t. c = Transfer t \<and> ok_asset_call c \<and> payload = enc_transfer t"
proof -
  from assms obtain a r1 i r2 p where d: "dec_array HASH_SIZE payload = Some (a, r1)"
      "dec_vec MAX_ASSET_INPUTS (dec_array HASH_SIZE) r1 = Some (i, r2)"
      "dec_vec MAX_ASSET_OUTPUTS dec_asset_output r2 = Some (p, [])"
      "c = Transfer \<lparr>tf_asset = a, tf_inputs = i, tf_outputs = p\<rparr>"
    by (auto simp: decode_transfer_def result_simps bounded_vec_Ok split: if_splits)
  then show ?thesis
    using arrayc.enc_dec [OF d(1)] codec.enc_dec [OF inputsc d(2)] codec.enc_dec [OF outputsc d(3)]
    by (simp add: enc_transfer_def)
qed

lemma decode_burn_enc: "ok_asset_call (Burn b) \<Longrightarrow> decode_burn (enc_burn b) = Ok (Burn b)"
  using u128c.dec_enc_whole [of "bn_output b"]
  by (simp add: decode_burn_def enc_burn_def arrayc.dec_enc bounded_inputs u128c.dec_enc)

lemma decode_burn_Ok:
  assumes "decode_burn payload = Ok c"
  shows "\<exists>b. c = Burn b \<and> ok_asset_call c \<and> payload = enc_burn b"
proof -
  from assms obtain a r1 i r2 x r3 y where d: "dec_array HASH_SIZE payload = Some (a, r1)"
      "dec_vec MAX_ASSET_INPUTS (dec_array HASH_SIZE) r1 = Some (i, r2)"
      "dec_u128 r2 = Some (x, r3)" "dec_u128 r3 = Some (y, [])"
      "c = Burn \<lparr>bn_asset = a, bn_inputs = i, bn_amount = x, bn_output = y\<rparr>"
    by (auto simp: decode_burn_def result_simps bounded_vec_Ok split: if_splits)
  then show ?thesis
    using arrayc.enc_dec [OF d(1)] codec.enc_dec [OF inputsc d(2)] u128c.enc_dec [OF d(3)] u128c.enc_dec [OF d(4)]
    by (simp add: enc_burn_def)
qed

subsection \<open>Decoding is exact\<close>

lemma asset_call_validate_id: "asset_call_validate c = Ok c' \<Longrightarrow> c' = c"
  by (cases c) (auto simp: result_simps split: if_splits)

lemma asset_opcode_roundtrip: "asset_opcode_try_from b = Ok x \<longleftrightarrow> b = asset_opcode_byte x"
  by (cases x) (auto simp: asset_opcode_try_from_def split: if_splits)

definition asset_call_accepted :: "asset_call \<Rightarrow> bool" where
  "asset_call_accepted c \<longleftrightarrow> ok_asset_call c \<and> length (enc_asset_call c) \<le> max_payload_size (opcode_of c) \<and>
     asset_call_validate c = Ok c"

lemma asset_decode_iff:
  "asset_decode opcode payload = Ok c \<longleftrightarrow>
     opcode = asset_opcode_byte (opcode_of c) \<and> payload = enc_asset_call c \<and> asset_call_accepted c"
proof
  assume "asset_decode opcode payload = Ok c"
  then obtain x where x: "opcode = asset_opcode_byte x" "length payload \<le> max_payload_size x"
    and d: "rbind (case x of
           OpRegister \<Rightarrow> ok_or (map_option Register (try_from_slice dec_register payload)) InvalidPayload
         | OpMint \<Rightarrow> ok_or (map_option Mint (try_from_slice dec_mint payload)) InvalidPayload
         | OpTransfer \<Rightarrow> decode_transfer payload
         | OpBurn \<Rightarrow> decode_burn payload) asset_call_validate = Ok c"
    by (auto simp: asset_decode_def result_simps asset_opcode_roundtrip not_less split: if_splits)
  from d have "asset_call_validate c = Ok c" by (auto simp: result_simps dest: asset_call_validate_id)
  with d x show "opcode = asset_opcode_byte (opcode_of c) \<and> payload = enc_asset_call c \<and> asset_call_accepted c"
    unfolding asset_call_accepted_def
    by (cases x) (auto simp: result_simps registerc.try_from_slice_iff mintc.try_from_slice_iff
        dest!: asset_call_validate_id decode_transfer_Ok decode_burn_Ok)
next
  assume "opcode = asset_opcode_byte (opcode_of c) \<and> payload = enc_asset_call c \<and> asset_call_accepted c"
  then show "asset_decode opcode payload = Ok c"
    unfolding asset_call_accepted_def
    by (cases c) (auto simp: asset_decode_def asset_opcode_roundtrip [THEN iffD2, OF refl] registerc.try_from_slice_iff [THEN iffD2]
        mintc.try_from_slice_iff [THEN iffD2] decode_transfer_enc decode_burn_enc
        simp del: asset_call_validate.simps asset_opcode_byte.simps)
qed


lemma decode_program_call_iff:
  "decode_program_call bs = Ok c \<longleftrightarrow> ok_program_call c \<and> bs = enc_program_call c"
proof
  assume "decode_program_call bs = Ok c"
  then have "try_from_slice dec_program_call bs = Some c"
    by (auto simp: decode_program_call_def result_simps split: if_splits)
  then show "ok_program_call c \<and> bs = enc_program_call c" by (simp only: program_callc.try_from_slice_iff)
next
  assume c: "ok_program_call c \<and> bs = enc_program_call c"
  then have "length (pc_payload c) \<le> U32_MAX" by (simp add: ok_program_call_def MAX_PROGRAM_PAYLOAD_SIZE_def U32_MAX_def)
  then have n: "unat (of_nat (length (pc_payload c)) :: u32) = length (pc_payload c)"
    by (simp add: unat_of_nat U32_MAX_def)
  have "try_from_slice dec_program_call (enc_program_call c) = Some c"
    using c by (simp only: program_callc.try_from_slice_iff)
  with c n show "decode_program_call bs = Ok c"
    by (simp add: decode_program_call_def enc_program_call_def enc_bytes_def enc_vec_def codec_enc
        ok_program_call_def not_less)
qed

lemma monetary_asset_call_Ok:
  assumes "asset_call_accepted c"
  shows "\<exists>call. monetary_asset_call c = Ok call \<and> decode_program call = Ok (DecodedAsset c)"
proof -
  have d: "asset_decode (asset_opcode_byte (opcode_of c)) (enc_asset_call c) = Ok c"
    using assms by (simp only: asset_decode_iff)
  show ?thesis
  proof (cases c)
    case (Register r)
    with d have "monetary_decode 2 (enc_asset_call c) = Ok (AssetCall c)" by (simp add: monetary_decode_def)
    with Register show ?thesis by (simp add: monetary_asset_call_def Let_def decode_program_def)
  next
    case (Mint m)
    with d have "monetary_decode 3 (enc_asset_call c) = Ok (AssetCall c)" by (simp add: monetary_decode_def)
    with Mint show ?thesis by (simp add: monetary_asset_call_def Let_def decode_program_def)
  next
    case (Transfer t)
    with d have "monetary_decode 1 (1 # enc_asset_call c) = Ok (AssetCall c)" by (simp add: monetary_decode_def)
    with Transfer show ?thesis by (simp add: monetary_asset_call_def Let_def decode_program_def)
  next
    case (Burn b)
    with d have "monetary_decode 4 (1 # enc_asset_call c) = Ok (AssetCall c)" by (simp add: monetary_decode_def)
    with Burn show ?thesis by (simp add: monetary_asset_call_def Let_def decode_program_def)
  qed
qed

subsection \<open>Properties\<close>

text \<open>C38. Program calls and asset instructions have one encoding: an envelope decodes exactly when it is
  the encoding of a call within the payload limit, and an asset payload decodes to a call exactly
  when the opcode is the call's, the payload is the call's encoding within its size limit, and the
  call passes validation (name, amounts, number and uniqueness of inputs, number of outputs).\<close>

theorem asset_payload_canonical:
  "(decode_program_call bs = Ok envelope \<longleftrightarrow> ok_program_call envelope \<and> bs = enc_program_call envelope) \<and>
   (asset_decode opcode payload = Ok c \<longleftrightarrow>
      opcode = asset_opcode_byte (opcode_of c) \<and> payload = enc_asset_call c \<and> ok_asset_call c \<and>
      length payload \<le> max_payload_size (opcode_of c) \<and> asset_call_validate c = Ok c)"
  using decode_program_call_iff asset_decode_iff by (auto simp: asset_call_accepted_def)

text \<open>The monetary route is faithful: the call built for an accepted asset instruction is dispatched
  back to that instruction, whichever of the four it is, and the native transfer call is
  dispatched to the native coin transfer.\<close>

theorem monetary_route_roundtrip:
  assumes "asset_call_accepted c"
  shows "(\<exists>call. monetary_asset_call c = Ok call \<and> decode_program call = Ok (DecodedAsset c)) \<and>
    decode_program transfer_coin = Ok XpqTransfer"
  using monetary_asset_call_Ok [OF assms]
  by (simp add: decode_program_def transfer_coin_def monetary_decode_def coin_decode_def)

theorem monetary_route_roundtrip_witness:
  "let c = Mint \<lparr>mi_asset = replicate 32 1, mi_nonce = 1, mi_recipient = owner.Program (replicate 32 2), mi_amount = 9\<rparr>
   in asset_call_accepted c \<and> (\<exists>call. monetary_asset_call c = Ok call \<and> decode_program call = Ok (DecodedAsset c))"
proof -
  let ?m = "\<lparr>mi_asset = replicate 32 1, mi_nonce = 1, mi_recipient = owner.Program (replicate 32 2), mi_amount = 9\<rparr>"
  have "asset_call_accepted (Mint ?m)"
    by (simp add: asset_call_accepted_def ok_mint_def ok_owner_def HASH_SIZE_def enc_mint_def enc_owner_def enc_array_def)
  with monetary_route_roundtrip [OF this] show ?thesis by (simp add: Let_def)
qed

end
