(* ===== verification/Asset_State.thy ===== *)
theory Asset_State
  imports Asset_Program Tables
begin

section \<open>Asset accounting\<close>

text \<open>
  \<^verbatim>\<open>kernel/src/ledger/utxo/asset\<close>: the asset records and live shares, the derived owner, balance and
  role indexes (\<^verbatim>\<open>index.rs\<close>), the four monetary operations (\<^verbatim>\<open>operations.rs\<close>) and the sparse journals that
  undo them (\<^verbatim>\<open>journal.rs\<close>). A call returns the state it leaves behind together with its result, because
  a failing call mutates and then rolls back. The supply audit cache of \<^verbatim>\<open>supply.rs\<close> is not modelled.

  Lemma groups: the indexes are functions of records and shares (\<open>indexed\<close>, \<open>balanced\<close>); every operation
  preserves the supply equations (\<open>supply_inv\<close>); an operation touches only its footprint, and the
  journal of its footprint undoes it.
\<close>

subsection \<open>State\<close>

record asset_state =
  st_records :: "hash \<rightharpoonup> asset_record"
  st_shares :: "hash \<rightharpoonup> asset_share"
  st_by_owner :: "owner \<rightharpoonup> hash \<rightharpoonup> hash set"
  st_balances :: "owner \<times> hash \<rightharpoonup> units"
  st_roles :: "owner \<rightharpoonup> hash set"

definition asset_default :: asset_state where
  "asset_default = \<lparr>st_records = Map.empty, st_shares = Map.empty, st_by_owner = Map.empty,
     st_balances = Map.empty, st_roles = Map.empty\<rparr>"

record execution_context =
  cx_actor :: owner
  cx_commitment :: hash

record asset_journal =
  aj_records :: "(hash \<times> asset_record option) list"
  aj_shares :: "(hash \<times> asset_share option) list"

subsection \<open>Shares and their indexes\<close>

definition file_share :: "(owner \<rightharpoonup> hash \<rightharpoonup> hash set) \<Rightarrow> owner \<Rightarrow> hash \<Rightarrow> hash \<Rightarrow> (owner \<rightharpoonup> hash \<rightharpoonup> hash set)" where
  "file_share m x a i = m(x \<mapsto> index_add (case m x of None \<Rightarrow> Map.empty | Some assets \<Rightarrow> assets) a i)"

definition unfile_share :: "(owner \<rightharpoonup> hash \<rightharpoonup> hash set) \<Rightarrow> owner \<Rightarrow> hash \<Rightarrow> hash \<Rightarrow> (owner \<rightharpoonup> hash \<rightharpoonup> hash set)" where
  "unfile_share m x a i = (case m x of
     None \<Rightarrow> m
   | Some assets \<Rightarrow>
       let assets' = index_remove assets a i in
       if assets' = Map.empty then m(x := None) else m(x \<mapsto> assets'))"

definition unit_or_zero :: "units option \<Rightarrow> units" where
  "unit_or_zero b = (case b of None \<Rightarrow> 0 | Some v \<Rightarrow> v)"

definition remove_share :: "asset_state \<Rightarrow> hash \<Rightarrow> asset_state \<times> asset_share option" where
  "remove_share st i = (case st_shares st i of
     None \<Rightarrow> (st, None)
   | Some share \<Rightarrow>
       let key = (as_owner share, as_asset share);
           balance = unit_or_zero (Option.bind (st_balances st key) (\<lambda>b. checked_sub b (as_amount share)))
       in (st\<lparr>st_shares := (st_shares st)(i := None),
              st_by_owner := unfile_share (st_by_owner st) (as_owner share) (as_asset share) i,
              st_balances := (if balance = 0 then (st_balances st)(key := None) else (st_balances st)(key \<mapsto> balance))\<rparr>,
           Some share))"

definition put_share :: "asset_state \<Rightarrow> hash \<Rightarrow> asset_share \<Rightarrow> asset_state" where
  "put_share st i share =
     (if st_shares st i = Some share then st
      else let st = fst (remove_share st i); key = (as_owner share, as_asset share) in
        st\<lparr>st_by_owner := file_share (st_by_owner st) (as_owner share) (as_asset share) i,
           st_balances := (st_balances st)(key \<mapsto> saturating_add (unit_or_zero (st_balances st key)) (as_amount share)),
           st_shares := (st_shares st)(i \<mapsto> share)\<rparr>)"

definition input_total :: "asset_state \<Rightarrow> hash \<Rightarrow> hash list \<Rightarrow> owner \<Rightarrow> (units, asset_error) result" where
  "input_total st asset inputs actor =
     try_fold (\<lambda>total i.
       rbind (ok_or (st_shares st i) UnknownObject) (\<lambda>share.
         if as_asset share \<noteq> asset then Err AssetMismatch
         else if as_owner share \<noteq> actor then Err Unauthorized
         else ok_or (checked_add total (as_amount share)) BalanceOverflow)) 0 inputs"

definition insert_share ::
    "(bytes \<Rightarrow> hash) \<Rightarrow> asset_state \<Rightarrow> hash \<Rightarrow> hash \<Rightarrow> nat \<Rightarrow> units \<Rightarrow> owner \<Rightarrow> (asset_state, asset_error) result" where
  "insert_share sha3 st asset commitment index amount owner =
     rbind (ok_or (try_from_nat index) InvalidProgram) (\<lambda>index.
       let i = share_derive sha3 asset commitment index in
       if i \<in> dom (st_shares st) then Err ShareAlreadyExists
       else Ok (put_share st i \<lparr>as_asset = asset, as_amount = amount, as_owner = owner\<rparr>))"

definition index_asset_role :: "asset_state \<Rightarrow> hash \<Rightarrow> owner \<Rightarrow> asset_state" where
  "index_asset_role st asset x = st\<lparr>st_roles := index_add (st_roles st) x asset\<rparr>"

definition unindex_asset_role :: "asset_state \<Rightarrow> hash \<Rightarrow> owner \<Rightarrow> asset_state" where
  "unindex_asset_role st asset x = st\<lparr>st_roles := index_remove (st_roles st) x asset\<rparr>"

definition rebuild_owner_index :: "asset_state \<Rightarrow> asset_state" where
  "rebuild_owner_index st = st\<lparr>
     st_by_owner := fold (\<lambda>(i, share) m. file_share m (as_owner share) (as_asset share) i)
       (map_entries (st_shares st)) Map.empty,
     st_balances := fold (\<lambda>(i, share) m. let key = (as_owner share, as_asset share) in
         m(key \<mapsto> saturating_add (unit_or_zero (m key)) (as_amount share)))
       (map_entries (st_shares st)) Map.empty,
     st_roles := fold (\<lambda>(a, r) m. index_add (index_add m (md_creator (ar_metadata r)) a) (md_mint_authority (ar_metadata r)) a)
       (map_entries (st_records st)) Map.empty\<rparr>"

definition balance_by_owner_asset :: "asset_state \<Rightarrow> owner \<Rightarrow> hash \<Rightarrow> units" where
  "balance_by_owner_asset st x a = unit_or_zero (st_balances st (x, a))"

definition share_count_by_owner_asset :: "asset_state \<Rightarrow> owner \<Rightarrow> hash \<Rightarrow> nat" where
  "share_count_by_owner_asset st x a =
     (case Option.bind (st_by_owner st x) (\<lambda>assets. assets a) of None \<Rightarrow> 0 | Some ids \<Rightarrow> card ids)"

definition shares_by_owner_asset :: "asset_state \<Rightarrow> owner \<Rightarrow> hash \<Rightarrow> (hash \<times> asset_share) list" where
  "shares_by_owner_asset st x a =
     List.map_filter (\<lambda>i. case st_shares st i of
         None \<Rightarrow> None
       | Some share \<Rightarrow> if as_owner share = x \<and> as_asset share = a then Some (i, share) else None)
       (case Option.bind (st_by_owner st x) (\<lambda>assets. assets a) of None \<Rightarrow> [] | Some ids \<Rightarrow> sorted_list_of_set ids)"

subsection \<open>Journals\<close>

definition operation_footprint ::
    "(bytes \<Rightarrow> hash) \<Rightarrow> asset_call \<Rightarrow> execution_context \<Rightarrow> (hash \<times> hash list \<times> nat, asset_error) result" where
  "operation_footprint sha3 call cx = (case call of
     Register r \<Rightarrow>
       rbind (metadata_new (rg_name r) (rg_max_supply r) (cx_actor cx) (rg_mint_authority r)) (\<lambda>m.
       rbind (asset_contract_derive sha3 m (rg_nonce r)) (\<lambda>asset. Ok (asset, [], 1)))
   | Mint m \<Rightarrow> Ok (mi_asset m, [], 1)
   | Transfer t \<Rightarrow> Ok (tf_asset t, tf_inputs t, length (tf_outputs t))
   | Burn b \<Rightarrow> Ok (bn_asset b, bn_inputs b, if bn_output b \<noteq> 0 then 1 else 0))"

definition snapshot_operation ::
    "(bytes \<Rightarrow> hash) \<Rightarrow> asset_state \<Rightarrow> asset_call \<Rightarrow> execution_context \<Rightarrow> (asset_journal, asset_error) result" where
  "snapshot_operation sha3 st call cx =
     rbind (operation_footprint sha3 call cx) (\<lambda>(asset, inputs, outputs).
     rbind (collect (map (\<lambda>k. rbind (ok_or (try_from_nat k) InvalidProgram) (\<lambda>k. Ok (share_derive sha3 asset (cx_commitment cx) k)))
         [0..<outputs])) (\<lambda>derived.
     Ok \<lparr>aj_records = [(asset, st_records st asset)],
         aj_shares = map (\<lambda>i. (i, st_shares st i)) (sorted_list_of_set (set inputs \<union> set derived))\<rparr>))"

definition rollback_record :: "hash \<times> asset_record option \<Rightarrow> asset_state \<Rightarrow> asset_state" where
  "rollback_record = (\<lambda>(key, previous) st.
     let current = st_records st key in
     if current = previous then st
     else
       let st = (case current of
             None \<Rightarrow> st
           | Some r \<Rightarrow> unindex_asset_role (unindex_asset_role st key (md_creator (ar_metadata r))) key
                         (md_mint_authority (ar_metadata r)))
       in (case previous of
             Some r \<Rightarrow>
               let st = index_asset_role (index_asset_role st key (md_creator (ar_metadata r))) key
                          (md_mint_authority (ar_metadata r))
               in st\<lparr>st_records := (st_records st)(key \<mapsto> r)\<rparr>
           | None \<Rightarrow> st\<lparr>st_records := (st_records st)(key := None)\<rparr>))"

definition rollback_share :: "hash \<times> asset_share option \<Rightarrow> asset_state \<Rightarrow> asset_state" where
  "rollback_share = (\<lambda>(key, previous) st. case previous of
     Some share \<Rightarrow> put_share st key share
   | None \<Rightarrow> fst (remove_share st key))"

definition asset_rollback :: "asset_state \<Rightarrow> asset_journal \<Rightarrow> asset_state" where
  "asset_rollback st j = fold rollback_share (aj_shares j) (fold rollback_record (aj_records j) st)"

text \<open>\<open>merge\<close> keeps the first snapshot of a key; a journal lists its keys in order.\<close>

definition merge_entries :: "('k::linorder \<times> 'v) list \<Rightarrow> ('k \<times> 'v) list \<Rightarrow> ('k \<times> 'v) list" where
  "merge_entries xs ys = map_entries (fold (\<lambda>(k, v) m. if m k = None then m(k \<mapsto> v) else m) ys (map_of (rev xs)))"

definition journal_merge :: "asset_journal \<Rightarrow> asset_journal \<Rightarrow> asset_journal" where
  "journal_merge j next = \<lparr>aj_records = merge_entries (aj_records j) (aj_records next),
     aj_shares = merge_entries (aj_shares j) (aj_shares next)\<rparr>"

definition operation_view ::
    "(bytes \<Rightarrow> hash) \<Rightarrow> asset_state \<Rightarrow> asset_call \<Rightarrow> execution_context \<Rightarrow> (asset_state, asset_error) result" where
  "operation_view sha3 st call cx =
     rbind (snapshot_operation sha3 st call cx) (\<lambda>j.
       Ok (rebuild_owner_index (asset_default\<lparr>
         st_records := map_of (List.map_filter (\<lambda>(k, v). map_option (\<lambda>v. (k, v)) v) (aj_records j)),
         st_shares := map_of (List.map_filter (\<lambda>(k, v). map_option (\<lambda>v. (k, v)) v) (aj_shares j))\<rparr>)))"


subsection \<open>The monetary operations\<close>

text \<open>Each operation yields the state it leaves and its result; an early return keeps the state.\<close>

fun insert_outputs ::
    "(bytes \<Rightarrow> hash) \<Rightarrow> asset_state \<Rightarrow> hash \<Rightarrow> hash \<Rightarrow> nat \<Rightarrow> asset_output list \<Rightarrow> asset_state \<times> (unit, asset_error) result" where
  "insert_outputs sha3 st asset commitment index [] = (st, Ok ())"
| "insert_outputs sha3 st asset commitment index (out # outs) =
     (case insert_share sha3 st asset commitment index (ao_amount out) (ao_recipient out) of
        Inl e \<Rightarrow> (st, Err e)
      | Inr st' \<Rightarrow> insert_outputs sha3 st' asset commitment (Suc index) outs)"

definition remove_inputs :: "asset_state \<Rightarrow> hash list \<Rightarrow> asset_state" where
  "remove_inputs st inputs = foldl (\<lambda>st i. fst (remove_share st i)) st inputs"

definition op_register ::
    "(bytes \<Rightarrow> hash) \<Rightarrow> asset_state \<Rightarrow> asset_register \<Rightarrow> execution_context \<Rightarrow> (asset_state, asset_error) result" where
  "op_register sha3 st r cx =
     rbind (metadata_new (rg_name r) (rg_max_supply r) (cx_actor cx) (rg_mint_authority r)) (\<lambda>m.
     if rg_initial_mint r = 0 \<or> rg_initial_mint r > rg_max_supply r then Err InvalidAmount
     else rbind (asset_contract_derive sha3 m (rg_nonce r)) (\<lambda>asset.
     if asset \<in> dom (st_records st) then Err AssetAlreadyExists
     else rbind (insert_share sha3 st asset (cx_commitment cx) 0 (rg_initial_mint r) (cx_actor cx)) (\<lambda>st.
     let st = st\<lparr>st_records := (st_records st)(asset \<mapsto>
           \<lparr>ar_metadata = m, ar_supply = rg_initial_mint r, ar_total_minted = rg_initial_mint r,
            ar_mint_nonce = 0, ar_total_burned = 0\<rparr>)\<rparr>
     in Ok (index_asset_role (index_asset_role st asset (cx_actor cx)) asset (rg_mint_authority r)))))"

definition op_mint ::
    "(bytes \<Rightarrow> hash) \<Rightarrow> asset_state \<Rightarrow> asset_mint \<Rightarrow> execution_context \<Rightarrow> asset_state \<times> (unit, asset_error) result" where
  "op_mint sha3 st c cx =
     (case (if mi_amount c = 0 then Err InvalidAmount
            else rbind (ok_or (st_records st (mi_asset c)) UnknownAsset) (\<lambda>r.
              if md_mint_authority (ar_metadata r) \<noteq> cx_actor cx then Err Unauthorized
              else rbind (ok_or (checked_add (ar_mint_nonce r) 1) InvalidMintNonce) (\<lambda>expected.
              if mi_nonce c \<noteq> expected then Err InvalidMintNonce
              else rbind (ok_or (checked_add (ar_supply r) (mi_amount c)) SupplyOverflow) (\<lambda>supply.
              if supply > md_max_supply (ar_metadata r) then Err SupplyOverflow
              else rbind (ok_or (checked_add (ar_total_minted r) (mi_amount c)) SupplyOverflow) (\<lambda>minted.
              if minted > md_max_supply (ar_metadata r) then Err SupplyOverflow
              else rbind (insert_share sha3 st (mi_asset c) (cx_commitment cx) 0 (mi_amount c) (mi_recipient c)) (\<lambda>st'.
              Ok (st', supply, minted))))))) of
        Inl e \<Rightarrow> (st, Err e)
      | Inr (st', supply, minted) \<Rightarrow>
          (case st_records st' (mi_asset c) of
             None \<Rightarrow> (st', Err UnknownAsset)
           | Some r \<Rightarrow> (st'\<lparr>st_records := (st_records st')(mi_asset c \<mapsto>
               r\<lparr>ar_supply := supply, ar_total_minted := minted, ar_mint_nonce := mi_nonce c\<rparr>)\<rparr>, Ok ())))"

definition output_total :: "asset_output list \<Rightarrow> (units, asset_error) result" where
  "output_total outs = try_fold (\<lambda>total out.
     if ao_amount out = 0 then Err InvalidAmount else ok_or (checked_add total (ao_amount out)) BalanceOverflow) 0 outs"

definition op_transfer ::
    "(bytes \<Rightarrow> hash) \<Rightarrow> asset_state \<Rightarrow> asset_transfer \<Rightarrow> execution_context \<Rightarrow> asset_state \<times> (unit, asset_error) result" where
  "op_transfer sha3 st c cx =
     (case (if tf_asset c \<notin> dom (st_records st) then Err UnknownAsset
            else if tf_inputs c = [] \<or> tf_outputs c = [] then Err InvalidProgram
            else rbind (ensure_unique_asset_inputs (tf_inputs c)) (\<lambda>_.
              rbind (input_total st (tf_asset c) (tf_inputs c) (cx_actor cx)) (\<lambda>total_in.
              rbind (output_total (tf_outputs c)) (\<lambda>total_out.
              if total_in \<noteq> total_out then Err InvalidAmount else Ok ())))) of
        Inl e \<Rightarrow> (st, Err e)
      | Inr _ \<Rightarrow> insert_outputs sha3 (remove_inputs st (tf_inputs c)) (tf_asset c) (cx_commitment cx) 0 (tf_outputs c))"

definition op_burn ::
    "(bytes \<Rightarrow> hash) \<Rightarrow> asset_state \<Rightarrow> asset_burn \<Rightarrow> execution_context \<Rightarrow> asset_state \<times> (unit, asset_error) result" where
  "op_burn sha3 st c cx =
     (case (if bn_inputs c = [] \<or> bn_amount c = 0 then Err InvalidAmount
            else rbind (ensure_unique_asset_inputs (bn_inputs c)) (\<lambda>_.
              rbind (input_total st (bn_asset c) (bn_inputs c) (cx_actor cx)) (\<lambda>total_in.
              rbind (ok_or (checked_add (bn_amount c) (bn_output c)) BalanceOverflow) (\<lambda>expected.
              if total_in \<noteq> expected then Err InvalidAmount
              else rbind (ok_or (st_records st (bn_asset c)) UnknownAsset) (\<lambda>r.
              rbind (ok_or (checked_sub (ar_supply r) (bn_amount c)) SupplyOverflow) (\<lambda>supply.
              rbind (ok_or (checked_add (ar_total_burned r) (bn_amount c)) SupplyOverflow) (\<lambda>burned.
              Ok (supply, burned)))))))) of
        Inl e \<Rightarrow> (st, Err e)
      | Inr (supply, burned) \<Rightarrow>
          let st1 = remove_inputs st (bn_inputs c) in
          (case (if bn_output c \<noteq> 0
                 then insert_share sha3 st1 (bn_asset c) (cx_commitment cx) 0 (bn_output c) (cx_actor cx)
                 else Ok st1) of
             Inl e \<Rightarrow> (st1, Err e)
           | Inr st2 \<Rightarrow>
               (case st_records st2 (bn_asset c) of
                  None \<Rightarrow> (st2, Err UnknownAsset)
                | Some r \<Rightarrow> (st2\<lparr>st_records := (st_records st2)(bn_asset c \<mapsto>
                    r\<lparr>ar_supply := supply, ar_total_burned := burned\<rparr>)\<rparr>, Ok ()))))"

definition apply_monetary_operation ::
    "(bytes \<Rightarrow> hash) \<Rightarrow> asset_state \<Rightarrow> asset_call \<Rightarrow> execution_context \<Rightarrow> asset_state \<times> (unit, asset_error) result" where
  "apply_monetary_operation sha3 st call cx = (case call of
     Register r \<Rightarrow> (case op_register sha3 st r cx of Inl e \<Rightarrow> (st, Err e) | Inr st' \<Rightarrow> (st', Ok ()))
   | Mint m \<Rightarrow> op_mint sha3 st m cx
   | Transfer t \<Rightarrow> op_transfer sha3 st t cx
   | Burn b \<Rightarrow> op_burn sha3 st b cx)"

text \<open>Encoding a call fails only for sequences whose length does not fit a \<open>u32\<close>.\<close>

fun encodable_call :: "asset_call \<Rightarrow> bool" where
  "encodable_call (Register r) = (length (rg_name r) \<le> U32_MAX)"
| "encodable_call (Mint m) = True"
| "encodable_call (Transfer t) = (length (tf_inputs t) \<le> U32_MAX \<and> length (tf_outputs t) \<le> U32_MAX)"
| "encodable_call (Burn b) = (length (bn_inputs b) \<le> U32_MAX)"

definition asset_apply ::
    "(bytes \<Rightarrow> hash) \<Rightarrow> asset_state \<Rightarrow> asset_call \<Rightarrow> execution_context \<Rightarrow> asset_state \<times> (asset_journal, asset_error) result" where
  "asset_apply sha3 st call cx =
     (case (rbind (map_err (\<lambda>_. Encoding) (canonical_bytes enc_asset_call encodable_call call)) (\<lambda>payload.
            rbind (map_err (\<lambda>_. InvalidProgram) (asset_decode (asset_opcode_byte (opcode_of call)) payload)) (\<lambda>_.
            snapshot_operation sha3 st call cx))) of
        Inl e \<Rightarrow> (st, Err e)
      | Inr j \<Rightarrow>
          (case apply_monetary_operation sha3 st call cx of
             (st', Inl e) \<Rightarrow> (asset_rollback st' j, Err e)
           | (st', Inr _) \<Rightarrow> (st', Ok
               \<lparr>aj_records = filter (\<lambda>(k, previous). st_records st' k \<noteq> previous) (aj_records j),
                aj_shares = filter (\<lambda>(k, previous). st_shares st' k \<noteq> previous) (aj_shares j)\<rparr>)))"


subsection \<open>The indexes are functions of records and shares\<close>

definition nest :: "(owner \<Rightarrow> hash \<Rightarrow> hash set) \<Rightarrow> (owner \<rightharpoonup> hash \<rightharpoonup> hash set)" where
  "nest f x = (if \<forall>a. f x a = {} then None else Some (index_of (f x)))"

lemma index_of_empty_iff: "index_of f = Map.empty \<longleftrightarrow> (\<forall>a. f a = {})"
  by (auto simp: index_of_def fun_eq_iff split: if_splits)

lemma nest_lookup: "(case nest f x of None \<Rightarrow> Map.empty | Some assets \<Rightarrow> assets) = index_of (f x)"
  by (auto simp: nest_def index_of_def fun_eq_iff)

lemma file_nest: "file_share (nest f) x a i = nest (f(x := (f x)(a := insert i (f x a))))"
  unfolding file_share_def nest_lookup index_add_of by (rule ext) (auto simp: nest_def)

lemma unfile_nest: "unfile_share (nest f) x a i = nest (f(x := (f x)(a := f x a - {i})))"
proof (cases "\<forall>b. f x b = {}")
  case True
  then have "(f x)(a := f x a - {i}) = f x" by (intro ext) simp
  with True show ?thesis by (simp add: unfile_share_def nest_def)
next
  case False
  then have "nest f x = Some (index_of (f x))" by (simp add: nest_def)
  then show ?thesis
    by (intro ext) (simp add: unfile_share_def index_remove_of index_of_empty_iff, auto simp: nest_def)
qed

definition shares_of :: "(hash \<rightharpoonup> asset_share) \<Rightarrow> owner \<Rightarrow> hash \<Rightarrow> hash set" where
  "shares_of s x a = {i. \<exists>share. s i = Some share \<and> as_owner share = x \<and> as_asset share = a}"

definition balance :: "(hash \<rightharpoonup> asset_share) \<Rightarrow> owner \<Rightarrow> hash \<Rightarrow> nat" where
  "balance s x a = (\<Sum>i\<in>dom s. if as_owner (the (s i)) = x \<and> as_asset (the (s i)) = a then unat (as_amount (the (s i))) else 0)"

definition asset_total :: "(hash \<rightharpoonup> asset_share) \<Rightarrow> hash \<Rightarrow> nat" where
  "asset_total s a = (\<Sum>i\<in>dom s. if as_asset (the (s i)) = a then unat (as_amount (the (s i))) else 0)"

definition balance_index :: "(hash \<rightharpoonup> asset_share) \<Rightarrow> (owner \<times> hash \<rightharpoonup> units)" where
  "balance_index s = (\<lambda>(x, a). if balance s x a = 0 then None else Some (of_nat (balance s x a)))"

definition role_index :: "(hash \<rightharpoonup> asset_record) \<Rightarrow> (owner \<rightharpoonup> hash set)" where
  "role_index r = index_of (\<lambda>x. {a. \<exists>rec. r a = Some rec \<and> (md_creator (ar_metadata rec) = x \<or> md_mint_authority (ar_metadata rec) = x)})"

definition indexed :: "asset_state \<Rightarrow> bool" where
  "indexed st \<longleftrightarrow> finite (dom (st_records st)) \<and> finite (dom (st_shares st)) \<and>
     st_by_owner st = nest (shares_of (st_shares st)) \<and> st_roles st = role_index (st_records st)"

definition balanced :: "asset_state \<Rightarrow> bool" where
  "balanced st \<longleftrightarrow> st_balances st = balance_index (st_shares st) \<and> (\<forall>x a. balance (st_shares st) x a < 2 ^ 128)"

lemma shares_of_insert:
  "s i = None \<Longrightarrow> shares_of (s(i \<mapsto> sh)) =
     (shares_of s)(as_owner sh := (shares_of s (as_owner sh))(as_asset sh := insert i (shares_of s (as_owner sh) (as_asset sh))))"
  by (auto simp: shares_of_def fun_eq_iff split: if_splits)

lemma shares_of_remove:
  "s i = Some sh \<Longrightarrow> shares_of (s(i := None)) =
     (shares_of s)(as_owner sh := (shares_of s (as_owner sh))(as_asset sh := shares_of s (as_owner sh) (as_asset sh) - {i}))"
  by (auto simp: shares_of_def fun_eq_iff split: if_splits)

lemma balance_insert:
  assumes "finite (dom s)" and "s i = None"
  shows "balance (s(i \<mapsto> sh)) x a = balance s x a + (if as_owner sh = x \<and> as_asset sh = a then unat (as_amount sh) else 0)"
  unfolding balance_def
  by (rule sum_insert_map [OF assms, of "\<lambda>sh. if as_owner sh = x \<and> as_asset sh = a then unat (as_amount sh) else 0"])

lemma balance_remove:
  assumes "finite (dom s)" and "s i = Some sh"
  shows "balance (s(i := None)) x a + (if as_owner sh = x \<and> as_asset sh = a then unat (as_amount sh) else 0) = balance s x a"
  unfolding balance_def
  by (rule sum_remove_map [OF assms, of "\<lambda>sh. if as_owner sh = x \<and> as_asset sh = a then unat (as_amount sh) else 0"])

lemma asset_total_insert:
  assumes "finite (dom s)" and "s i = None"
  shows "asset_total (s(i \<mapsto> sh)) a = asset_total s a + (if as_asset sh = a then unat (as_amount sh) else 0)"
  unfolding asset_total_def
  by (rule sum_insert_map [OF assms, of "\<lambda>sh. if as_asset sh = a then unat (as_amount sh) else 0"])

lemma asset_total_remove:
  assumes "finite (dom s)" and "s i = Some sh"
  shows "asset_total (s(i := None)) a + (if as_asset sh = a then unat (as_amount sh) else 0) = asset_total s a"
  unfolding asset_total_def
  by (rule sum_remove_map [OF assms, of "\<lambda>sh. if as_asset sh = a then unat (as_amount sh) else 0"])

lemma balance_le_total: "balance s x a \<le> asset_total s a"
  unfolding balance_def asset_total_def by (rule sum_mono) simp

lemma indexed_remove_share:
  assumes "indexed st"
  shows "indexed (fst (remove_share st i)) \<and> st_shares (fst (remove_share st i)) = (st_shares st)(i := None) \<and>
    st_records (fst (remove_share st i)) = st_records st"
proof (cases "st_shares st i")
  case None
  then show ?thesis using assms by (auto simp: remove_share_def)
next
  case (Some sh)
  then show ?thesis using assms
    by (simp add: remove_share_def Let_def indexed_def unfile_nest shares_of_remove)
qed

lemma indexed_put_share:
  assumes "indexed st"
  shows "indexed (put_share st i sh) \<and> st_shares (put_share st i sh) = (st_shares st)(i \<mapsto> sh) \<and>
    st_records (put_share st i sh) = st_records st"
proof (cases "st_shares st i = Some sh")
  case True
  then show ?thesis using assms by (auto simp: put_share_def)
next
  case False
  let ?st = "fst (remove_share st i)"
  have r: "indexed ?st" "st_shares ?st = (st_shares st)(i := None)" "st_records ?st = st_records st"
    using indexed_remove_share [OF assms] by auto
  then show ?thesis using False shares_of_insert [of "st_shares ?st" i sh]
    by (simp add: put_share_def Let_def indexed_def file_nest)
qed


subsection \<open>Cached balances\<close>

lemma unit_or_zero_simps [simp]: "unit_or_zero None = 0" "unit_or_zero (Some v) = v"
  by (simp_all add: unit_or_zero_def)

lemma unit_or_zero_balance_index:
  "balance s x a < 2 ^ 128 \<Longrightarrow> unat (unit_or_zero (balance_index s (x, a))) = balance s x a"
  by (simp add: balance_index_def unat_of_nat)

lemma of_nat_unat_u128: "unat (v :: units) = n \<Longrightarrow> v = of_nat n"
  by auto

text \<open>Removing a share keeps the cached balances exact.\<close>

lemma balanced_remove_share:
  assumes "balanced st" and "finite (dom (st_shares st))"
  shows "balanced (fst (remove_share st i))"
proof (cases "st_shares st i")
  case None
  then show ?thesis using assms by (simp add: remove_share_def)
next
  case (Some sh)
  let ?s = "st_shares st" and ?x = "as_owner sh" and ?a = "as_asset sh"
  let ?v = "unit_or_zero (Option.bind (st_balances st (?x, ?a)) (\<lambda>b. checked_sub b (as_amount sh)))"
  have bal: "st_balances st = balance_index ?s" and bound: "balance ?s x a < 2 ^ 128" for x a
    using assms(1) by (auto simp: balanced_def)
  have new: "balance (?s(i := None)) x a + (if ?x = x \<and> ?a = a then unat (as_amount sh) else 0) = balance ?s x a" for x a
    by (rule balance_remove [OF assms(2) Some])
  have v: "unat ?v = balance (?s(i := None)) ?x ?a"
  proof (cases "balance ?s ?x ?a = 0")
    case True
    then show ?thesis using new [of ?x ?a] by (simp add: bal balance_index_def)
  next
    case False
    have "unat (of_nat (balance ?s ?x ?a) :: units) = balance ?s ?x ?a" using bound by (simp add: unat_of_nat)
    with False new [of ?x ?a] show ?thesis
      by (simp add: bal balance_index_def checked_sub_def word_le_nat_alt unat_sub)
  qed
  have "(if ?v = 0 then (st_balances st)((?x, ?a) := None) else (st_balances st)((?x, ?a) \<mapsto> ?v)) = balance_index (?s(i := None))"
  proof (rule ext, clarify)
    fix x a
    show "(if ?v = 0 then (st_balances st)((?x, ?a) := None) else (st_balances st)((?x, ?a) \<mapsto> ?v)) (x, a) = balance_index (?s(i := None)) (x, a)"
    proof (cases "(x, a) = (?x, ?a)")
      case True
      have "?v = 0 \<longleftrightarrow> balance (?s(i := None)) ?x ?a = 0" unfolding v [symmetric] by (rule unat_eq_zero [symmetric])
      with True show ?thesis using of_nat_unat_u128 [OF v] by (auto simp: balance_index_def)
    next
      case False
      then show ?thesis using new [of x a] by (auto simp: bal balance_index_def)
    qed
  qed
  moreover have "balance (?s(i := None)) x a < 2 ^ 128" for x a
    using new [of x a] bound [of x a] by linarith
  ultimately show ?thesis using Some by (simp add: balanced_def remove_share_def Let_def)
qed

text \<open>Adding a share keeps them exact while the owner's new balance fits the machine integer.\<close>

lemma balanced_put_share:
  assumes "balanced st" and "indexed st" and "as_amount sh \<noteq> 0"
    and fits: "balance ((st_shares st)(i := None)) (as_owner sh) (as_asset sh) + unat (as_amount sh) < 2 ^ 128"
  shows "balanced (put_share st i sh)"
proof (cases "st_shares st i = Some sh")
  case True
  then show ?thesis using assms by (simp add: put_share_def)
next
  case False
  let ?st = "fst (remove_share st i)" and ?x = "as_owner sh" and ?a = "as_asset sh"
  let ?s = "st_shares ?st"
  have s: "?s = (st_shares st)(i := None)" "finite (dom ?s)"
    using indexed_remove_share [OF assms(2), of i] assms(2) by (simp_all add: indexed_def)
  have "balanced ?st" using balanced_remove_share [OF assms(1)] assms(2) by (simp add: indexed_def)
  then have bal: "st_balances ?st = balance_index ?s" and bound: "balance ?s x a < 2 ^ 128" for x a
    by (auto simp: balanced_def)
  have new: "balance (?s(i \<mapsto> sh)) x a = balance ?s x a + (if ?x = x \<and> ?a = a then unat (as_amount sh) else 0)" for x a
    by (rule balance_insert [OF s(2)]) (simp add: s(1))
  let ?v = "saturating_add (unit_or_zero (st_balances ?st (?x, ?a))) (as_amount sh)"
  have u: "unat (unit_or_zero (st_balances ?st (?x, ?a))) = balance ?s ?x ?a"
    unfolding bal by (rule unit_or_zero_balance_index [OF bound])
  have v: "unat ?v = balance (?s(i \<mapsto> sh)) ?x ?a"
    using fits unfolding s(1) [symmetric] by (simp add: saturating_add_def u new unat_word_ariths)
  have "(st_balances ?st)((?x, ?a) \<mapsto> ?v) = balance_index (?s(i \<mapsto> sh))"
  proof (rule ext, clarify)
    fix x a
    show "((st_balances ?st)((?x, ?a) \<mapsto> ?v)) (x, a) = balance_index (?s(i \<mapsto> sh)) (x, a)"
    proof (cases "(x, a) = (?x, ?a)")
      case True
      have "0 < unat (as_amount sh)" using assms(3) by (simp add: unat_gt_0)
      then show ?thesis using True of_nat_unat_u128 [OF v] new [of ?x ?a] by (simp add: balance_index_def)
    next
      case False
      then show ?thesis using new [of x a] by (auto simp: bal balance_index_def)
    qed
  qed
  moreover have "balance (?s(i \<mapsto> sh)) x a < 2 ^ 128" for x a
    using new [of x a] bound [of x a] fits unfolding s(1) [symmetric] by auto
  ultimately show ?thesis using False s by (simp add: balanced_def put_share_def Let_def)
qed


subsection \<open>Removing inputs and inserting outputs\<close>

lemma remove_inputs_Cons: "remove_inputs st (i # is) = remove_inputs (fst (remove_share st i)) is"
  by (simp add: remove_inputs_def)

lemma remove_inputs_indexed:
  assumes "indexed st"
  shows "indexed (remove_inputs st is) \<and> st_shares (remove_inputs st is) = st_shares st |` (- set is) \<and>
    st_records (remove_inputs st is) = st_records st"
  using assms
proof (induction "is" arbitrary: st)
  case (Cons i "is")
  note r = indexed_remove_share [OF Cons.prems, of i]
  have "(st_shares st)(i := None) |` (- set is) = st_shares st |` (- set (i # is))"
    by (auto simp: restrict_map_def)
  then show ?case using Cons.IH [of "fst (remove_share st i)"] r unfolding remove_inputs_Cons by metis
qed (simp add: remove_inputs_def restrict_map_def)

lemma remove_inputs_balanced:
  "balanced st \<Longrightarrow> indexed st \<Longrightarrow> balanced (remove_inputs st is)"
proof (induction "is" arbitrary: st)
  case (Cons i "is")
  then show ?case using balanced_remove_share [of st i] indexed_remove_share [of st i]
    by (simp add: remove_inputs_Cons indexed_def)
qed (simp add: remove_inputs_def)

definition inputs_value :: "(hash \<rightharpoonup> asset_share) \<Rightarrow> hash list \<Rightarrow> nat" where
  "inputs_value s is = (\<Sum>i\<leftarrow>is. unat (as_amount (the (s i))))"

definition inputs_of :: "(hash \<rightharpoonup> asset_share) \<Rightarrow> hash \<Rightarrow> owner \<Rightarrow> hash list \<Rightarrow> bool" where
  "inputs_of s a x is \<longleftrightarrow> (\<forall>i \<in> set is. \<exists>sh. s i = Some sh \<and> as_asset sh = a \<and> as_owner sh = x)"

lemma input_total_Ok:
  assumes "input_total st a is x = Ok t"
  shows "inputs_of (st_shares st) a x is \<and> unat t = inputs_value (st_shares st) is"
proof -
  let ?f = "\<lambda>total i. rbind (ok_or (st_shares st i) UnknownObject) (\<lambda>share.
      if as_asset share \<noteq> a then Err AssetMismatch else if as_owner share \<noteq> x then Err Unauthorized
      else ok_or (checked_add total (as_amount share)) BalanceOverflow)"
  have "try_fold ?f t0 is = Ok t \<Longrightarrow> inputs_of (st_shares st) a x is \<and> unat t = unat t0 + inputs_value (st_shares st) is" for t0
  proof (induction "is" arbitrary: t0)
    case (Cons i "is")
    from Cons.prems obtain sh t1 where "st_shares st i = Some sh" "as_asset sh = a" "as_owner sh = x"
        "checked_add t0 (as_amount sh) = Some t1" "try_fold ?f t1 is = Ok t"
      by (auto simp: result_simps split: if_splits)
    with Cons.IH [of t1] show ?case by (auto simp: inputs_of_def inputs_value_def checked_simps)
  qed (simp add: inputs_of_def inputs_value_def)
  then show ?thesis using assms unfolding input_total_def by fastforce
qed

lemma asset_total_inputs:
  assumes "distinct is" and "inputs_of s a x is" and "finite (dom s)"
  shows "asset_total (s |` (- set is)) b + (if a = b then inputs_value s is else 0) = asset_total s b"
  using assms
proof (induction "is" arbitrary: s)
  case (Cons i "is")
  obtain sh where sh: "s i = Some sh" "as_asset sh = a" using Cons.prems(2) by (auto simp: inputs_of_def)
  define s' where "s' = s(i := None)"
  have "inputs_of s' a x is" "inputs_value s' is = inputs_value s is" "finite (dom s')"
    using Cons.prems by (auto simp: s'_def inputs_of_def inputs_value_def intro!: arg_cong [of _ _ sum_list])
  moreover have "s' |` (- set is) = s |` (- set (i # is))" by (auto simp: s'_def restrict_map_def)
  moreover have "asset_total s' b + (if a = b then unat (as_amount sh) else 0) = asset_total s b"
    using asset_total_remove [OF Cons.prems(3) sh(1), of b] sh(2) by (simp add: s'_def)
  moreover have "inputs_value s (i # is) = unat (as_amount sh) + inputs_value s is" using sh by (simp add: inputs_value_def)
  ultimately show ?case using Cons.IH [of s'] Cons.prems(1) by (simp split: if_splits)
qed (simp add: inputs_value_def restrict_map_def)

lemma insert_share_Ok:
  "insert_share sha3 st a c k v x = Ok st' \<longleftrightarrow>
     k < 2 ^ 32 \<and> st_shares st (share_derive sha3 a c (of_nat k)) = None \<and>
     st' = put_share st (share_derive sha3 a c (of_nat k)) \<lparr>as_asset = a, as_amount = v, as_owner = x\<rparr>"
  by (auto simp: insert_share_def Let_def result_simps try_from_nat_def)

definition output_ids :: "(bytes \<Rightarrow> hash) \<Rightarrow> hash \<Rightarrow> hash \<Rightarrow> nat \<Rightarrow> nat \<Rightarrow> hash set" where
  "output_ids sha3 a c k n = (\<lambda>j. share_derive sha3 a c (of_nat j)) ` {k..<k + n}"

lemma output_ids_Suc: "output_ids sha3 a c k (Suc n) = insert (share_derive sha3 a c (of_nat k)) (output_ids sha3 a c (Suc k) n)"
proof -
  have "{k..<k + Suc n} = insert k {Suc k..<Suc k + n}" by auto
  then show ?thesis by (simp add: output_ids_def)
qed

text \<open>Inserting outputs writes only derived identifiers, whether it succeeds or stops at a collision.\<close>

lemma insert_outputs_frame:
  assumes "indexed st" and "insert_outputs sha3 st a c k outs = (st', r)"
  shows "indexed st' \<and> st_records st' = st_records st \<and>
    (\<forall>i. i \<notin> output_ids sha3 a c k (length outs) \<longrightarrow> st_shares st' i = st_shares st i)"
  using assms
proof (induction outs arbitrary: st k)
  case (Cons out outs)
  show ?case
  proof (cases "insert_share sha3 st a c k (ao_amount out) (ao_recipient out)")
    case (Inr st1)
    then have st1: "st1 = put_share st (share_derive sha3 a c (of_nat k)) \<lparr>as_asset = a, as_amount = ao_amount out, as_owner = ao_recipient out\<rparr>"
      by (simp add: insert_share_Ok)
    have i: "indexed st1" "st_records st1 = st_records st"
      "\<And>i. i \<noteq> share_derive sha3 a c (of_nat k) \<Longrightarrow> st_shares st1 i = st_shares st i"
      using indexed_put_share [OF Cons.prems(1)] by (simp_all add: st1)
    with Cons.IH [OF i(1)] Cons.prems(2) Inr show ?thesis by (auto simp: output_ids_Suc)
  qed (use Cons.prems in auto)
qed simp

definition outputs_value :: "asset_output list \<Rightarrow> nat" where
  "outputs_value outs = (\<Sum>out\<leftarrow>outs. unat (ao_amount out))"

lemma output_total_Ok:
  assumes "output_total outs = Ok t"
  shows "(\<forall>out \<in> set outs. ao_amount out \<noteq> 0) \<and> unat t = outputs_value outs"
proof -
  let ?f = "\<lambda>total out. if ao_amount out = 0 then Err InvalidAmount
      else ok_or (checked_add total (ao_amount out)) BalanceOverflow"
  have "try_fold ?f t0 outs = Ok t \<Longrightarrow> (\<forall>out \<in> set outs. ao_amount out \<noteq> 0) \<and> unat t = unat t0 + outputs_value outs" for t0
  proof (induction outs arbitrary: t0)
    case (Cons out outs)
    from Cons.prems obtain t1 where "ao_amount out \<noteq> 0" "checked_add t0 (ao_amount out) = Some t1" "try_fold ?f t1 outs = Ok t"
      by (auto simp: result_simps split: if_splits)
    with Cons.IH [of t1] show ?case by (auto simp: outputs_value_def checked_simps)
  qed (simp add: outputs_value_def)
  then show ?thesis using assms unfolding output_total_def by fastforce
qed


subsection \<open>Supply accounting\<close>

definition supply_inv :: "asset_state \<Rightarrow> bool" where
  "supply_inv st \<longleftrightarrow>
     (\<forall>i sh. st_shares st i = Some sh \<longrightarrow> as_amount sh \<noteq> 0 \<and> as_asset sh \<in> dom (st_records st)) \<and>
     (\<forall>a r. st_records st a = Some r \<longrightarrow> metadata_validate (ar_metadata r) = Ok () \<and>
        asset_total (st_shares st) a = unat (ar_supply r) \<and>
        unat (ar_total_minted r) = unat (ar_supply r) + unat (ar_total_burned r) \<and>
        ar_total_minted r \<le> md_max_supply (ar_metadata r))"

definition asset_inv :: "asset_state \<Rightarrow> bool" where
  "asset_inv st \<longleftrightarrow> indexed st \<and> balanced st \<and> supply_inv st"

text \<open>\<open>grows st st' a n\<close>: new shares of asset \<open>a\<close> worth \<open>n\<close> were added, and nothing else changed.\<close>

definition grows :: "asset_state \<Rightarrow> asset_state \<Rightarrow> hash \<Rightarrow> nat \<Rightarrow> bool" where
  "grows st st' a n \<longleftrightarrow> indexed st' \<and> balanced st' \<and> st_records st' = st_records st \<and>
     (\<forall>b. asset_total (st_shares st') b = asset_total (st_shares st) b + (if a = b then n else 0)) \<and>
     (\<forall>i sh. st_shares st' i = Some sh \<longrightarrow> st_shares st i = Some sh \<or> as_asset sh = a \<and> as_amount sh \<noteq> 0) \<and>
     (\<forall>i sh. st_shares st i = Some sh \<longrightarrow> st_shares st' i = Some sh)"

lemma insert_share_grows:
  assumes "indexed st" and "balanced st" and ins: "insert_share sha3 st a c k v x = Ok st'" and "v \<noteq> 0"
    and fits: "asset_total (st_shares st) a + unat v < 2 ^ 128"
  shows "grows st st' a (unat v)"
proof -
  let ?i = "share_derive sha3 a c (of_nat k)" and ?sh = "\<lparr>as_asset = a, as_amount = v, as_owner = x\<rparr>"
  have fresh: "st_shares st ?i = None" and st': "st' = put_share st ?i ?sh" using ins by (simp_all add: insert_share_Ok)
  have put: "indexed st'" "st_shares st' = (st_shares st)(?i \<mapsto> ?sh)" "st_records st' = st_records st"
    using indexed_put_share [OF assms(1)] by (auto simp: st')
  have "(st_shares st)(?i := None) = st_shares st" using fresh by auto
  then have "balance ((st_shares st)(?i := None)) x a + unat v < 2 ^ 128"
    using balance_le_total [of "st_shares st" x a] fits by simp
  then have "balanced st'" unfolding st' using balanced_put_share [OF assms(2,1)] assms(4) by simp
  with put fresh assms(1,4) show ?thesis
    by (auto simp: grows_def asset_total_insert indexed_def)
qed

lemma grows_trans:
  assumes "grows st st1 a m" and "grows st1 st2 a n"
  shows "grows st st2 a (m + n)"
proof -
  have "st_shares st i = Some sh \<or> as_asset sh = a \<and> as_amount sh \<noteq> 0" if "st_shares st2 i = Some sh" for i sh
    using assms that unfolding grows_def by blast
  with assms show ?thesis by (simp add: grows_def)
qed

lemma insert_outputs_grows:
  assumes "indexed st" and "balanced st" and "insert_outputs sha3 st a c k outs = (st', Ok ())"
    and "\<forall>out \<in> set outs. ao_amount out \<noteq> 0" and "asset_total (st_shares st) a + outputs_value outs < 2 ^ 128"
  shows "grows st st' a (outputs_value outs)"
  using assms
proof (induction outs arbitrary: st k)
  case (Cons out outs)
  then obtain st1 where ins: "insert_share sha3 st a c k (ao_amount out) (ao_recipient out) = Ok st1"
    and rest: "insert_outputs sha3 st1 a c (Suc k) outs = (st', Ok ())"
    by (auto split: sum.splits)
  have v: "outputs_value (out # outs) = unat (ao_amount out) + outputs_value outs" by (simp add: outputs_value_def)
  then have g: "grows st st1 a (unat (ao_amount out))"
    using Cons.prems by (intro insert_share_grows [OF Cons.prems(1,2) ins]) simp_all
  then have "indexed st1" "balanced st1" "asset_total (st_shares st1) a + outputs_value outs < 2 ^ 128"
    using Cons.prems(5) v by (simp_all add: grows_def)
  then have "grows st1 st' a (outputs_value outs)" using Cons.IH rest Cons.prems(4) by simp
  from grows_trans [OF g this] show ?case by (simp add: v)
qed (auto simp: grows_def outputs_value_def)

lemma asset_total_zero: "\<forall>i sh. s i = Some sh \<longrightarrow> as_asset sh \<noteq> a \<Longrightarrow> asset_total s a = 0"
  unfolding asset_total_def by (rule sum.neutral) fastforce

lemma role_index_insert:
  assumes "r a = None"
  shows "role_index (r(a \<mapsto> rec)) =
    index_add (index_add (role_index r) (md_creator (ar_metadata rec)) a) (md_mint_authority (ar_metadata rec)) a"
  unfolding role_index_def index_add_of using assms by (intro arg_cong [of _ _ index_of] ext) auto

lemma role_index_update:
  assumes "r a = Some rec" and "ar_metadata rec' = ar_metadata rec"
  shows "role_index (r(a \<mapsto> rec')) = role_index r"
  unfolding role_index_def using assms by (intro arg_cong [of _ _ index_of] ext) auto

lemma role_index_remove:
  assumes "r a = Some rec"
  shows "role_index (r(a := None)) =
    index_remove (index_remove (role_index r) (md_creator (ar_metadata rec)) a) (md_mint_authority (ar_metadata rec)) a"
  unfolding role_index_def index_remove_of using assms by (intro arg_cong [of _ _ index_of] ext) auto

lemma metadata_new_Ok:
  "metadata_new n s c a = Ok m \<longleftrightarrow>
     m = \<lparr>md_name = n, md_max_supply = s, md_creator = c, md_mint_authority = a\<rparr> \<and> metadata_validate m = Ok ()"
  by (auto simp: metadata_new_def Let_def result_simps)

text \<open>The record of an asset and the total of its shares change together.\<close>

lemma supply_inv_update:
  assumes st: "supply_inv st" and dom: "\<And>i sh. st_shares st' i = Some sh \<Longrightarrow>
      as_amount sh \<noteq> 0 \<and> (as_asset sh = a \<or> as_asset sh \<in> dom (st_records st))"
    and rec: "st_records st' = (st_records st)(a \<mapsto> r)"
    and others: "\<And>b. b \<noteq> a \<Longrightarrow> asset_total (st_shares st') b = asset_total (st_shares st) b"
    and r: "metadata_validate (ar_metadata r) = Ok ()" "asset_total (st_shares st') a = unat (ar_supply r)"
      "unat (ar_total_minted r) = unat (ar_supply r) + unat (ar_total_burned r)" "ar_total_minted r \<le> md_max_supply (ar_metadata r)"
  shows "supply_inv st'"
  using assms unfolding supply_inv_def by (auto split: if_splits)


lemma grows_shares:
  assumes "grows st st' a n" and "supply_inv st" and "st_shares st' i = Some sh"
  shows "as_amount sh \<noteq> 0 \<and> (as_asset sh = a \<or> as_asset sh \<in> dom (st_records st))"
  using assms unfolding grows_def supply_inv_def by blast

lemma unat_units_bound: "unat (v :: units) < 2 ^ 128"
  by (rule unat_bound_le) simp

subsection \<open>Every operation preserves the invariant\<close>

lemma op_register_inv:
  assumes inv: "asset_inv st" and "op_register sha3 st r cx = Ok st'"
  shows "asset_inv st'"
proof -
  define m where "m = \<lparr>md_name = rg_name r, md_max_supply = rg_max_supply r, md_creator = cx_actor cx,
      md_mint_authority = rg_mint_authority r\<rparr>"
  from assms(2) obtain a st1 where m: "metadata_validate m = Ok ()"
    and v: "rg_initial_mint r \<noteq> 0" "rg_initial_mint r \<le> md_max_supply m"
    and fresh: "st_records st a = None"
    and ins: "insert_share sha3 st a (cx_commitment cx) 0 (rg_initial_mint r) (cx_actor cx) = Ok st1"
    and st': "st' = st1\<lparr>st_records := (st_records st1)(a \<mapsto> \<lparr>ar_metadata = m, ar_supply = rg_initial_mint r,
          ar_total_minted = rg_initial_mint r, ar_mint_nonce = 0, ar_total_burned = 0\<rparr>),
        st_roles := index_add (index_add (st_roles st1) (md_creator m) a) (md_mint_authority m) a\<rparr>"
    by (auto simp: op_register_def result_simps metadata_new_Ok Let_def index_asset_role_def not_less m_def split: if_splits)
  have i: "indexed st" "balanced st" "supply_inv st" using inv by (simp_all add: asset_inv_def)
  have z: "asset_total (st_shares st) a = 0"
    using i(3) fresh by (intro asset_total_zero) (auto simp: supply_inv_def)
  have g: "grows st st1 a (unat (rg_initial_mint r))"
    by (rule insert_share_grows [OF i(1,2) ins v(1)]) (simp only: z add_0 unat_units_bound)
  have "supply_inv st'"
    by (rule supply_inv_update [OF i(3), where a = a and r = "\<lparr>ar_metadata = m, ar_supply = rg_initial_mint r,
          ar_total_minted = rg_initial_mint r, ar_mint_nonce = 0, ar_total_burned = 0\<rparr>"])
      (use g z v m grows_shares [OF g i(3)] in \<open>simp_all add: st' grows_def\<close>)
  moreover have "indexed st'" using g fresh i(1) by (simp add: st' grows_def indexed_def role_index_insert)
  moreover have "balanced st'" using g by (simp add: st' grows_def balanced_def)
  ultimately show ?thesis by (simp add: asset_inv_def)
qed

lemma op_mint_inv:
  assumes inv: "asset_inv st" and "op_mint sha3 st c cx = (st', Ok ())"
  shows "asset_inv st'"
proof -
  let ?a = "mi_asset c"
  from assms(2) obtain r total minted st1 r1 where rec: "st_records st ?a = Some r" and v: "mi_amount c \<noteq> 0"
    and sup: "unat total = unat (ar_supply r) + unat (mi_amount c)"
    and min: "unat minted = unat (ar_total_minted r) + unat (mi_amount c)" "minted \<le> md_max_supply (ar_metadata r)"
    and ins: "insert_share sha3 st ?a (cx_commitment cx) 0 (mi_amount c) (mi_recipient c) = Ok st1"
    and r1: "st_records st1 ?a = Some r1"
    and st': "st' = st1\<lparr>st_records := (st_records st1)(?a \<mapsto>
        r1\<lparr>ar_supply := total, ar_total_minted := minted, ar_mint_nonce := mi_nonce c\<rparr>)\<rparr>"
    by (auto simp: op_mint_def result_simps checked_simps not_less split: if_splits sum.splits option.splits)
  have i: "indexed st" "balanced st" "supply_inv st" using inv by (simp_all add: asset_inv_def)
  have t: "asset_total (st_shares st) ?a = unat (ar_supply r)" using i(3) rec by (simp add: supply_inv_def)
  have "asset_total (st_shares st) ?a + unat (mi_amount c) < 2 ^ 128"
    unfolding t sup [symmetric] by (rule unat_units_bound)
  then have g: "grows st st1 ?a (unat (mi_amount c))" by (rule insert_share_grows [OF i(1,2) ins v])
  then have eq: "r1 = r" using rec r1 by (simp add: grows_def)
  have "supply_inv st'"
    by (rule supply_inv_update [OF i(3), where a = ?a and
          r = "r\<lparr>ar_supply := total, ar_total_minted := minted, ar_mint_nonce := mi_nonce c\<rparr>"])
      (use g t sup min rec i(3) grows_shares [OF g i(3)] in \<open>simp_all add: st' eq grows_def supply_inv_def\<close>)
  moreover have "indexed st'" using g rec i(1) by (simp add: st' eq grows_def indexed_def role_index_update)
  moreover have "balanced st'" using g by (simp add: st' grows_def balanced_def)
  ultimately show ?thesis by (simp add: asset_inv_def)
qed

lemma remove_inputs_total:
  assumes "indexed st" and "distinct is" and "inputs_of (st_shares st) a x is"
  shows "asset_total (st_shares (remove_inputs st is)) b + (if a = b then inputs_value (st_shares st) is else 0) =
    asset_total (st_shares st) b"
  using remove_inputs_indexed [OF assms(1)] asset_total_inputs [OF assms(2,3)] assms(1) by (simp add: indexed_def)

lemma op_transfer_effect:
  assumes inv: "asset_inv st" and "op_transfer sha3 st c cx = (st', Ok ())"
  shows "tf_asset c \<in> dom (st_records st) \<and> inputs_of (st_shares st) (tf_asset c) (cx_actor cx) (tf_inputs c) \<and>
    grows (remove_inputs st (tf_inputs c)) st' (tf_asset c) (outputs_value (tf_outputs c)) \<and>
    (\<forall>b. asset_total (st_shares st') b = asset_total (st_shares st) b)"
proof -
  let ?a = "tf_asset c" and ?st = "remove_inputs st (tf_inputs c)"
  from assms(2) obtain t where a: "?a \<in> dom (st_records st)" and d: "distinct (tf_inputs c)"
    and t: "input_total st ?a (tf_inputs c) (cx_actor cx) = Ok t" "output_total (tf_outputs c) = Ok t"
    and ins: "insert_outputs sha3 ?st ?a (cx_commitment cx) 0 (tf_outputs c) = (st', Ok ())"
    by (auto simp: op_transfer_def result_simps split: if_splits sum.splits)
  have i: "indexed st" "balanced st" using inv by (simp_all add: asset_inv_def)
  have inp: "inputs_of (st_shares st) ?a (cx_actor cx) (tf_inputs c)" "unat t = inputs_value (st_shares st) (tf_inputs c)"
    using input_total_Ok [OF t(1)] by auto
  have out: "\<forall>out \<in> set (tf_outputs c). ao_amount out \<noteq> 0" "unat t = outputs_value (tf_outputs c)"
    using output_total_Ok [OF t(2)] by auto
  have ri: "indexed ?st" "balanced ?st" "st_records ?st = st_records st"
    using remove_inputs_indexed [OF i(1)] remove_inputs_balanced [OF i(2,1)] by auto
  have tot: "asset_total (st_shares ?st) b + (if ?a = b then outputs_value (tf_outputs c) else 0) = asset_total (st_shares st) b" for b
    using remove_inputs_total [OF i(1) d inp(1), of b] inp(2) out(2) by (simp split: if_splits)
  obtain r where "st_records st ?a = Some r" using a by auto
  then have "asset_total (st_shares st) ?a = unat (ar_supply r)" using inv by (simp add: asset_inv_def supply_inv_def)
  then have "asset_total (st_shares st) ?a < 2 ^ 128" by (simp only: unat_units_bound)
  with tot [of ?a] have "asset_total (st_shares ?st) ?a + outputs_value (tf_outputs c) < 2 ^ 128" by simp
  from insert_outputs_grows [OF ri(1,2) ins out(1) this] have "grows ?st st' ?a (outputs_value (tf_outputs c))" .
  with tot a inp show ?thesis by (simp add: grows_def)
qed

lemma op_transfer_inv:
  assumes inv: "asset_inv st" and "op_transfer sha3 st c cx = (st', Ok ())"
  shows "asset_inv st'"
proof -
  note e = op_transfer_effect [OF assms]
  have i: "indexed st" "supply_inv st" using inv by (simp_all add: asset_inv_def)
  have s: "st_shares (remove_inputs st (tf_inputs c)) = st_shares st |` (- set (tf_inputs c))"
    "st_records (remove_inputs st (tf_inputs c)) = st_records st"
    using remove_inputs_indexed [OF i(1)] by auto
  have "as_amount sh \<noteq> 0 \<and> as_asset sh \<in> dom (st_records st)" if "st_shares st' i = Some sh" for i sh
  proof (cases "st_shares (remove_inputs st (tf_inputs c)) i = Some sh")
    case True
    then show ?thesis using i(2) by (auto simp: s supply_inv_def restrict_map_def split: if_splits)
  next
    case False
    then have "as_asset sh = tf_asset c \<and> as_amount sh \<noteq> 0" using that e unfolding grows_def by blast
    then show ?thesis using e by simp
  qed
  moreover have "asset_total (st_shares st') = asset_total (st_shares st)" using e by auto
  moreover have "indexed st'" "balanced st'" "st_records st' = st_records st" using e s(2) unfolding grows_def by metis+
  ultimately show ?thesis using i(2) by (simp add: asset_inv_def supply_inv_def)
qed


lemma op_burn_effect:
  assumes inv: "asset_inv st" and "op_burn sha3 st c cx = (st', Ok ())"
  obtains r st2 where "st_records st (bn_asset c) = Some r" and "bn_amount c \<noteq> 0"
    and "inputs_of (st_shares st) (bn_asset c) (cx_actor cx) (bn_inputs c)"
    and "unat (bn_amount c) \<le> unat (ar_supply r)" and "unat (ar_total_burned r) + unat (bn_amount c) < 2 ^ 128"
    and "grows (remove_inputs st (bn_inputs c)) st2 (bn_asset c) (unat (bn_output c))"
    and "\<forall>b. asset_total (st_shares st2) b + (if bn_asset c = b then unat (bn_amount c) else 0) = asset_total (st_shares st) b"
    and "st' = st2\<lparr>st_records := (st_records st)(bn_asset c \<mapsto>
        r\<lparr>ar_supply := ar_supply r - bn_amount c, ar_total_burned := ar_total_burned r + bn_amount c\<rparr>)\<rparr>"
proof -
  let ?a = "bn_asset c" and ?st = "remove_inputs st (bn_inputs c)"
  from assms(2) obtain t r st2 where d: "distinct (bn_inputs c)" and v: "bn_amount c \<noteq> 0"
    and t: "input_total st ?a (bn_inputs c) (cx_actor cx) = Ok t" "unat t = unat (bn_amount c) + unat (bn_output c)"
    and r: "st_records st ?a = Some r" "unat (bn_amount c) \<le> unat (ar_supply r)"
    and b: "unat (ar_total_burned r) + unat (bn_amount c) < 2 ^ LENGTH(128)"
    and ins: "(if bn_output c \<noteq> 0 then insert_share sha3 ?st ?a (cx_commitment cx) 0 (bn_output c) (cx_actor cx) else Ok ?st) = Ok st2"
    and st': "st' = st2\<lparr>st_records := (st_records st2)(?a \<mapsto>
        (the (st_records st2 ?a))\<lparr>ar_supply := ar_supply r - bn_amount c, ar_total_burned := ar_total_burned r + bn_amount c\<rparr>)\<rparr>"
    by (auto simp: op_burn_def Let_def result_simps checked_add_Some checked_sub_def checked_add_def [of "ar_total_burned _"]
        split: if_splits sum.splits option.splits)
  have i: "indexed st" "balanced st" using inv by (simp_all add: asset_inv_def)
  have inp: "inputs_of (st_shares st) ?a (cx_actor cx) (bn_inputs c)" "unat t = inputs_value (st_shares st) (bn_inputs c)"
    using input_total_Ok [OF t(1)] by auto
  have ri: "indexed ?st" "balanced ?st" "st_records ?st = st_records st"
    using remove_inputs_indexed [OF i(1)] remove_inputs_balanced [OF i(2,1)] by auto
  have tot: "asset_total (st_shares ?st) b + (if ?a = b then unat (bn_amount c) + unat (bn_output c) else 0) = asset_total (st_shares st) b" for b
    using remove_inputs_total [OF i(1) d inp(1), of b] inp(2) t(2) by (simp split: if_splits)
  have "asset_total (st_shares st) ?a = unat (ar_supply r)" using inv r(1) by (simp add: asset_inv_def supply_inv_def)
  then have "asset_total (st_shares st) ?a < 2 ^ 128" by (simp only: unat_units_bound)
  with tot [of ?a] have fits: "asset_total (st_shares ?st) ?a + unat (bn_output c) < 2 ^ 128" by simp
  have g: "grows ?st st2 ?a (unat (bn_output c))"
  proof (cases "bn_output c = 0")
    case True
    then show ?thesis using ins ri by (simp add: grows_def)
  next
    case False
    then show ?thesis using ins fits by (intro insert_share_grows [OF ri(1,2)]) simp_all
  qed
  then have rec: "st_records st2 = st_records st" using ri(3) by (simp add: grows_def)
  have "asset_total (st_shares st2) b + (if ?a = b then unat (bn_amount c) else 0) = asset_total (st_shares st) b" for b
    using g tot [of b] by (simp add: grows_def split: if_splits)
  moreover have "unat (ar_total_burned r) + unat (bn_amount c) < 2 ^ 128" using b by simp
  ultimately show thesis using that [OF r(1) v inp(1) r(2) _ g] st' r(1) rec by simp
qed

lemma op_burn_inv:
  assumes inv: "asset_inv st" and "op_burn sha3 st c cx = (st', Ok ())"
  shows "asset_inv st'"
proof -
  let ?a = "bn_asset c" and ?st = "remove_inputs st (bn_inputs c)"
  obtain r st2 where r: "st_records st ?a = Some r" "unat (bn_amount c) \<le> unat (ar_supply r)"
      "unat (ar_total_burned r) + unat (bn_amount c) < 2 ^ 128"
    and g: "grows ?st st2 ?a (unat (bn_output c))"
    and tot: "\<forall>b. asset_total (st_shares st2) b + (if ?a = b then unat (bn_amount c) else 0) = asset_total (st_shares st) b"
    and st': "st' = st2\<lparr>st_records := (st_records st)(?a \<mapsto>
        r\<lparr>ar_supply := ar_supply r - bn_amount c, ar_total_burned := ar_total_burned r + bn_amount c\<rparr>)\<rparr>"
    by (rule op_burn_effect [OF assms])
  have i: "indexed st" "supply_inv st" using inv by (simp_all add: asset_inv_def)
  have s: "st_shares ?st = st_shares st |` (- set (bn_inputs c))" "st_records ?st = st_records st"
    using remove_inputs_indexed [OF i(1)] by auto
  have dom: "as_amount sh \<noteq> 0 \<and> (as_asset sh = ?a \<or> as_asset sh \<in> dom (st_records st))" if "st_shares st2 i = Some sh" for i sh
  proof (cases "st_shares ?st i = Some sh")
    case True
    then show ?thesis using i(2) by (auto simp: s supply_inv_def restrict_map_def split: if_splits)
  next
    case False
    then show ?thesis using that g unfolding grows_def by blast
  qed
  have others: "asset_total (st_shares st2) b = asset_total (st_shares st) b" if "b \<noteq> ?a" for b
    using spec [OF tot, of b] that by simp
  have at: "asset_total (st_shares st2) ?a + unat (bn_amount c) = asset_total (st_shares st) ?a"
    using spec [OF tot, of ?a] by simp
  have sub: "unat (ar_supply r - bn_amount c) = unat (ar_supply r) - unat (bn_amount c)"
    using r(2) by (simp add: unat_sub word_le_nat_alt)
  have add: "unat (ar_total_burned r + bn_amount c) = unat (ar_total_burned r) + unat (bn_amount c)"
    using r(3) by (simp add: unat_word_ariths)
  have "supply_inv st'"
    by (rule supply_inv_update [OF i(2), where a = ?a and
          r = "r\<lparr>ar_supply := ar_supply r - bn_amount c, ar_total_burned := ar_total_burned r + bn_amount c\<rparr>"])
      (use dom others at sub add r i(2) in \<open>simp_all add: st' supply_inv_def\<close>)
  moreover have "indexed st'" using g r(1) i(1) s(2) by (simp add: st' grows_def indexed_def role_index_update)
  moreover have "balanced st'" using g by (simp add: st' grows_def balanced_def)
  ultimately show ?thesis by (simp add: asset_inv_def)
qed

lemma apply_monetary_operation_inv:
  assumes "asset_inv st" and "apply_monetary_operation sha3 st call cx = (st', Ok ())"
  shows "asset_inv st'"
  using assms
  by (auto simp: apply_monetary_operation_def split: asset_call.splits sum.splits
      intro: op_register_inv op_mint_inv op_transfer_inv op_burn_inv)

end
