(* ===== verification/Asset_Journal.thy ===== *)
theory Asset_Journal
  imports Asset_State
begin

section \<open>Asset journals: footprints, atomicity and rollback\<close>

text \<open>
  What the journals of \<^verbatim>\<open>kernel/src/ledger/utxo/asset/journal.rs\<close> achieve for the operations of
  \<open>Asset_State\<close>: an operation changes nothing outside the footprint snapshotted before it, rolling a
  journal back restores records, shares and indexes, a failing call is undone, and supply changes
  only by authorized mints and burns. The cached balances are restored as long as the old and the
  new balance of an owner fit together into the machine integer; the last section shows that they
  are lost otherwise.
\<close>

subsection \<open>Footprints\<close>

lemma collect_indices:
  "collect (map (\<lambda>k. rbind (ok_or (try_from_nat k) e) (\<lambda>k. Ok (f k))) ks) = Ok ds \<Longrightarrow> ds = map (\<lambda>k. f (of_nat k)) ks"
  by (induction ks arbitrary: ds) (auto simp: result_simps try_from_nat_def split: if_splits)

lemma snapshot_operation_Ok:
  assumes "snapshot_operation sha3 st call cx = Ok j"
  obtains a inputs n where "operation_footprint sha3 call cx = Ok (a, inputs, n)"
    and "aj_records j = [(a, st_records st a)]"
    and "aj_shares j = map (\<lambda>i. (i, st_shares st i)) (sorted_list_of_set (set inputs \<union> output_ids sha3 a (cx_commitment cx) 0 n))"
proof -
  from assms obtain a inputs n derived where f: "operation_footprint sha3 call cx = Ok (a, inputs, n)"
    and d: "collect (map (\<lambda>k. rbind (ok_or (try_from_nat k) InvalidProgram) (\<lambda>k. Ok (share_derive sha3 a (cx_commitment cx) k))) [0..<n]) = Ok derived"
    and j: "j = \<lparr>aj_records = [(a, st_records st a)],
        aj_shares = map (\<lambda>i. (i, st_shares st i)) (sorted_list_of_set (set inputs \<union> set derived))\<rparr>"
    by (auto simp: snapshot_operation_def result_simps)
  have "derived = map (\<lambda>k. share_derive sha3 a (cx_commitment cx) (of_nat k)) [0..<n]"
    by (rule collect_indices [OF d])
  then have "set derived = output_ids sha3 a (cx_commitment cx) 0 n" by (simp add: output_ids_def)
  with that [OF f] j show thesis by simp
qed

definition within_footprint :: "asset_state \<Rightarrow> asset_state \<Rightarrow> asset_journal \<Rightarrow> bool" where
  "within_footprint st st' j \<longleftrightarrow> indexed st' \<and>
     (\<forall>k. k \<notin> fst ` set (aj_records j) \<longrightarrow> st_records st' k = st_records st k) \<and>
     (\<forall>i. i \<notin> fst ` set (aj_shares j) \<longrightarrow> st_shares st' i = st_shares st i)"

lemma indexed_record_update:
  assumes "indexed st" and "st_records st a = Some r" and "ar_metadata r' = ar_metadata r"
  shows "indexed (st\<lparr>st_records := (st_records st)(a \<mapsto> r')\<rparr>)"
  using assms by (simp add: indexed_def role_index_update)

lemma insert_share_frame:
  assumes "indexed st" and "insert_share sha3 st a c k v x = Ok st'"
  shows "indexed st' \<and> st_records st' = st_records st \<and>
    (\<forall>i. i \<noteq> share_derive sha3 a c (of_nat k) \<longrightarrow> st_shares st' i = st_shares st i)"
  using assms indexed_put_share [OF assms(1)] by (simp add: insert_share_Ok)

lemma op_register_frame:
  assumes "indexed st" and "op_register sha3 st r cx = Ok st'"
  shows "\<exists>a. operation_footprint sha3 (Register r) cx = Ok (a, [], 1) \<and> indexed st' \<and>
    (\<forall>k. k \<noteq> a \<longrightarrow> st_records st' k = st_records st k) \<and>
    (\<forall>i. i \<noteq> share_derive sha3 a (cx_commitment cx) 0 \<longrightarrow> st_shares st' i = st_shares st i)"
proof -
  from assms(2) obtain m a st1 where m: "metadata_new (rg_name r) (rg_max_supply r) (cx_actor cx) (rg_mint_authority r) = Ok m"
    and a: "asset_contract_derive sha3 m (rg_nonce r) = Ok a" "st_records st a = None"
    and ins: "insert_share sha3 st a (cx_commitment cx) 0 (rg_initial_mint r) (cx_actor cx) = Ok st1"
    and st': "st' = index_asset_role (index_asset_role (st1\<lparr>st_records := (st_records st1)(a \<mapsto>
        \<lparr>ar_metadata = m, ar_supply = rg_initial_mint r, ar_total_minted = rg_initial_mint r, ar_mint_nonce = 0, ar_total_burned = 0\<rparr>)\<rparr>)
          a (cx_actor cx)) a (rg_mint_authority r)"
    by (auto simp: op_register_def result_simps Let_def split: if_splits)
  have meta: "md_creator m = cx_actor cx" "md_mint_authority m = rg_mint_authority r" using m by (auto simp: metadata_new_Ok)
  note f = insert_share_frame [OF assms(1) ins]
  then have "indexed st'" using a(2) assms(1) meta by (simp add: st' index_asset_role_def indexed_def role_index_insert)
  moreover have "operation_footprint sha3 (Register r) cx = Ok (a, [], 1)" by (simp add: operation_footprint_def m a)
  ultimately show ?thesis using f by (auto simp: st' index_asset_role_def)
qed

lemma op_mint_frame:
  assumes "indexed st" and "op_mint sha3 st c cx = (st', r)"
  shows "indexed st' \<and> (\<forall>k. k \<noteq> mi_asset c \<longrightarrow> st_records st' k = st_records st k) \<and>
    (\<forall>i. i \<noteq> share_derive sha3 (mi_asset c) (cx_commitment cx) 0 \<longrightarrow> st_shares st' i = st_shares st i)"
proof -
  from assms(2) consider "st' = st"
    | st1 where "insert_share sha3 st (mi_asset c) (cx_commitment cx) 0 (mi_amount c) (mi_recipient c) = Ok st1" "st' = st1"
    | st1 rec total minted where "insert_share sha3 st (mi_asset c) (cx_commitment cx) 0 (mi_amount c) (mi_recipient c) = Ok st1"
      "st_records st1 (mi_asset c) = Some rec"
      "st' = st1\<lparr>st_records := (st_records st1)(mi_asset c \<mapsto> rec\<lparr>ar_supply := total, ar_total_minted := minted, ar_mint_nonce := mi_nonce c\<rparr>)\<rparr>"
    by (auto simp: op_mint_def result_simps split: if_splits sum.splits option.splits)
  then show ?thesis
  proof cases
    case (3 st1 rec total minted)
    then show ?thesis using insert_share_frame [OF assms(1) 3(1)] indexed_record_update [of st1] by auto
  qed (use insert_share_frame [OF assms(1)] assms(1) in auto)
qed

lemma op_transfer_frame:
  assumes "indexed st" and "op_transfer sha3 st c cx = (st', r)"
  shows "indexed st' \<and> st_records st' = st_records st \<and>
    (\<forall>i. i \<notin> set (tf_inputs c) \<union> output_ids sha3 (tf_asset c) (cx_commitment cx) 0 (length (tf_outputs c)) \<longrightarrow>
      st_shares st' i = st_shares st i)"
proof -
  note rem = remove_inputs_indexed [OF assms(1), of "tf_inputs c"]
  from assms(2) consider "st' = st"
    | "insert_outputs sha3 (remove_inputs st (tf_inputs c)) (tf_asset c) (cx_commitment cx) 0 (tf_outputs c) = (st', r)"
    by (auto simp: op_transfer_def split: sum.splits)
  then show ?thesis
  proof cases
    case 2
    then show ?thesis using insert_outputs_frame [of "remove_inputs st (tf_inputs c)"] rem by (simp add: restrict_map_def)
  qed (use assms in simp)
qed

lemma op_burn_frame:
  assumes "indexed st" and "op_burn sha3 st c cx = (st', r)"
  shows "indexed st' \<and> (\<forall>k. k \<noteq> bn_asset c \<longrightarrow> st_records st' k = st_records st k) \<and>
    (\<forall>i. i \<notin> set (bn_inputs c) \<union> output_ids sha3 (bn_asset c) (cx_commitment cx) 0 (if bn_output c \<noteq> 0 then 1 else 0) \<longrightarrow>
      st_shares st' i = st_shares st i)"
proof -
  let ?st = "remove_inputs st (bn_inputs c)"
  note rem = remove_inputs_indexed [OF assms(1), of "bn_inputs c"]
  from assms(2) consider "st' = st" | "st' = ?st"
    | st2 where "(if bn_output c \<noteq> 0 then insert_share sha3 ?st (bn_asset c) (cx_commitment cx) 0 (bn_output c) (cx_actor cx) else Ok ?st) = Ok st2"
      "st' = st2"
    | st2 rec total burned where "(if bn_output c \<noteq> 0 then insert_share sha3 ?st (bn_asset c) (cx_commitment cx) 0 (bn_output c) (cx_actor cx) else Ok ?st) = Ok st2"
      "st_records st2 (bn_asset c) = Some rec"
      "st' = st2\<lparr>st_records := (st_records st2)(bn_asset c \<mapsto> rec\<lparr>ar_supply := total, ar_total_burned := burned\<rparr>)\<rparr>"
    unfolding op_burn_def Let_def by (auto split: sum.splits option.splits)
  then show ?thesis
  proof cases
    case (3 st2)
    then show ?thesis using insert_share_frame [of ?st] rem by (auto simp: restrict_map_def output_ids_def split: if_splits)
  next
    case (4 st2 rec total burned)
    then have "indexed st2 \<and> st_records st2 = st_records st \<and>
        (\<forall>i. i \<notin> set (bn_inputs c) \<union> output_ids sha3 (bn_asset c) (cx_commitment cx) 0 (if bn_output c \<noteq> 0 then 1 else 0) \<longrightarrow>
          st_shares st2 i = st_shares st i)"
      using insert_share_frame [of ?st] rem by (auto simp: restrict_map_def output_ids_def split: if_splits)
    with 4 indexed_record_update [of st2] show ?thesis by auto
  qed (use assms rem in \<open>simp_all add: restrict_map_def\<close>)
qed


lemma operation_within_footprint:
  assumes "indexed st" and "apply_monetary_operation sha3 st call cx = (st', r)"
    and "snapshot_operation sha3 st call cx = Ok j"
  shows "within_footprint st st' j"
proof -
  obtain a inputs n where f: "operation_footprint sha3 call cx = Ok (a, inputs, n)" "aj_records j = [(a, st_records st a)]"
    and j: "aj_shares j = map (\<lambda>i. (i, st_shares st i)) (sorted_list_of_set (set inputs \<union> output_ids sha3 a (cx_commitment cx) 0 n))"
    by (rule snapshot_operation_Ok [OF assms(3)])
  have keys: "fst ` set (aj_shares j) = set inputs \<union> output_ids sha3 a (cx_commitment cx) 0 n"
    by (simp add: j image_image output_ids_def)
  show ?thesis
  proof (cases call)
    case (Register x)
    then consider "st' = st" | "op_register sha3 st x cx = Ok st'"
      using assms(2) by (auto simp: apply_monetary_operation_def split: sum.splits)
    then show ?thesis
    proof cases
      case 2
      from op_register_frame [OF assms(1) this] f(1) Register show ?thesis
        by (auto simp: within_footprint_def keys f(2) output_ids_def)
    qed (use assms(1) in \<open>simp add: within_footprint_def\<close>)
  next
    case (Mint x)
    with assms(2) f(1) show ?thesis using op_mint_frame [OF assms(1), of sha3 x cx st' r]
      by (auto simp: apply_monetary_operation_def operation_footprint_def within_footprint_def keys f(2) output_ids_def)
  next
    case (Transfer x)
    with assms(2) f(1) show ?thesis using op_transfer_frame [OF assms(1), of sha3 x cx st' r]
      by (auto simp: apply_monetary_operation_def operation_footprint_def within_footprint_def keys f(2))
  next
    case (Burn x)
    with assms(2) f(1) show ?thesis using op_burn_frame [OF assms(1), of sha3 x cx st' r]
      by (auto simp: apply_monetary_operation_def operation_footprint_def within_footprint_def keys f(2))
  qed
qed

subsection \<open>Undoing with a journal\<close>

definition restore :: "('k \<times> 'v option) list \<Rightarrow> ('k \<rightharpoonup> 'v) \<Rightarrow> ('k \<rightharpoonup> 'v)" where
  "restore js m k = (case map_of js k of None \<Rightarrow> m k | Some previous \<Rightarrow> previous)"

lemma restore_Nil [simp]: "restore [] m = m"
  by (simp add: restore_def fun_eq_iff)

lemma restore_Cons: "k \<notin> fst ` set js \<Longrightarrow> restore ((k, p) # js) m = restore js (m(k := p))"
  by (rule ext) (use map_of_eq_None_iff [of js k] in \<open>auto simp: restore_def split: option.split\<close>)

lemma rollback_record_indexed:
  assumes "indexed st"
  shows "indexed (rollback_record (k, p) st) \<and> st_records (rollback_record (k, p) st) = (st_records st)(k := p) \<and>
    st_shares (rollback_record (k, p) st) = st_shares st \<and> st_balances (rollback_record (k, p) st) = st_balances st"
proof (cases "st_records st k = p")
  case True
  then show ?thesis using assms by (auto simp: rollback_record_def)
next
  case False
  define r where "r = (st_records st)(k := None)"
  have r: "r k = None" "\<And>v. (st_records st)(k \<mapsto> v) = r(k \<mapsto> v)" by (simp_all add: r_def)
  have i: "finite (dom (st_records st))" "st_roles st = role_index (st_records st)" using assms by (simp_all add: indexed_def)
  show ?thesis
  proof (cases "st_records st k")
    case None
    then show ?thesis using False assms i
      by (cases p) (auto simp: rollback_record_def Let_def indexed_def index_asset_role_def role_index_insert)
  next
    case (Some v)
    then have "role_index r = index_remove (index_remove (st_roles st) (md_creator (ar_metadata v)) k) (md_mint_authority (ar_metadata v)) k"
      unfolding i(2) r_def by (rule role_index_remove)
    then show ?thesis using False assms i(1) Some r
      by (cases p) (simp_all add: rollback_record_def Let_def indexed_def index_asset_role_def unindex_asset_role_def role_index_insert,
          simp_all add: r_def)
  qed
qed

lemma rollback_share_indexed:
  assumes "indexed st"
  shows "indexed (rollback_share (k, p) st) \<and> st_shares (rollback_share (k, p) st) = (st_shares st)(k := p) \<and>
    st_records (rollback_share (k, p) st) = st_records st"
  using indexed_put_share [OF assms] indexed_remove_share [OF assms] by (cases p) (simp_all add: rollback_share_def)

lemma fold_rollback_record:
  assumes "indexed st" and "distinct (map fst js)"
  shows "indexed (fold rollback_record js st) \<and> st_records (fold rollback_record js st) = restore js (st_records st) \<and>
    st_shares (fold rollback_record js st) = st_shares st \<and> st_balances (fold rollback_record js st) = st_balances st"
  using assms
proof (induction js arbitrary: st)
  case (Cons x js)
  obtain k p where x: "x = (k, p)" by (cases x)
  note r = rollback_record_indexed [OF Cons.prems(1), of k p]
  have "restore (x # js) (st_records st) = restore js ((st_records st)(k := p))"
    using Cons.prems(2) unfolding x by (intro restore_Cons) simp
  then show ?case using Cons.IH [of "rollback_record x st"] r Cons.prems(2) by (simp add: x del: fun_upd_apply)
qed simp

lemma fold_rollback_share:
  assumes "indexed st" and "distinct (map fst js)"
  shows "indexed (fold rollback_share js st) \<and> st_shares (fold rollback_share js st) = restore js (st_shares st) \<and>
    st_records (fold rollback_share js st) = st_records st"
  using assms
proof (induction js arbitrary: st)
  case (Cons x js)
  obtain k p where x: "x = (k, p)" by (cases x)
  note r = rollback_share_indexed [OF Cons.prems(1), of k p]
  have "restore (x # js) (st_shares st) = restore js ((st_shares st)(k := p))"
    using Cons.prems(2) unfolding x by (intro restore_Cons) simp
  then show ?case using Cons.IH [of "rollback_share x st"] r Cons.prems(2) by (simp add: x del: fun_upd_apply)
qed simp

text \<open>A journal remembers a state where its entries are the state's own and the rest is unchanged.\<close>

definition remembers :: "asset_journal \<Rightarrow> asset_state \<Rightarrow> asset_state \<Rightarrow> bool" where
  "remembers j st st' \<longleftrightarrow> distinct (map fst (aj_records j)) \<and> distinct (map fst (aj_shares j)) \<and>
     (\<forall>(k, p) \<in> set (aj_records j). p = st_records st k) \<and> (\<forall>(k, p) \<in> set (aj_shares j). p = st_shares st k) \<and>
     (\<forall>k. k \<notin> fst ` set (aj_records j) \<longrightarrow> st_records st' k = st_records st k) \<and>
     (\<forall>k. k \<notin> fst ` set (aj_shares j) \<longrightarrow> st_shares st' k = st_shares st k)"

lemma restore_remembered:
  assumes "\<forall>(k, p) \<in> set js. p = m k" and "\<forall>k. k \<notin> fst ` set js \<longrightarrow> m' k = m k"
  shows "restore js m' = m"
proof
  fix k
  show "restore js m' k = m k"
  proof (cases "map_of js k")
    case None
    then have "k \<notin> fst ` set js" by (simp add: map_of_eq_None_iff)
    with None show ?thesis using assms(2) by (simp add: restore_def)
  next
    case (Some p)
    then show ?thesis using assms(1) by (auto simp: restore_def dest: map_of_SomeD)
  qed
qed

lemma asset_rollback_restores:
  assumes "indexed st'" and "remembers j st st'"
  shows "indexed (asset_rollback st' j) \<and> st_records (asset_rollback st' j) = st_records st \<and>
    st_shares (asset_rollback st' j) = st_shares st"
proof -
  have r: "restore (aj_records j) (st_records st') = st_records st"
    by (rule restore_remembered) (use assms(2) in \<open>auto simp: remembers_def\<close>)
  have s: "restore (aj_shares j) (st_shares st') = st_shares st"
    by (rule restore_remembered) (use assms(2) in \<open>auto simp: remembers_def\<close>)
  have 1: "indexed (fold rollback_record (aj_records j) st')" "st_records (fold rollback_record (aj_records j) st') = st_records st"
    "st_shares (fold rollback_record (aj_records j) st') = st_shares st'"
    using fold_rollback_record [OF assms(1), of "aj_records j"] assms(2) r by (auto simp: remembers_def)
  show ?thesis using fold_rollback_share [OF 1(1), of "aj_shares j"] assms(2) 1(2,3) s
    by (simp add: asset_rollback_def remembers_def)
qed

text \<open>The canonical maps determine the owner and role indexes.\<close>

lemma indexed_unique:
  assumes "indexed st" and "indexed st'" and "st_records st' = st_records st" and "st_shares st' = st_shares st"
  shows "st_by_owner st' = st_by_owner st \<and> st_roles st' = st_roles st"
  using assms by (simp add: indexed_def)


subsection \<open>Cached balances while undoing\<close>

definition share_weight :: "owner \<Rightarrow> hash \<Rightarrow> asset_share option \<Rightarrow> nat" where
  "share_weight x a v = (case v of
     Some sh \<Rightarrow> if as_owner sh = x \<and> as_asset sh = a then unat (as_amount sh) else 0 | None \<Rightarrow> 0)"

lemma balance_over:
  assumes "dom s \<subseteq> U" and "finite U"
  shows "balance s x a = (\<Sum>i\<in>U. share_weight x a (s i))"
proof -
  have "(\<Sum>i\<in>U. share_weight x a (s i)) = (\<Sum>i\<in>dom s. share_weight x a (s i))"
    using assms by (intro sum.mono_neutral_right) (auto simp: share_weight_def split: option.splits)
  also have "\<dots> = balance s x a" unfolding balance_def by (rule sum.cong) (auto simp: share_weight_def)
  finally show ?thesis by simp
qed

lemma balance_mixed:
  assumes "finite (dom s)" and "finite (dom s')" and mixed: "\<forall>i. m i = s i \<or> m i = s' i"
  shows "balance m x a \<le> balance s x a + balance s' x a"
proof -
  let ?U = "dom s \<union> dom s'"
  have fin: "finite ?U" using assms by simp
  have dom: "dom m \<subseteq> ?U"
  proof
    fix i
    assume "i \<in> dom m"
    then show "i \<in> ?U" using mixed [rule_format, of i] by auto
  qed
  have "share_weight x a (m i) \<le> share_weight x a (s i) + share_weight x a (s' i)" for i
    using mixed [rule_format, of i] by auto
  then have "(\<Sum>i\<in>?U. share_weight x a (m i)) \<le> (\<Sum>i\<in>?U. share_weight x a (s i) + share_weight x a (s' i))"
    by (rule sum_mono)
  then show ?thesis
    by (simp add: balance_over [OF dom fin] balance_over [of s ?U, OF _ fin] balance_over [of s' ?U, OF _ fin] sum.distrib)
qed

lemma fold_rollback_share_balanced:
  assumes "indexed st" and "balanced st" and target: "\<forall>(k, p) \<in> set js. p = s k"
    and nonzero: "\<forall>i sh. s i = Some sh \<longrightarrow> as_amount sh \<noteq> 0"
    and mixed: "\<forall>i. st_shares st i = s i \<or> st_shares st i = s' i"
    and fin: "finite (dom s)" "finite (dom s')" and fits: "\<forall>x a. balance s x a + balance s' x a < 2 ^ 128"
  shows "balanced (fold rollback_share js st)"
  using assms(1,2) target mixed
proof (induction js arbitrary: st)
  case (Cons e js)
  obtain k where e: "e = (k, s k)" using Cons.prems(3) by (cases e) auto
  note r = rollback_share_indexed [OF Cons.prems(1), of k "s k"]
  have "balanced (rollback_share (k, s k) st)"
  proof (cases "s k")
    case None
    then show ?thesis using balanced_remove_share [OF Cons.prems(2)] Cons.prems(1) by (simp add: rollback_share_def indexed_def)
  next
    case (Some sh)
    let ?m = "(st_shares st)(k := None)"
    have "finite (dom ?m)" using Cons.prems(1) by (simp add: indexed_def)
    then have "balance (?m(k \<mapsto> sh)) (as_owner sh) (as_asset sh) = balance ?m (as_owner sh) (as_asset sh) + unat (as_amount sh)"
      by (subst balance_insert) simp_all
    moreover have "balance (?m(k \<mapsto> sh)) (as_owner sh) (as_asset sh) \<le>
        balance s (as_owner sh) (as_asset sh) + balance s' (as_owner sh) (as_asset sh)"
      by (rule balance_mixed [OF fin]) (use Cons.prems(4) Some in auto)
    ultimately have "balance ?m (as_owner sh) (as_asset sh) + unat (as_amount sh) < 2 ^ 128"
      using fits [rule_format, of "as_owner sh" "as_asset sh"] by linarith
    then show ?thesis using balanced_put_share [OF Cons.prems(2,1)] nonzero Some by (simp add: rollback_share_def)
  qed
  then show ?case using Cons.IH [of "rollback_share (k, s k) st"] r Cons.prems(3,4) by (simp add: e)
qed simp

lemma asset_rollback_exact:
  assumes "asset_inv st" and "indexed st'" and "balanced st'" and "remembers j st st'"
    and fits: "\<forall>x a. balance (st_shares st) x a + balance (st_shares st') x a < 2 ^ 128"
  shows "asset_rollback st' j = st"
proof -
  let ?r = "asset_rollback st' j"
  have st: "indexed st" "balanced st" "supply_inv st" using assms(1) by (simp_all add: asset_inv_def)
  have r: "indexed ?r" "st_records ?r = st_records st" "st_shares ?r = st_shares st"
    using asset_rollback_restores [OF assms(2,4)] by auto
  have d: "distinct (map fst (aj_records j))" using assms(4) by (simp add: remembers_def)
  let ?st1 = "fold rollback_record (aj_records j) st'"
  have 1: "indexed ?st1" "st_shares ?st1 = st_shares st'" "st_balances ?st1 = st_balances st'"
    using fold_rollback_record [OF assms(2) d] by auto
  then have "balanced ?st1" using assms(3) by (simp add: balanced_def)
  then have "balanced ?r"
    unfolding asset_rollback_def
    by (rule fold_rollback_share_balanced [OF 1(1), where s = "st_shares st" and s' = "st_shares st'"])
      (use assms(2,4) st fits 1(2) in \<open>auto simp: remembers_def supply_inv_def indexed_def\<close>)
  then have "st_balances ?r = st_balances st" using st(2) r(3) by (simp add: balanced_def)
  with r indexed_unique [OF st(1) r(1)] show ?thesis by (cases st; cases ?r) simp
qed


subsection \<open>What a successful call did\<close>

fun call_minted :: "asset_call \<Rightarrow> nat" where
  "call_minted (Register r) = unat (rg_initial_mint r)"
| "call_minted (Mint m) = unat (mi_amount m)"
| "call_minted _ = 0"

fun call_burned :: "asset_call \<Rightarrow> nat" where
  "call_burned (Burn b) = unat (bn_amount b)"
| "call_burned _ = 0"

lemma asset_apply_Ok:
  assumes "asset_apply sha3 st call cx = (st', Ok j)"
  obtains j0 where "snapshot_operation sha3 st call cx = Ok j0"
    and "apply_monetary_operation sha3 st call cx = (st', Ok ())"
    and "j = \<lparr>aj_records = filter (\<lambda>(k, previous). st_records st' k \<noteq> previous) (aj_records j0),
      aj_shares = filter (\<lambda>(k, previous). st_shares st' k \<noteq> previous) (aj_shares j0)\<rparr>"
  using assms by (auto simp: asset_apply_def result_simps split: sum.splits prod.splits)

lemma asset_apply_Err:
  assumes "asset_apply sha3 st call cx = (st', Err e)"
  obtains "st' = st"
  | j0 st1 where "snapshot_operation sha3 st call cx = Ok j0" and "apply_monetary_operation sha3 st call cx = (st1, Err e)"
    and "st' = asset_rollback st1 j0"
  using assms by (auto simp: asset_apply_def result_simps split: sum.splits prod.splits)

lemma snapshot_remembers:
  assumes "indexed st" and "apply_monetary_operation sha3 st call cx = (st', r)" and "snapshot_operation sha3 st call cx = Ok j"
  shows "remembers j st st'"
proof -
  note w = operation_within_footprint [OF assms]
  obtain a inputs n where "aj_records j = [(a, st_records st a)]"
    and "aj_shares j = map (\<lambda>i. (i, st_shares st i)) (sorted_list_of_set (set inputs \<union> output_ids sha3 a (cx_commitment cx) 0 n))"
    by (rule snapshot_operation_Ok [OF assms(3)])
  then show ?thesis using w by (auto simp: remembers_def within_footprint_def comp_def)
qed

lemma filter_changed:
  assumes "\<forall>(k, p) \<in> set js. p = m k" and "\<forall>k. k \<notin> fst ` set js \<longrightarrow> m' k = m k"
    and "k \<notin> fst ` set (filter (\<lambda>(k, p). m' k \<noteq> p) js)"
  shows "m' k = m k"
proof (cases "k \<in> fst ` set js")
  case True
  then obtain p where p: "(k, p) \<in> set js" by auto
  then have "p = m k" using assms(1) by auto
  moreover have "(k, p) \<notin> set (filter (\<lambda>(k, p). m' k \<noteq> p) js)" using assms(3) by (metis fst_conv imageI)
  ultimately show ?thesis using p by simp
qed (use assms(2) in simp)

lemma filter_remembered:
  "\<forall>(k, p) \<in> set js. p = m k \<Longrightarrow> \<forall>(k, p) \<in> set (filter P js). p = m k"
  by auto

lemma remembers_filter:
  assumes "remembers j st st'"
  shows "remembers \<lparr>aj_records = filter (\<lambda>(k, previous). st_records st' k \<noteq> previous) (aj_records j),
      aj_shares = filter (\<lambda>(k, previous). st_shares st' k \<noteq> previous) (aj_shares j)\<rparr> st st'"
proof -
  from assms have d: "distinct (map fst (aj_records j))" "distinct (map fst (aj_shares j))"
    and p: "\<forall>(k, p) \<in> set (aj_records j). p = st_records st k" "\<forall>(k, p) \<in> set (aj_shares j). p = st_shares st k"
    and f: "\<forall>k. k \<notin> fst ` set (aj_records j) \<longrightarrow> st_records st' k = st_records st k"
      "\<forall>k. k \<notin> fst ` set (aj_shares j) \<longrightarrow> st_shares st' k = st_shares st k"
    unfolding remembers_def by blast+
  show ?thesis
    unfolding remembers_def asset_journal.simps
    by (intro conjI allI impI distinct_map_filter d filter_remembered p filter_changed [OF p(1) f(1)] filter_changed [OF p(2) f(2)])
qed

definition supply_of :: "asset_state \<Rightarrow> hash \<Rightarrow> nat" where
  "supply_of st a = (case st_records st a of None \<Rightarrow> 0 | Some r \<Rightarrow> unat (ar_supply r))"

lemma asset_total_supply: "supply_inv st \<Longrightarrow> asset_total (st_shares st) a = supply_of st a"
proof (cases "st_records st a")
  case None
  assume "supply_inv st"
  then have "\<forall>i sh. st_shares st i = Some sh \<longrightarrow> as_asset sh \<noteq> a" using None unfolding supply_inv_def by blast
  then show ?thesis using None by (simp add: supply_of_def asset_total_zero)
qed (simp add: supply_of_def supply_inv_def)

lemma op_supply_change:
  assumes inv: "asset_inv st" and ap: "apply_monetary_operation sha3 st call cx = (st', Ok ())"
    and f: "operation_footprint sha3 call cx = Ok (a, inputs, n)"
  shows "supply_of st' a + call_burned call = supply_of st a + call_minted call"
proof (cases call)
  case (Register r)
  then have "st_records st a = None \<and> (\<exists>r'. st_records st' a = Some r' \<and> ar_supply r' = rg_initial_mint r)"
    using ap f by (auto simp: apply_monetary_operation_def operation_footprint_def op_register_def result_simps Let_def
        index_asset_role_def split: sum.splits if_splits)
  then show ?thesis using Register by (auto simp: supply_of_def)
next
  case (Mint c)
  then have "\<exists>r r'. st_records st a = Some r \<and> st_records st' a = Some r' \<and> unat (ar_supply r') = unat (ar_supply r) + unat (mi_amount c)"
    using ap f by (auto simp: apply_monetary_operation_def operation_footprint_def op_mint_def result_simps checked_simps
        split: sum.splits if_splits option.splits)
  then show ?thesis using Mint by (auto simp: supply_of_def)
next
  case (Transfer c)
  then have "op_transfer sha3 st c cx = (st', Ok ())" using ap by (simp add: apply_monetary_operation_def)
  then show ?thesis using op_transfer_frame [of st sha3 c cx st'] inv Transfer by (simp add: asset_inv_def supply_of_def)
next
  case (Burn c)
  then have "op_burn sha3 st c cx = (st', Ok ())" using ap by (simp add: apply_monetary_operation_def)
  then obtain r st2 where r: "st_records st (bn_asset c) = Some r" "unat (bn_amount c) \<le> unat (ar_supply r)"
    and st': "st' = st2\<lparr>st_records := (st_records st)(bn_asset c \<mapsto>
        r\<lparr>ar_supply := ar_supply r - bn_amount c, ar_total_burned := ar_total_burned r + bn_amount c\<rparr>)\<rparr>"
    by (rule op_burn_effect [OF inv])
  then show ?thesis using Burn f by (simp add: supply_of_def operation_footprint_def unat_sub word_le_nat_alt)
qed

lemma supply_of_others:
  assumes "indexed st" and "apply_monetary_operation sha3 st call cx = (st', r)"
    and "snapshot_operation sha3 st call cx = Ok j" and "b \<notin> fst ` set (aj_records j)"
  shows "supply_of st' b = supply_of st b"
  using operation_within_footprint [OF assms(1-3)] assms(4) by (simp add: within_footprint_def supply_of_def)

subsection \<open>Partial effects of a failing operation\<close>

text \<open>\<open>shrunk st st'\<close>: a consistent state in which no asset is worth more than before.\<close>

definition shrunk :: "asset_state \<Rightarrow> asset_state \<Rightarrow> bool" where
  "shrunk st st' \<longleftrightarrow> indexed st' \<and> balanced st' \<and> (\<forall>b. asset_total (st_shares st') b \<le> asset_total (st_shares st) b)"

lemma insert_outputs_partial:
  assumes "indexed st" and "balanced st" and "insert_outputs sha3 st a c k outs = (st', r)"
    and "\<forall>out \<in> set outs. ao_amount out \<noteq> 0" and "asset_total (st_shares st) a + outputs_value outs < 2 ^ 128"
  shows "\<exists>n \<le> outputs_value outs. grows st st' a n"
  using assms
proof (induction outs arbitrary: st k)
  case Nil
  then have "grows st st' a 0" by (simp add: grows_def)
  then show ?case by blast
next
  case (Cons out outs)
  have v: "outputs_value (out # outs) = unat (ao_amount out) + outputs_value outs" by (simp add: outputs_value_def)
  show ?case
  proof (cases "insert_share sha3 st a c k (ao_amount out) (ao_recipient out)")
    case (Inl e)
    then have "grows st st' a 0" using Cons.prems by (simp add: grows_def)
    then show ?thesis by blast
  next
    case (Inr st1)
    then have g: "grows st st1 a (unat (ao_amount out))"
      using Cons.prems v by (intro insert_share_grows) simp_all
    then have "\<exists>n \<le> outputs_value outs. grows st1 st' a n"
      using Cons.prems Inr v by (intro Cons.IH [of st1 "Suc k"]) (simp_all add: grows_def)
    then obtain n where "n \<le> outputs_value outs" "grows st1 st' a n" by blast
    with grows_trans [OF g] v show ?thesis by (intro exI [of _ "unat (ao_amount out) + n"]) simp
  qed
qed

lemma remove_inputs_shrunk:
  assumes "asset_inv st" and "distinct is" and "inputs_of (st_shares st) a x is"
  shows "shrunk st (remove_inputs st is)"
proof -
  have i: "indexed st" "balanced st" using assms(1) by (simp_all add: asset_inv_def)
  have "asset_total (st_shares (remove_inputs st is)) b \<le> asset_total (st_shares st) b" for b
    using remove_inputs_total [OF i(1) assms(2,3), of b] by linarith
  then show ?thesis using remove_inputs_indexed [OF i(1)] remove_inputs_balanced [OF i(2,1)] by (simp add: shrunk_def)
qed

lemma asset_total_bound: "asset_inv st \<Longrightarrow> a \<in> dom (st_records st) \<Longrightarrow> asset_total (st_shares st) a < 2 ^ 128"
  using unat_units_bound by (auto simp: asset_inv_def supply_inv_def)

lemma op_transfer_shrunk:
  assumes inv: "asset_inv st" and "op_transfer sha3 st c cx = (st', Err e)"
  shows "shrunk st st'"
proof (cases "st' = st")
  case True
  then show ?thesis using inv by (simp add: shrunk_def asset_inv_def)
next
  case False
  let ?a = "tf_asset c" and ?st = "remove_inputs st (tf_inputs c)"
  from False assms(2) obtain t where a: "?a \<in> dom (st_records st)" and d: "distinct (tf_inputs c)"
    and t: "input_total st ?a (tf_inputs c) (cx_actor cx) = Ok t" "output_total (tf_outputs c) = Ok t"
    and ins: "insert_outputs sha3 ?st ?a (cx_commitment cx) 0 (tf_outputs c) = (st', Err e)"
    by (auto simp: op_transfer_def result_simps ensure_unique_asset_inputs_Ok split: if_splits sum.splits)
  have i: "inputs_of (st_shares st) ?a (cx_actor cx) (tf_inputs c)" and v: "outputs_value (tf_outputs c) = inputs_value (st_shares st) (tf_inputs c)"
    using input_total_Ok [OF t(1)] output_total_Ok [OF t(2)] by simp_all
  have s: "shrunk st ?st" by (rule remove_inputs_shrunk [OF inv d i])
  have tot: "asset_total (st_shares ?st) b + (if ?a = b then outputs_value (tf_outputs c) else 0) = asset_total (st_shares st) b" for b
    using remove_inputs_total [OF _ d i, of b] inv unfolding asset_inv_def v by blast
  have "\<exists>n \<le> outputs_value (tf_outputs c). grows ?st st' ?a n"
    by (rule insert_outputs_partial [OF _ _ ins]) (use s output_total_Ok [OF t(2)] tot [of ?a] asset_total_bound [OF inv a] in \<open>simp_all add: shrunk_def\<close>)
  then obtain n where n: "n \<le> outputs_value (tf_outputs c)" "grows ?st st' ?a n" by blast
  then have "asset_total (st_shares st') b \<le> asset_total (st_shares st) b" for b
    using tot [of b] by (auto simp: grows_def split: if_splits)
  then show ?thesis using n(2) by (simp add: shrunk_def grows_def)
qed

lemma op_burn_shrunk:
  assumes inv: "asset_inv st" and "op_burn sha3 st c cx = (st', Err e)"
  shows "shrunk st st'"
proof -
  let ?st = "remove_inputs st (bn_inputs c)"
  have i: "indexed st" using inv by (simp add: asset_inv_def)
  have rem: "indexed ?st" "st_records ?st = st_records st" using remove_inputs_indexed [OF i] by auto
  have keep: "st_records st2 = st_records st" if "insert_share sha3 ?st (bn_asset c) (cx_commitment cx) 0 (bn_output c) (cx_actor cx) = Ok st2" for st2
    using insert_share_frame [OF rem(1) that] rem(2) by simp
  from assms(2) consider "st' = st"
    | t where "st' = ?st" "distinct (bn_inputs c)" "input_total st (bn_asset c) (bn_inputs c) (cx_actor cx) = Ok t"
    using keep rem(2)
    by (auto simp: op_burn_def Let_def result_simps ensure_unique_asset_inputs_Ok split: sum.splits option.splits if_splits)
  then show ?thesis
  proof cases
    case (2 t)
    then show ?thesis using remove_inputs_shrunk [OF inv 2(2)] input_total_Ok [OF 2(3)] by blast
  qed (use inv in \<open>simp add: shrunk_def asset_inv_def\<close>)
qed

lemma op_mint_Err:
  assumes "indexed st" and "op_mint sha3 st c cx = (st', Err e)"
  shows "st' = st"
proof -
  from assms(2) consider "st' = st"
    | st1 r where "insert_share sha3 st (mi_asset c) (cx_commitment cx) 0 (mi_amount c) (mi_recipient c) = Ok st1"
      "st_records st (mi_asset c) = Some r" "st_records st1 (mi_asset c) = None"
    by (auto simp: op_mint_def result_simps split: if_splits sum.splits option.splits)
  then show ?thesis
  proof cases
    case (2 st1 r)
    then show ?thesis using insert_share_frame [OF assms(1) 2(1)] by simp
  qed
qed

lemma failing_operation_shrunk:
  assumes "asset_inv st" and "apply_monetary_operation sha3 st call cx = (st', Err e)"
  shows "shrunk st st'"
proof -
  have i: "indexed st" "shrunk st st" using assms(1) by (simp_all add: asset_inv_def shrunk_def)
  show ?thesis
  proof (cases call)
    case (Register r)
    then show ?thesis using assms(2) i(2) by (simp add: apply_monetary_operation_def split: sum.splits)
  next
    case (Mint c)
    then have "st' = st" using assms(2) by (intro op_mint_Err [OF i(1)]) (simp add: apply_monetary_operation_def)
    with i(2) show ?thesis by simp
  next
    case (Transfer c)
    then show ?thesis using assms(2) by (intro op_transfer_shrunk [OF assms(1)]) (simp add: apply_monetary_operation_def)
  next
    case (Burn c)
    then show ?thesis using assms(2) by (intro op_burn_shrunk [OF assms(1)]) (simp add: apply_monetary_operation_def)
  qed
qed


subsection \<open>A concrete ledger\<close>

text \<open>
  A program owns one share of \<open>v\<close> units, the whole supply of one asset. The hash function of the
  examples copies one byte of its message, the last byte of the commitment in a share derivation.
\<close>

definition sample_hash :: "bytes \<Rightarrow> hash" where
  "sample_hash bs = replicate 32 (rev bs ! 4)"

definition sample_owner :: owner where "sample_owner = owner.Program (replicate 32 7)"

definition sample_share :: "units \<Rightarrow> asset_share" where
  "sample_share v = \<lparr>as_asset = replicate 32 1, as_amount = v, as_owner = sample_owner\<rparr>"

definition sample_record :: "units \<Rightarrow> asset_record" where
  "sample_record v = \<lparr>ar_metadata = \<lparr>md_name = [65], md_max_supply = - 1, md_creator = sample_owner, md_mint_authority = sample_owner\<rparr>,
     ar_supply = v, ar_total_minted = v, ar_mint_nonce = 0, ar_total_burned = 0\<rparr>"

definition sample_state :: "u8 \<Rightarrow> units \<Rightarrow> asset_state" where
  "sample_state k v = \<lparr>st_records = [replicate 32 1 \<mapsto> sample_record v],
     st_shares = [replicate 32 k \<mapsto> sample_share v],
     st_by_owner = [sample_owner \<mapsto> [replicate 32 1 \<mapsto> {replicate 32 k}]],
     st_balances = [(sample_owner, replicate 32 1) \<mapsto> v],
     st_roles = [sample_owner \<mapsto> {replicate 32 1}]\<rparr>"

definition sample_context :: execution_context where
  "sample_context = \<lparr>cx_actor = sample_owner, cx_commitment = replicate 31 0 @ [3]\<rparr>"

definition sample_transfer :: "units list \<Rightarrow> asset_call" where
  "sample_transfer vs = Transfer \<lparr>tf_asset = replicate 32 1, tf_inputs = [replicate 32 2],
     tf_outputs = map (\<lambda>v. \<lparr>ao_recipient = sample_owner, ao_amount = v\<rparr>) vs\<rparr>"

lemma sample_derive: "share_derive sample_hash a (replicate 31 0 @ [k]) n = replicate 32 k"
  by (simp add: share_derive_def domain_def frame_def sample_hash_def nth_append)

lemma sample_inv: "v \<noteq> 0 \<Longrightarrow> asset_inv (sample_state k v)"
proof -
  assume v: "v \<noteq> 0"
  have s: "shares_of [replicate 32 k \<mapsto> sample_share v] = (\<lambda>x a. if x = sample_owner \<and> a = replicate 32 1 then {replicate 32 k} else {})"
    by (intro ext) (auto simp: shares_of_def sample_share_def)
  have b: "balance [replicate 32 k \<mapsto> sample_share v] x a = (if x = sample_owner \<and> a = replicate 32 1 then unat v else 0)" for x a
    by (auto simp: balance_def sample_share_def)
  have i: "indexed (sample_state k v)"
    unfolding indexed_def sample_state_def
    by (auto simp: s nest_def index_of_def role_index_def sample_record_def fun_eq_iff)
  have "balanced (sample_state k v)"
    using v unat_units_bound [of v] by (auto simp: balanced_def sample_state_def balance_index_def b fun_eq_iff unat_eq_0)
  moreover have "supply_inv (sample_state k v)"
    using v by (auto simp: supply_inv_def sample_state_def sample_record_def sample_share_def asset_total_def metadata_validate_def
        validate_asset_name_def ASSET_NAME_MAX_LEN_def trim_def ascii_whitespace_def ascii_graphic_def)
  ultimately show ?thesis using i by (simp add: asset_inv_def)
qed


lemma encodable_accepted: "ok_asset_call c \<Longrightarrow> encodable_call c"
  by (cases c) (auto simp: ok_register_def ok_vec_def MAX_ASSET_INPUTS_def MAX_ASSET_OUTPUTS_def U32_MAX_def)

lemma asset_apply_accepted:
  assumes "asset_call_accepted call" and "snapshot_operation sha3 st call cx = Ok j"
    and "apply_monetary_operation sha3 st call cx = (st', r)"
  shows "asset_apply sha3 st call cx = (case r of
      Inl e \<Rightarrow> (asset_rollback st' j, Err e)
    | Inr _ \<Rightarrow> (st', Ok \<lparr>aj_records = filter (\<lambda>(k, previous). st_records st' k \<noteq> previous) (aj_records j),
        aj_shares = filter (\<lambda>(k, previous). st_shares st' k \<noteq> previous) (aj_shares j)\<rparr>))"
proof -
  have "asset_decode (asset_opcode_byte (opcode_of call)) (enc_asset_call call) = Ok call"
    using assms(1) by (simp only: asset_decode_iff)
  moreover have "encodable_call call" using assms(1) by (simp add: asset_call_accepted_def encodable_accepted)
  ultimately show ?thesis using assms(2,3)
    by (simp add: asset_apply_def canonical_bytes_def split: sum.splits)
qed

lemma sample_accepted:
  "v \<noteq> 0 \<Longrightarrow> asset_call_accepted (sample_transfer [v])" "asset_call_accepted (sample_transfer [2, 3])"
  by (simp_all add: asset_call_accepted_def sample_transfer_def sample_owner_def ok_vec_def ok_asset_output_def ok_owner_def
      HASH_SIZE_def MAX_ASSET_INPUTS_def MAX_ASSET_OUTPUTS_def U32_MAX_def enc_transfer_def enc_vec_def enc_array_def enc_asset_output_def
      enc_owner_def validate_inputs_def enc_seq_def ensure_unique_asset_inputs_def checked_add_def unat_units_bound [simplified])

lemma sample_order: "(replicate 32 2 :: hash) \<le> replicate 32 3"
  by code_simp

lemma sample_snapshot:
  "snapshot_operation sample_hash (sample_state 2 v) (sample_transfer [w]) sample_context =
     Ok \<lparr>aj_records = [(replicate 32 1, Some (sample_record v))],
         aj_shares = [(replicate 32 2, Some (sample_share v)), (replicate 32 3, None)]\<rparr>"
  "snapshot_operation sample_hash (sample_state 2 v) (sample_transfer [w, w']) sample_context =
     Ok \<lparr>aj_records = [(replicate 32 1, Some (sample_record v))],
         aj_shares = [(replicate 32 2, Some (sample_share v)), (replicate 32 3, None)]\<rparr>"
  by (simp_all add: snapshot_operation_def operation_footprint_def sample_transfer_def sample_context_def sample_derive
      sample_state_def try_from_nat_def sample_order)

lemma sample_spent:
  "fst (remove_share (sample_state 2 v) (replicate 32 2)) = sample_state 2 v
     \<lparr>st_shares := Map.empty, st_by_owner := Map.empty, st_balances := Map.empty\<rparr>"
  by (simp add: remove_share_def sample_state_def sample_share_def unfile_share_def index_remove_def checked_sub_def)

lemma sample_input: "input_total (sample_state 2 v) (replicate 32 1) [replicate 32 2] sample_owner = Ok v"
  by (simp add: input_total_def sample_state_def sample_share_def checked_add_def unat_units_bound [simplified])

lemma sample_put:
  "insert_share sample_hash (sample_state 2 v\<lparr>st_shares := Map.empty, st_by_owner := Map.empty, st_balances := Map.empty\<rparr>)
     (replicate 32 1) (replicate 31 0 @ [3]) 0 w sample_owner =
   Ok (sample_state 2 v\<lparr>st_shares := [replicate 32 3 \<mapsto> sample_share w],
     st_by_owner := [sample_owner \<mapsto> [replicate 32 1 \<mapsto> {replicate 32 3}]], st_balances := [(sample_owner, replicate 32 1) \<mapsto> w]\<rparr>)"
  by (simp add: insert_share_Ok sample_derive put_share_def remove_share_def file_share_def index_add_def sample_share_def
      saturating_add_def unat_units_bound [simplified])

lemmas sample_evaluation = op_transfer_def sample_context_def sample_input output_total_def ensure_unique_asset_inputs_def
  checked_add_def remove_inputs_def sample_spent apply_monetary_operation_def sample_transfer_def unat_units_bound [simplified]

lemma sample_known: "replicate 32 1 \<in> dom (st_records (sample_state k v))"
  by (simp add: sample_state_def)

lemma sample_move:
  "v \<noteq> 0 \<Longrightarrow> apply_monetary_operation sample_hash (sample_state 2 v) (sample_transfer [v]) sample_context = (sample_state 3 v, Ok ())"
  using sample_known [of 2 v] by (simp add: sample_evaluation sample_put) (simp add: sample_state_def)

lemma sample_collision:
  "snd (apply_monetary_operation sample_hash (sample_state 2 5) (sample_transfer [2, 3]) sample_context) = Err ShareAlreadyExists"
  using sample_known [of 2 5] by (simp add: sample_evaluation sample_put, simp add: insert_share_def try_from_nat_def sample_derive)


lemma sample_apply:
  assumes "v \<noteq> 0"
  shows "asset_apply sample_hash (sample_state 2 v) (sample_transfer [v]) sample_context =
    (sample_state 3 v, Ok \<lparr>aj_records = [], aj_shares = [(replicate 32 2, Some (sample_share v)), (replicate 32 3, None)]\<rparr>)"
  by (simp add: asset_apply_accepted [OF sample_accepted(1) [OF assms] sample_snapshot(1) sample_move [OF assms]])
    (simp add: sample_state_def)

lemma sample_fail: "\<exists>st'. asset_apply sample_hash (sample_state 2 5) (sample_transfer [2, 3]) sample_context = (st', Err ShareAlreadyExists)"
proof -
  obtain st1 where "apply_monetary_operation sample_hash (sample_state 2 5) (sample_transfer [2, 3]) sample_context = (st1, Err ShareAlreadyExists)"
    using sample_collision by (metis prod.collapse)
  from asset_apply_accepted [OF sample_accepted(2) sample_snapshot(2) this] show ?thesis by simp
qed

lemma sample_total: "asset_total (st_shares (sample_state k v)) a = (if a = replicate 32 1 then unat v else 0)"
  by (simp add: asset_total_def sample_state_def sample_share_def)

lemma sample_balance: "balance (st_shares (sample_state k v)) x a = (if x = sample_owner \<and> a = replicate 32 1 then unat v else 0)"
  by (auto simp: balance_def sample_state_def sample_share_def)

subsection \<open>Properties\<close>

text \<open>C2. Supply is conserved: a call that succeeds keeps every table and index consistent, with the
  supply of each asset equal to the sum of its live shares, minted equal to supply plus burned, and
  minted at most the maximum. The shares of the asset the call names change in total by exactly what
  the call mints and burns, and no other asset changes.\<close>

theorem asset_supply_conserved:
  assumes "asset_inv st" and "asset_apply sha3 st call cx = (st', Ok j)"
  shows "asset_inv st' \<and> (\<exists>a inputs n. operation_footprint sha3 call cx = Ok (a, inputs, n) \<and>
    asset_total (st_shares st') a + call_burned call = asset_total (st_shares st) a + call_minted call \<and>
    (\<forall>b. b \<noteq> a \<longrightarrow> asset_total (st_shares st') b = asset_total (st_shares st) b))"
proof -
  obtain j0 where s: "snapshot_operation sha3 st call cx = Ok j0" and ap: "apply_monetary_operation sha3 st call cx = (st', Ok ())"
    by (rule asset_apply_Ok [OF assms(2)])
  obtain a inputs n where f: "operation_footprint sha3 call cx = Ok (a, inputs, n)" "aj_records j0 = [(a, st_records st a)]"
    by (rule snapshot_operation_Ok [OF s])
  have inv': "asset_inv st'" by (rule apply_monetary_operation_inv [OF assms(1) ap])
  have i: "indexed st" "supply_inv st" "supply_inv st'" using assms(1) inv' by (simp_all add: asset_inv_def)
  have "supply_of st' b = supply_of st b" if "b \<noteq> a" for b
    by (rule supply_of_others [OF i(1) ap s]) (simp add: f(2) that)
  then show ?thesis using f(1) inv' op_supply_change [OF assms(1) ap f(1)]
    by (simp add: asset_total_supply [OF i(2)] asset_total_supply [OF i(3)])
qed

theorem asset_supply_conserved_witness:
  "asset_inv (sample_state 3 5)"
  by (rule asset_supply_conserved [OF sample_inv sample_apply, THEN conjunct1]) simp_all

lemma failed_call_undone:
  assumes "asset_inv st" and "asset_apply sha3 st call cx = (st', Err e)"
  shows "st_records st' = st_records st \<and> st_shares st' = st_shares st \<and> st_by_owner st' = st_by_owner st \<and>
    st_roles st' = st_roles st \<and> ((\<forall>a. 2 * asset_total (st_shares st) a < 2 ^ 128) \<longrightarrow> st' = st)"
  using assms(2)
proof (rule asset_apply_Err)
  fix j0 st1
  assume s: "snapshot_operation sha3 st call cx = Ok j0" and ap: "apply_monetary_operation sha3 st call cx = (st1, Err e)"
    and st': "st' = asset_rollback st1 j0"
  have i: "indexed st" using assms(1) by (simp add: asset_inv_def)
  have sh: "shrunk st st1" by (rule failing_operation_shrunk [OF assms(1) ap])
  have r: "remembers j0 st st1" by (rule snapshot_remembers [OF i ap s])
  have i1: "indexed st1" "balanced st1" using sh by (simp_all add: shrunk_def)
  have "st' = st" if fits: "\<forall>a. 2 * asset_total (st_shares st) a < 2 ^ 128"
    unfolding st'
  proof (rule asset_rollback_exact [OF assms(1) i1 r], intro allI)
    fix x a
    have "balance (st_shares st) x a + balance (st_shares st1) x a \<le> 2 * asset_total (st_shares st) a"
      using balance_le_total [of "st_shares st" x a] balance_le_total [of "st_shares st1" x a] sh
      by (simp add: shrunk_def add_mono mult_2 le_trans)
    then show "balance (st_shares st) x a + balance (st_shares st1) x a < 2 ^ 128" using fits le_less_trans by blast
  qed
  then show ?thesis using asset_rollback_restores [OF i1(1) r] indexed_unique [OF i] unfolding st' by blast
qed simp

text \<open>C16. A call that fails is undone: the records, the shares, the owner index and the role index are
  those before the call, whichever check failed and however many outputs had been written. The whole
  state is restored, cached balances included, when twice each supply fits the 128-bit amount.\<close>

theorem asset_call_atomic:
  assumes "asset_inv st" and "asset_apply sha3 st call cx = (st', Err e)"
  shows "st_records st' = st_records st \<and> st_shares st' = st_shares st \<and> st_by_owner st' = st_by_owner st \<and>
    st_roles st' = st_roles st \<and> ((\<forall>a. 2 * asset_total (st_shares st) a < 2 ^ 128) \<longrightarrow> st' = st)"
  using assms by (rule failed_call_undone)

theorem asset_call_atomic_witness:
  "asset_apply sample_hash (sample_state 2 5) (sample_transfer [2, 3]) sample_context = (sample_state 2 5, Err ShareAlreadyExists)"
proof -
  obtain st' where f: "asset_apply sample_hash (sample_state 2 5) (sample_transfer [2, 3]) sample_context = (st', Err ShareAlreadyExists)"
    using sample_fail by blast
  have "st' = sample_state 2 5" using asset_call_atomic [OF sample_inv f] by (simp add: sample_total)
  with f show ?thesis by simp
qed


lemma journal_undoes:
  assumes "asset_inv st" and "asset_apply sha3 st call cx = (st', Ok j)"
  shows "st_records (asset_rollback st' j) = st_records st \<and> st_shares (asset_rollback st' j) = st_shares st \<and>
    st_by_owner (asset_rollback st' j) = st_by_owner st \<and> st_roles (asset_rollback st' j) = st_roles st \<and>
    ((\<forall>x a. balance (st_shares st) x a + balance (st_shares st') x a < 2 ^ 128) \<longrightarrow> asset_rollback st' j = st)"
proof -
  obtain j0 where s: "snapshot_operation sha3 st call cx = Ok j0" and ap: "apply_monetary_operation sha3 st call cx = (st', Ok ())"
    and j: "j = \<lparr>aj_records = filter (\<lambda>(k, previous). st_records st' k \<noteq> previous) (aj_records j0),
      aj_shares = filter (\<lambda>(k, previous). st_shares st' k \<noteq> previous) (aj_shares j0)\<rparr>"
    by (rule asset_apply_Ok [OF assms(2)])
  have i: "indexed st" using assms(1) by (simp add: asset_inv_def)
  have "asset_inv st'" by (rule apply_monetary_operation_inv [OF assms(1) ap])
  then have i': "indexed st'" "balanced st'" by (simp_all add: asset_inv_def)
  have r: "remembers j st st'" unfolding j by (rule remembers_filter [OF snapshot_remembers [OF i ap s]])
  show ?thesis
    using asset_rollback_restores [OF i'(1) r] indexed_unique [OF i] asset_rollback_exact [OF assms(1) i' r] by blast
qed

text \<open>C17. The journal of a successful call undoes it: rolling it back restores records, shares, owner
  index and role index, and the whole state when the old and the new balance of every owner fit
  together into the 128-bit amount. This is what disconnecting a block relies on.\<close>

theorem asset_journal_undoes:
  assumes "asset_inv st" and "asset_apply sha3 st call cx = (st', Ok j)"
  shows "st_records (asset_rollback st' j) = st_records st \<and> st_shares (asset_rollback st' j) = st_shares st \<and>
    st_by_owner (asset_rollback st' j) = st_by_owner st \<and> st_roles (asset_rollback st' j) = st_roles st \<and>
    ((\<forall>x a. balance (st_shares st) x a + balance (st_shares st') x a < 2 ^ 128) \<longrightarrow> asset_rollback st' j = st)"
  using assms by (rule journal_undoes)

theorem asset_journal_undoes_witness:
  "asset_rollback (sample_state 3 5) \<lparr>aj_records = [], aj_shares = [(replicate 32 2, Some (sample_share 5)), (replicate 32 3, None)]\<rparr> =
    sample_state 2 5"
  using asset_journal_undoes [OF sample_inv sample_apply, of 5] by (simp add: sample_balance)

text \<open>Cached balances as numbers: adding saturates, removing stops at zero.\<close>

lemma cached_remove:
  assumes "st_shares st i = Some sh"
  shows "unat (balance_by_owner_asset (fst (remove_share st i)) (as_owner sh) (as_asset sh)) =
    unat (balance_by_owner_asset st (as_owner sh) (as_asset sh)) - unat (as_amount sh)"
  using assms
  by (cases "st_balances st (as_owner sh, as_asset sh)")
    (auto simp: remove_share_def balance_by_owner_asset_def unit_or_zero_def Let_def checked_sub_def unat_sub word_le_nat_alt split: option.splits)

lemma cached_put:
  assumes "st_shares st i = None"
  shows "unat (balance_by_owner_asset (put_share st i sh) (as_owner sh) (as_asset sh)) =
    min (unat (balance_by_owner_asset st (as_owner sh) (as_asset sh)) + unat (as_amount sh)) (2 ^ 128 - 1)"
  using assms
  by (simp add: put_share_def remove_share_def balance_by_owner_asset_def unit_or_zero_def Let_def unat_saturating_add)

lemma cached_balance:
  "balanced st \<Longrightarrow> unat (balance_by_owner_asset st x a) = balance (st_shares st) x a"
  by (auto simp: balanced_def balance_index_def balance_by_owner_asset_def unit_or_zero_def unat_of_nat)

text \<open>The transfer of one whole share by its owner to itself.\<close>

abbreviation self_transfer :: "hash \<Rightarrow> hash \<Rightarrow> owner \<Rightarrow> units \<Rightarrow> asset_call" where
  "self_transfer a i x v \<equiv> Transfer \<lparr>tf_asset = a, tf_inputs = [i], tf_outputs = [\<lparr>ao_recipient = x, ao_amount = v\<rparr>]\<rparr>"

lemma self_transfer_shape:
  assumes "asset_apply sha3 st (self_transfer a i (cx_actor cx) v) cx = (st', Ok j)" and "k = share_derive sha3 a (cx_commitment cx) 0"
  defines "sh \<equiv> \<lparr>as_asset = a, as_amount = v, as_owner = cx_actor cx\<rparr>"
  shows "st_shares st i = Some sh \<and> (k \<noteq> i \<longrightarrow> st_shares st k = None) \<and> st' = put_share (fst (remove_share st i)) k sh \<and>
    (k \<noteq> i \<longrightarrow> j = \<lparr>aj_records = [], aj_shares = (if i < k then [(i, Some sh), (k, None)] else [(k, None), (i, Some sh)])\<rparr>) \<and>
    (k = i \<longrightarrow> j = \<lparr>aj_records = [], aj_shares = []\<rparr>)"
proof -
  obtain j0 where s: "snapshot_operation sha3 st (self_transfer a i (cx_actor cx) v) cx = Ok j0"
    and ap: "apply_monetary_operation sha3 st (self_transfer a i (cx_actor cx) v) cx = (st', Ok ())"
    and j: "j = \<lparr>aj_records = filter (\<lambda>(k, previous). st_records st' k \<noteq> previous) (aj_records j0),
      aj_shares = filter (\<lambda>(k, previous). st_shares st' k \<noteq> previous) (aj_shares j0)\<rparr>"
    by (rule asset_apply_Ok [OF assms(1)])
  have i: "st_shares st i = Some sh" and ins: "insert_share sha3 (fst (remove_share st i)) a (cx_commitment cx) 0 v (cx_actor cx) = Ok st'"
    using ap by (auto simp: apply_monetary_operation_def op_transfer_def result_simps input_total_def output_total_def remove_inputs_def
        checked_add_def sh_def split: if_splits sum.splits)
  have rem: "st_shares (fst (remove_share st i)) = (st_shares st)(i := None)" "st_records (fst (remove_share st i)) = st_records st"
    by (simp_all add: remove_share_def i Let_def)
  have st': "st' = put_share (fst (remove_share st i)) k sh" and free: "k \<noteq> i \<Longrightarrow> st_shares st k = None"
    using ins rem by (auto simp: insert_share_def try_from_nat_def result_simps Let_def assms(2) sh_def split: if_splits)
  have sh': "st_records st' = st_records st" "st_shares st' = (st_shares st)(i := None, k \<mapsto> sh)"
    using rem by (auto simp: st' put_share_def remove_share_def Let_def split: option.splits)
  have "j0 = \<lparr>aj_records = [(a, st_records st a)], aj_shares = map (\<lambda>i. (i, st_shares st i)) (sorted_list_of_set {i, k})\<rparr>"
    using s by (auto simp: snapshot_operation_def operation_footprint_def result_simps try_from_nat_def assms(2) insert_commute split: if_splits)
  moreover have "sorted_list_of_set {i, k} = (if i < k then [i, k] else [k, i])" if "k \<noteq> i"
    using that by (auto simp: not_le dest: less_imp_le)
  ultimately have "k \<noteq> i \<Longrightarrow> j = \<lparr>aj_records = [], aj_shares = (if i < k then [(i, Some sh), (k, None)] else [(k, None), (i, Some sh)])\<rparr>"
    and "k = i \<Longrightarrow> j = \<lparr>aj_records = [], aj_shares = []\<rparr>"
    unfolding j using sh' i free by auto
  with i free st' show ?thesis by blast
qed

text \<open>C40. The bound on balances in the rollback of a journal is needed, and the loss is exact. When the owner of a share
  moves all of it to itself and the move is rolled back, the share is back; the cached balance is the true
  balance, unless the new identifier sorts after the old one and balance and amount together exceed 128
  bits. Then the old share is put back before the new one is removed, the sum saturates in between, and the
  cached balance ends at \<open>2 ^ 128 - 1\<close> less the amount, below the true balance.\<close>

theorem rollback_loses_balance:
  assumes "asset_inv st" and "asset_apply sha3 st (self_transfer a i (cx_actor cx) v) cx = (st', Ok j)"
  shows "let total = balance (st_shares st) (cx_actor cx) a;
       lost = (i < share_derive sha3 a (cx_commitment cx) 0 \<and> 2 ^ 128 \<le> total + unat v);
       cached = (\<lambda>st. unat (balance_by_owner_asset st (cx_actor cx) a)) in
     cached st = total \<and> st_shares (asset_rollback st' j) = st_shares st \<and>
     cached (asset_rollback st' j) = (if lost then 2 ^ 128 - 1 - unat v else total) \<and> (lost \<longrightarrow> 2 ^ 128 - 1 - unat v < total)"
proof -
  define k where "k = share_derive sha3 a (cx_commitment cx) 0"
  define sh where "sh = \<lparr>as_asset = a, as_amount = v, as_owner = cx_actor cx\<rparr>"
  note shape = self_transfer_shape [OF assms(2) k_def, folded sh_def]
  let ?cached = "\<lambda>st. unat (balance_by_owner_asset st (cx_actor cx) a)" and ?B = "balance (st_shares st) (cx_actor cx) a"
  have inv: "indexed st" "balanced st" using assms(1) by (simp_all add: asset_inv_def)
  have B: "?cached st = ?B" "?B < 2 ^ 128" using cached_balance [OF inv(2)] inv(2) by (simp_all add: balanced_def)
  have v: "unat v \<le> ?B" using balance_remove [of "st_shares st" i sh "cx_actor cx" a] shape inv(1) by (simp add: indexed_def sh_def)
  have rem: "?cached (fst (remove_share s l)) = ?cached s - unat v" if "st_shares s l = Some sh" for s l
    using cached_remove [OF that] by (simp add: sh_def)
  have put: "?cached (put_share s l sh) = min (?cached s + unat v) (2 ^ 128 - 1)" if "st_shares s l = None" for s l
    using cached_put [OF that, of sh] by (simp add: sh_def)
  have shares: "st_shares (fst (remove_share s l)) = (st_shares s)(l := None)" "st_shares (put_share s l sh) = (st_shares s)(l \<mapsto> sh)" for s l
    by (auto simp: remove_share_def put_share_def Let_def split: option.splits)
  have "?cached st' = ?B" using shape rem [of st i] put [of "fst (remove_share st i)" k] shares(1) [of st i] B v by (cases "k = i") auto
  then have "?cached (asset_rollback st' j) = (if i < k \<and> 2 ^ 128 \<le> ?B + unat v then 2 ^ 128 - 1 - unat v else ?B)"
  proof (cases "k = i")
    case False
    have live: "st_shares st' = (st_shares st)(i := None, k \<mapsto> sh)" using shape by (simp add: shares)
    consider "i < k" | "k < i" using False by (meson linorder_neqE)
    then show ?thesis
    proof cases
      case 1
      then have "asset_rollback st' j = fst (remove_share (put_share st' i sh) k)"
        using shape by (simp add: asset_rollback_def rollback_share_def)
      moreover have "st_shares (put_share st' i sh) k = Some sh" "st_shares st' i = None" using live False by (simp_all add: shares)
      ultimately show ?thesis using rem put \<open>?cached st' = ?B\<close> 1 B(2) by (simp add: min_def)
    next
      case 2
      then have no: "\<not> i < k" by simp
      then have "asset_rollback st' j = put_share (fst (remove_share st' k)) i sh"
        using shape False by (simp add: asset_rollback_def rollback_share_def)
      moreover have "st_shares st' k = Some sh" "st_shares (fst (remove_share st' k)) i = None" using live False by (simp_all add: shares)
      ultimately show ?thesis using rem put \<open>?cached st' = ?B\<close> no B(2) v by (simp add: min_def)
    qed
  qed (use shape in \<open>simp add: asset_rollback_def\<close>)
  then show ?thesis using B v journal_undoes [OF assms] unfolding k_def Let_def by auto
qed

theorem rollback_loses_balance_witness:
  "\<exists>st' j. asset_apply sample_hash (sample_state 2 (- 1)) (sample_transfer [- 1]) sample_context = (st', Ok j) \<and>
     unat (balance_by_owner_asset (sample_state 2 (- 1)) sample_owner (replicate 32 1)) = 2 ^ 128 - 1 \<and>
     unat (balance_by_owner_asset (asset_rollback st' j) sample_owner (replicate 32 1)) = 0"
proof -
  have ne: "- 1 \<noteq> (0 :: units)" by simp
  have call: "sample_transfer [- 1] = self_transfer (replicate 32 1) (replicate 32 2) (cx_actor sample_context) (- 1)"
    by (simp add: sample_transfer_def sample_context_def)
  have derived: "share_derive sample_hash (replicate 32 1) (cx_commitment sample_context) 0 = replicate 32 3"
    by (simp add: sample_context_def sample_derive)
  have "replicate 32 (2 :: u8) < replicate 32 3" by code_simp
  then show ?thesis
    using rollback_loses_balance [OF sample_inv [OF ne, of 2] sample_apply [OF ne, unfolded call]] sample_apply [OF ne] derived
    by (simp add: Let_def sample_balance unat_minus_one_word sample_context_def)
qed

subsection \<open>Authority\<close>

lemma insert_share_keeps:
  assumes "indexed st" and "insert_share sha3 st a c k v x = Ok st'" and "st_shares st i = Some sh"
  shows "st_shares st' i = Some sh"
proof -
  have "i \<noteq> share_derive sha3 a c (of_nat k)" using assms(2,3) by (auto simp: insert_share_Ok)
  then show ?thesis using insert_share_frame [OF assms(1,2)] assms(3) by simp
qed

lemma spent_is_input:
  assumes "indexed st" and "grows (remove_inputs st is) st2 a n" and "inputs_of (st_shares st) a x is"
    and "st_shares st i = Some sh" and "st_shares st2 i \<noteq> Some sh"
  shows "as_owner sh = x"
proof -
  have "i \<in> set is"
  proof (rule ccontr)
    assume "i \<notin> set is"
    then have "st_shares (remove_inputs st is) i = Some sh" using remove_inputs_indexed [OF assms(1)] assms(4) by simp
    then show False using assms(2,5) by (simp add: grows_def)
  qed
  then show ?thesis using assms(3,4) by (force simp: inputs_of_def)
qed

lemma operation_spends_own:
  assumes inv: "asset_inv st" and ap: "apply_monetary_operation sha3 st call cx = (st', Ok ())"
    and gone: "st_shares st i = Some sh" "st_shares st' i \<noteq> Some sh"
  shows "as_owner sh = cx_actor cx"
proof -
  have ix: "indexed st" using inv by (simp add: asset_inv_def)
  show ?thesis
  proof (cases call)
    case (Register r)
    then have "\<exists>a st1. insert_share sha3 st a (cx_commitment cx) 0 (rg_initial_mint r) (cx_actor cx) = Ok st1 \<and> st_shares st' = st_shares st1"
      using ap by (fastforce simp: apply_monetary_operation_def op_register_def result_simps Let_def index_asset_role_def split: sum.splits if_splits)
    then show ?thesis using insert_share_keeps [OF ix] gone by metis
  next
    case (Mint c)
    then have "\<exists>st1. insert_share sha3 st (mi_asset c) (cx_commitment cx) 0 (mi_amount c) (mi_recipient c) = Ok st1 \<and> st_shares st' = st_shares st1"
      using ap by (auto simp: apply_monetary_operation_def op_mint_def result_simps split: sum.splits if_splits option.splits)
    then show ?thesis using insert_share_keeps [OF ix] gone by metis
  next
    case (Transfer c)
    then have t: "op_transfer sha3 st c cx = (st', Ok ())" using ap by (simp add: apply_monetary_operation_def)
    show ?thesis using op_transfer_effect [OF inv t] spent_is_input [OF ix] gone by blast
  next
    case (Burn c)
    then have t: "op_burn sha3 st c cx = (st', Ok ())" using ap by (simp add: apply_monetary_operation_def)
    obtain st2 where "inputs_of (st_shares st) (bn_asset c) (cx_actor cx) (bn_inputs c)"
      "grows (remove_inputs st (bn_inputs c)) st2 (bn_asset c) (unat (bn_output c))" "st_shares st' = st_shares st2"
      by (rule op_burn_effect [OF inv t]) simp
    then show ?thesis using spent_is_input [OF ix] gone by metis
  qed
qed

text \<open>C15. Nothing moves without its owner: a share that a successful call spends belongs to the actor of
  the call, and a mint is made by the mint authority of a registered asset with the next nonce, which
  the record then holds, so that the same mint is not accepted again.\<close>

theorem asset_authority:
  assumes "asset_inv st" and "asset_apply sha3 st call cx = (st', Ok j)"
  shows "(\<forall>i sh. st_shares st i = Some sh \<and> st_shares st' i \<noteq> Some sh \<longrightarrow> as_owner sh = cx_actor cx) \<and>
    (\<forall>m. call = Mint m \<longrightarrow> (\<exists>r r'. st_records st (mi_asset m) = Some r \<and> st_records st' (mi_asset m) = Some r' \<and>
      md_mint_authority (ar_metadata r) = cx_actor cx \<and> unat (mi_nonce m) = unat (ar_mint_nonce r) + 1 \<and>
      ar_mint_nonce r' = mi_nonce m \<and> ar_metadata r' = ar_metadata r))"
proof -
  have ap: "apply_monetary_operation sha3 st call cx = (st', Ok ())" by (rule asset_apply_Ok [OF assms(2)])
  have ix: "indexed st" using assms(1) by (simp add: asset_inv_def)
  have "\<exists>r r'. st_records st (mi_asset m) = Some r \<and> st_records st' (mi_asset m) = Some r' \<and>
      md_mint_authority (ar_metadata r) = cx_actor cx \<and> unat (mi_nonce m) = unat (ar_mint_nonce r) + 1 \<and>
      ar_mint_nonce r' = mi_nonce m \<and> ar_metadata r' = ar_metadata r" if "call = Mint m" for m
  proof -
    from that ap obtain r st1 r1 total minted where "st_records st (mi_asset m) = Some r" "md_mint_authority (ar_metadata r) = cx_actor cx"
      and n: "checked_add (ar_mint_nonce r) 1 = Some (mi_nonce m)"
      and ins: "insert_share sha3 st (mi_asset m) (cx_commitment cx) 0 (mi_amount m) (mi_recipient m) = Ok st1"
      and "st_records st1 (mi_asset m) = Some r1" "st' = st1\<lparr>st_records := (st_records st1)(mi_asset m \<mapsto>
        r1\<lparr>ar_supply := total, ar_total_minted := minted, ar_mint_nonce := mi_nonce m\<rparr>)\<rparr>"
      by (auto simp: apply_monetary_operation_def op_mint_def result_simps split: sum.splits if_splits option.splits)
    then show ?thesis using insert_share_frame [OF ix ins] by (auto simp: checked_simps)
  qed
  then show ?thesis using operation_spends_own [OF assms(1) ap] by blast
qed

theorem asset_authority_witness:
  "st_shares (sample_state 2 5) (replicate 32 2) = Some (sample_share 5) \<and>
   st_shares (sample_state 3 5) (replicate 32 2) \<noteq> Some (sample_share 5) \<and> as_owner (sample_share 5) = cx_actor sample_context"
proof -
  have s: "st_shares (sample_state 2 5) (replicate 32 2) = Some (sample_share 5)" "st_shares (sample_state 3 5) (replicate 32 2) \<noteq> Some (sample_share 5)"
    by (simp_all add: sample_state_def)
  then have "as_owner (sample_share 5) = cx_actor sample_context"
    using asset_authority [OF sample_inv sample_apply, of 5] by auto
  with s show ?thesis by blast
qed

end
