(* ===== verification/Asset_View.thy ===== *)
theory Asset_View
  imports Asset_Journal
begin

section \<open>Quoting an asset call on a partial state\<close>

text \<open>
  \<^verbatim>\<open>operation_view\<close> (\<^verbatim>\<open>kernel/src/ledger/utxo/asset/journal.rs\<close>) copies only the entries of a call's
  footprint into a private state, on which the call is tried before it is applied. Two states that
  agree on the footprint run a call in lock step (\<open>operation_agrees\<close>), so the quote returns the
  result and the journal of the real call.
\<close>

definition agree :: "hash set \<Rightarrow> hash \<Rightarrow> asset_state \<Rightarrow> asset_state \<Rightarrow> bool" where
  "agree K a s t \<longleftrightarrow> st_records s a = st_records t a \<and> (\<forall>i \<in> K. st_shares s i = st_shares t i)"

lemma remove_share_tables [simp]:
  "st_shares (fst (remove_share st i)) = (st_shares st)(i := None)" "st_records (fst (remove_share st i)) = st_records st"
  by (auto simp: remove_share_def Let_def split: option.splits)

lemma put_share_tables [simp]:
  "st_shares (put_share st i sh) = (st_shares st)(i \<mapsto> sh)" "st_records (put_share st i sh) = st_records st"
  by (auto simp: put_share_def Let_def)

lemma remove_inputs_tables [simp]:
  "st_shares (remove_inputs st is) = st_shares st |` (- set is)" "st_records (remove_inputs st is) = st_records st"
proof -
  have "st_shares (remove_inputs st is) = st_shares st |` (- set is) \<and> st_records (remove_inputs st is) = st_records st"
    by (induction "is" arbitrary: st)
      (auto simp: remove_inputs_def restrict_map_def fun_eq_iff)
  then show "st_shares (remove_inputs st is) = st_shares st |` (- set is)" "st_records (remove_inputs st is) = st_records st" by auto
qed

lemma agree_remove_inputs: "agree K a s t \<Longrightarrow> agree K a (remove_inputs s is) (remove_inputs t is)"
  by (simp add: agree_def restrict_map_def)

text \<open>One share is inserted into both states or into neither.\<close>

lemma insert_share_agrees:
  assumes "agree K a s t" and "share_derive sha3 b c (of_nat k) \<in> K"
  shows "(\<exists>e. insert_share sha3 s b c k v x = Err e \<and> insert_share sha3 t b c k v x = Err e) \<or>
    (\<exists>s' t'. insert_share sha3 s b c k v x = Ok s' \<and> insert_share sha3 t b c k v x = Ok t' \<and> agree K a s' t')"
proof (cases "try_from_nat k :: u32 option")
  case None
  then show ?thesis by (simp add: insert_share_def)
next
  case (Some w)
  then have "w = of_nat k" by (auto simp: try_from_nat_def split: if_splits)
  then show ?thesis using Some assms by (auto simp: insert_share_def Let_def agree_def domIff)
qed

lemma insert_outputs_agrees:
  assumes "agree K a s t" and "output_ids sha3 b c k (length outs) \<subseteq> K"
    and "insert_outputs sha3 s b c k outs = (s', r)" and "insert_outputs sha3 t b c k outs = (t', r')"
  shows "r = r' \<and> agree K a s' t'"
  using assms
proof (induction outs arbitrary: s t k)
  case (Cons out outs)
  have k: "share_derive sha3 b c (of_nat k) \<in> K" "output_ids sha3 b c (Suc k) (length outs) \<subseteq> K"
    using Cons.prems(2) by (simp_all add: output_ids_Suc)
  from insert_share_agrees [OF Cons.prems(1) k(1), of "ao_amount out" "ao_recipient out"] show ?case
  proof (elim disjE exE conjE)
    fix s1 t1
    assume "insert_share sha3 s b c k (ao_amount out) (ao_recipient out) = Ok s1"
      "insert_share sha3 t b c k (ao_amount out) (ao_recipient out) = Ok t1" "agree K a s1 t1"
    then show ?thesis using Cons.IH [OF _ k(2)] Cons.prems(3,4) by simp
  qed (use Cons.prems in auto)
qed simp

lemma input_total_agrees:
  assumes "agree K a s t" and "set is \<subseteq> K"
  shows "input_total s b is x = input_total t b is x"
  unfolding input_total_def
proof (rule try_fold_cong)
  fix i and total :: units
  assume "i \<in> set is"
  then have "st_shares s i = st_shares t i" using assms by (auto simp: agree_def)
  then show "rbind (ok_or (st_shares s i) UnknownObject) (\<lambda>share.
      if as_asset share \<noteq> b then Err AssetMismatch else if as_owner share \<noteq> x then Err Unauthorized
      else ok_or (checked_add total (as_amount share)) BalanceOverflow) =
    rbind (ok_or (st_shares t i) UnknownObject) (\<lambda>share.
      if as_asset share \<noteq> b then Err AssetMismatch else if as_owner share \<noteq> x then Err Unauthorized
      else ok_or (checked_add total (as_amount share)) BalanceOverflow)" by simp
qed

text \<open>What a mint checks before it touches the state.\<close>

definition mint_terms :: "asset_record option \<Rightarrow> asset_mint \<Rightarrow> owner \<Rightarrow> (units \<times> units, asset_error) result" where
  "mint_terms known c actor =
     (if mi_amount c = 0 then Err InvalidAmount
      else rbind (ok_or known UnknownAsset) (\<lambda>r.
        if md_mint_authority (ar_metadata r) \<noteq> actor then Err Unauthorized
        else rbind (ok_or (checked_add (ar_mint_nonce r) 1) InvalidMintNonce) (\<lambda>expected.
        if mi_nonce c \<noteq> expected then Err InvalidMintNonce
        else rbind (ok_or (checked_add (ar_supply r) (mi_amount c)) SupplyOverflow) (\<lambda>total.
        if total > md_max_supply (ar_metadata r) then Err SupplyOverflow
        else rbind (ok_or (checked_add (ar_total_minted r) (mi_amount c)) SupplyOverflow) (\<lambda>minted.
        if minted > md_max_supply (ar_metadata r) then Err SupplyOverflow
        else Ok (total, minted))))))"

lemma op_mint_terms:
  "op_mint sha3 st c cx = (case mint_terms (st_records st (mi_asset c)) c (cx_actor cx) of
     Inl e \<Rightarrow> (st, Err e)
   | Inr (issued, minted) \<Rightarrow>
       (case insert_share sha3 st (mi_asset c) (cx_commitment cx) 0 (mi_amount c) (mi_recipient c) of
          Inl e \<Rightarrow> (st, Err e)
        | Inr st' \<Rightarrow> (case st_records st' (mi_asset c) of
            None \<Rightarrow> (st', Err UnknownAsset)
          | Some r \<Rightarrow> (st'\<lparr>st_records := (st_records st')(mi_asset c \<mapsto>
              r\<lparr>ar_supply := issued, ar_total_minted := minted, ar_mint_nonce := mi_nonce c\<rparr>)\<rparr>, Ok ()))))"
proof (cases "st_records st (mi_asset c)")
  case (Some r)
  then show ?thesis
    by (cases "insert_share sha3 st (mi_asset c) (cx_commitment cx) 0 (mi_amount c) (mi_recipient c)";
        cases "checked_add (ar_mint_nonce r) 1"; cases "checked_add (ar_supply r) (mi_amount c)";
        cases "checked_add (ar_total_minted r) (mi_amount c)") (simp_all add: op_mint_def mint_terms_def)
qed (simp add: op_mint_def mint_terms_def)

lemma op_mint_agrees:
  assumes ag: "agree K (mi_asset c) s t" and k: "share_derive sha3 (mi_asset c) (cx_commitment cx) 0 \<in> K"
    and "op_mint sha3 s c cx = (s', r)" and "op_mint sha3 t c cx = (t', r')"
  shows "r = r' \<and> agree K (mi_asset c) s' t'"
proof -
  have rec: "st_records t (mi_asset c) = st_records s (mi_asset c)" using ag by (simp add: agree_def)
  let ?ins = "\<lambda>st. insert_share sha3 st (mi_asset c) (cx_commitment cx) 0 (mi_amount c) (mi_recipient c)"
  have "(\<exists>e. ?ins s = Err e \<and> ?ins t = Err e) \<or> (\<exists>s1 t1. ?ins s = Ok s1 \<and> ?ins t = Ok t1 \<and> agree K (mi_asset c) s1 t1)"
    using k by (intro insert_share_agrees [OF ag]) simp
  then show ?thesis
  proof (elim disjE exE conjE)
    fix s1 t1
    assume "?ins s = Ok s1" "?ins t = Ok t1" "agree K (mi_asset c) s1 t1"
    then show ?thesis using assms(1,3,4) rec
      by (auto simp: op_mint_terms agree_def split: sum.splits option.splits)
  next
    fix e
    assume "?ins s = Err e" "?ins t = Err e"
    then show ?thesis using assms(1,3,4) rec by (auto simp: op_mint_terms split: sum.splits)
  qed
qed

lemma op_transfer_agrees:
  assumes ag: "agree K (tf_asset c) s t"
    and k: "set (tf_inputs c) \<union> output_ids sha3 (tf_asset c) (cx_commitment cx) 0 (length (tf_outputs c)) \<subseteq> K"
    and st: "op_transfer sha3 s c cx = (s', r)" "op_transfer sha3 t c cx = (t', r')"
  shows "r = r' \<and> agree K (tf_asset c) s' t'"
proof -
  have "tf_asset c \<in> dom (st_records t) \<longleftrightarrow> tf_asset c \<in> dom (st_records s)" using ag by (simp add: agree_def domIff)
  moreover have "input_total s (tf_asset c) (tf_inputs c) (cx_actor cx) = input_total t (tf_asset c) (tf_inputs c) (cx_actor cx)"
    using k by (intro input_total_agrees [OF ag]) simp
  ultimately have "(\<exists>e. op_transfer sha3 s c cx = (s, Err e) \<and> op_transfer sha3 t c cx = (t, Err e)) \<or>
      op_transfer sha3 s c cx = insert_outputs sha3 (remove_inputs s (tf_inputs c)) (tf_asset c) (cx_commitment cx) 0 (tf_outputs c) \<and>
      op_transfer sha3 t c cx = insert_outputs sha3 (remove_inputs t (tf_inputs c)) (tf_asset c) (cx_commitment cx) 0 (tf_outputs c)"
    by (auto simp: op_transfer_def split: sum.splits)
  then show ?thesis
  proof (elim disjE exE conjE)
    assume *: "op_transfer sha3 s c cx = insert_outputs sha3 (remove_inputs s (tf_inputs c)) (tf_asset c) (cx_commitment cx) 0 (tf_outputs c)"
      "op_transfer sha3 t c cx = insert_outputs sha3 (remove_inputs t (tf_inputs c)) (tf_asset c) (cx_commitment cx) 0 (tf_outputs c)"
    show ?thesis
      by (rule insert_outputs_agrees [OF agree_remove_inputs [OF ag]]) (use k st * in auto)
  qed (use ag st in simp)
qed

lemma op_burn_agrees:
  assumes ag: "agree K (bn_asset c) s t"
    and k: "set (bn_inputs c) \<union> output_ids sha3 (bn_asset c) (cx_commitment cx) 0 (if bn_output c \<noteq> 0 then 1 else 0) \<subseteq> K"
    and st: "op_burn sha3 s c cx = (s', r)" "op_burn sha3 t c cx = (t', r')"
  shows "r = r' \<and> agree K (bn_asset c) s' t'"
proof -
  let ?s = "remove_inputs s (bn_inputs c)" and ?t = "remove_inputs t (bn_inputs c)"
  let ?ins = "\<lambda>st. if bn_output c \<noteq> 0 then insert_share sha3 st (bn_asset c) (cx_commitment cx) 0 (bn_output c) (cx_actor cx) else Ok st"
  have rec: "st_records t (bn_asset c) = st_records s (bn_asset c)" using ag by (simp add: agree_def)
  have tot: "input_total s (bn_asset c) (bn_inputs c) (cx_actor cx) = input_total t (bn_asset c) (bn_inputs c) (cx_actor cx)"
    using k by (intro input_total_agrees [OF ag]) simp
  have ag1: "agree K (bn_asset c) ?s ?t" by (rule agree_remove_inputs [OF ag])
  have "(\<exists>e. ?ins ?s = Err e \<and> ?ins ?t = Err e) \<or> (\<exists>s1 t1. ?ins ?s = Ok s1 \<and> ?ins ?t = Ok t1 \<and> agree K (bn_asset c) s1 t1)"
  proof (cases "bn_output c = 0")
    case False
    have "(\<exists>e. insert_share sha3 ?s (bn_asset c) (cx_commitment cx) 0 (bn_output c) (cx_actor cx) = Err e \<and>
          insert_share sha3 ?t (bn_asset c) (cx_commitment cx) 0 (bn_output c) (cx_actor cx) = Err e) \<or>
        (\<exists>s1 t1. insert_share sha3 ?s (bn_asset c) (cx_commitment cx) 0 (bn_output c) (cx_actor cx) = Ok s1 \<and>
          insert_share sha3 ?t (bn_asset c) (cx_commitment cx) 0 (bn_output c) (cx_actor cx) = Ok t1 \<and> agree K (bn_asset c) s1 t1)"
      by (rule insert_share_agrees [OF ag1]) (use k False in \<open>simp add: output_ids_def\<close>)
    with False show ?thesis by simp
  qed (use ag1 in simp)
  then show ?thesis
  proof (elim disjE exE conjE)
    fix s1 t1
    assume "?ins ?s = Ok s1" "?ins ?t = Ok t1" "agree K (bn_asset c) s1 t1"
    then show ?thesis using ag st
      unfolding op_burn_def Let_def rec tot by (auto simp: agree_def split: sum.splits option.splits)
  next
    fix e
    assume "?ins ?s = Err e" "?ins ?t = Err e"
    then show ?thesis using ag ag1 st unfolding op_burn_def Let_def rec tot by (auto split: sum.splits)
  qed
qed

lemma op_register_agrees:
  assumes f: "operation_footprint sha3 (Register c) cx = Ok (a, inputs, n)"
    and ag: "agree K a s t" and k: "share_derive sha3 a (cx_commitment cx) 0 \<in> K"
    and st: "apply_monetary_operation sha3 s (Register c) cx = (s', r)" "apply_monetary_operation sha3 t (Register c) cx = (t', r')"
  shows "r = r' \<and> agree K a s' t'"
proof -
  from f obtain m where m: "metadata_new (rg_name c) (rg_max_supply c) (cx_actor cx) (rg_mint_authority c) = Ok m"
    "asset_contract_derive sha3 m (rg_nonce c) = Ok a"
    by (auto simp: operation_footprint_def result_simps)
  have rec: "a \<in> dom (st_records t) \<longleftrightarrow> a \<in> dom (st_records s)" using ag by (simp add: agree_def domIff)
  let ?ins = "\<lambda>st. insert_share sha3 st a (cx_commitment cx) 0 (rg_initial_mint c) (cx_actor cx)"
  have "(\<exists>e. ?ins s = Err e \<and> ?ins t = Err e) \<or> (\<exists>s1 t1. ?ins s = Ok s1 \<and> ?ins t = Ok t1 \<and> agree K a s1 t1)"
    using k by (intro insert_share_agrees [OF ag]) simp
  then show ?thesis
  proof (elim disjE exE conjE)
    fix s1 t1
    assume "?ins s = Ok s1" "?ins t = Ok t1" "agree K a s1 t1"
    then show ?thesis using ag st m rec
      by (auto simp: apply_monetary_operation_def op_register_def agree_def index_asset_role_def Let_def split: if_splits)
  next
    fix e
    assume "?ins s = Err e" "?ins t = Err e"
    then show ?thesis using ag st m rec by (auto simp: apply_monetary_operation_def op_register_def split: if_splits)
  qed
qed


lemma operation_agrees:
  assumes f: "operation_footprint sha3 call cx = Ok (a, inputs, n)" and ag: "agree K a s t"
    and k: "set inputs \<union> output_ids sha3 a (cx_commitment cx) 0 n \<subseteq> K"
    and st: "apply_monetary_operation sha3 s call cx = (s', r)" "apply_monetary_operation sha3 t call cx = (t', r')"
  shows "r = r' \<and> agree K a s' t'"
proof (cases call)
  case (Register c)
  then have "n = 1" using f by (auto simp: operation_footprint_def result_simps)
  then show ?thesis using op_register_agrees [of sha3 c cx a inputs n K s t s' r t' r'] f ag st k Register by (simp add: output_ids_def)
next
  case (Mint c)
  then show ?thesis using op_mint_agrees [of K c s t sha3 cx s' r t' r'] f ag st k
    by (auto simp: operation_footprint_def apply_monetary_operation_def output_ids_def)
next
  case (Transfer c)
  then show ?thesis using op_transfer_agrees [of K c s t sha3 cx s' r t' r'] f ag st k
    by (auto simp: operation_footprint_def apply_monetary_operation_def)
next
  case (Burn c)
  then show ?thesis using op_burn_agrees [of K c s t sha3 cx s' r t' r'] f ag st k
    by (auto simp: operation_footprint_def apply_monetary_operation_def)
qed

lemma snapshot_agrees:
  assumes "snapshot_operation sha3 s call cx = Ok j" and "operation_footprint sha3 call cx = Ok (a, inputs, n)"
    and "agree (set inputs \<union> output_ids sha3 a (cx_commitment cx) 0 n) a s t"
  shows "snapshot_operation sha3 t call cx = Ok j"
proof -
  let ?K = "set inputs \<union> output_ids sha3 a (cx_commitment cx) 0 n"
  have fin: "finite ?K" by (simp add: output_ids_def)
  from assms(1,2) obtain derived where d: "collect (map (\<lambda>k. rbind (ok_or (try_from_nat k) InvalidProgram)
        (\<lambda>k. Ok (share_derive sha3 a (cx_commitment cx) k))) [0..<n]) = Ok derived"
    and j: "j = \<lparr>aj_records = [(a, st_records s a)],
        aj_shares = map (\<lambda>i. (i, st_shares s i)) (sorted_list_of_set (set inputs \<union> set derived))\<rparr>"
    by (auto simp: snapshot_operation_def result_simps)
  have "set derived = output_ids sha3 a (cx_commitment cx) 0 n"
    by (simp add: collect_indices [OF d] output_ids_def)
  then have "map (\<lambda>i. (i, st_shares s i)) (sorted_list_of_set (set inputs \<union> set derived)) =
      map (\<lambda>i. (i, st_shares t i)) (sorted_list_of_set (set inputs \<union> set derived))"
    using assms(3) fin by (simp add: agree_def)
  then show ?thesis using assms(2,3) d j by (simp add: snapshot_operation_def agree_def)
qed

lemma view_lookup:
  "map_of (List.map_filter (\<lambda>(k, v). map_option (\<lambda>v. (k, v)) v) (map (\<lambda>i. (i, m i)) xs)) i = (if i \<in> set xs then m i else None)"
  by (induction xs) (auto simp: map_filter_simps split: option.splits)

lemma operation_view_agrees:
  assumes "operation_view sha3 st call cx = Ok view"
  obtains a inputs n j where "operation_footprint sha3 call cx = Ok (a, inputs, n)" and "snapshot_operation sha3 st call cx = Ok j"
    and "agree (set inputs \<union> output_ids sha3 a (cx_commitment cx) 0 n) a st view"
proof -
  from assms obtain j where j: "snapshot_operation sha3 st call cx = Ok j"
    and view: "view = rebuild_owner_index (asset_default\<lparr>
         st_records := map_of (List.map_filter (\<lambda>(k, v). map_option (\<lambda>v. (k, v)) v) (aj_records j)),
         st_shares := map_of (List.map_filter (\<lambda>(k, v). map_option (\<lambda>v. (k, v)) v) (aj_shares j))\<rparr>)"
    by (auto simp: operation_view_def result_simps)
  obtain a inputs n where f: "operation_footprint sha3 call cx = Ok (a, inputs, n)" "aj_records j = [(a, st_records st a)]"
    and s: "aj_shares j = map (\<lambda>i. (i, st_shares st i)) (sorted_list_of_set (set inputs \<union> output_ids sha3 a (cx_commitment cx) 0 n))"
    by (rule snapshot_operation_Ok [OF j])
  have "finite (set inputs \<union> output_ids sha3 a (cx_commitment cx) 0 n)" by (simp add: output_ids_def)
  moreover have "map_of (List.map_filter (\<lambda>(k, v). map_option (\<lambda>v. (k, v)) v) (aj_records j)) a = st_records st a"
    using view_lookup [of "st_records st" "[a]" a] f(2) by simp
  ultimately have "agree (set inputs \<union> output_ids sha3 a (cx_commitment cx) 0 n) a st view"
    unfolding agree_def view rebuild_owner_index_def s view_lookup by simp
  with that f(1) j show thesis by blast
qed

lemma filter_agrees:
  "\<forall>k \<in> fst ` set js. m k = m' k \<Longrightarrow> filter (\<lambda>(k, p). m' k \<noteq> p) js = filter (\<lambda>(k, p). m k \<noteq> p) js"
  by (induction js) auto

subsection \<open>Properties\<close>

text \<open>C39. A quote is exact: trying a call on the partial state that holds only the call's footprint
  returns the result of the call on the whole state, the same journal when it succeeds and the same
  error when it fails, collisions of output identifiers included.\<close>

theorem asset_quote_exact:
  assumes "operation_view sha3 st call cx = Ok view"
  shows "snd (asset_apply sha3 view call cx) = snd (asset_apply sha3 st call cx)"
proof -
  obtain a inputs n j where f: "operation_footprint sha3 call cx = Ok (a, inputs, n)" and j: "snapshot_operation sha3 st call cx = Ok j"
    and ag: "agree (set inputs \<union> output_ids sha3 a (cx_commitment cx) 0 n) a st view"
    by (rule operation_view_agrees [OF assms])
  note jv = snapshot_agrees [OF j f ag]
  obtain s' r where s: "apply_monetary_operation sha3 st call cx = (s', r)" by fastforce
  obtain v' r' where v: "apply_monetary_operation sha3 view call cx = (v', r')" by fastforce
  have r: "r' = r" and ag': "agree (set inputs \<union> output_ids sha3 a (cx_commitment cx) 0 n) a s' v'"
    using operation_agrees [OF f ag subset_refl s v] by auto
  obtain "aj_records j = [(a, st_records st a)]"
    "fst ` set (aj_shares j) = set inputs \<union> output_ids sha3 a (cx_commitment cx) 0 n"
    by (rule snapshot_operation_Ok [OF j]) (use f in \<open>simp add: image_image output_ids_def\<close>)
  then have "filter (\<lambda>(k, previous). st_records v' k \<noteq> previous) (aj_records j) = filter (\<lambda>(k, previous). st_records s' k \<noteq> previous) (aj_records j)"
    "filter (\<lambda>(k, previous). st_shares v' k \<noteq> previous) (aj_shares j) = filter (\<lambda>(k, previous). st_shares s' k \<noteq> previous) (aj_shares j)"
    using ag' by (auto simp: agree_def intro!: filter_agrees)
  then show ?thesis using j jv s v r by (simp add: asset_apply_def rbind_def split: sum.splits)
qed

theorem asset_quote_exact_witness:
  "\<exists>view. operation_view sample_hash (sample_state 2 5) (sample_transfer [5]) sample_context = Ok view \<and>
    snd (asset_apply sample_hash view (sample_transfer [5]) sample_context) =
      Ok \<lparr>aj_records = [], aj_shares = [(replicate 32 2, Some (sample_share 5)), (replicate 32 3, None)]\<rparr>"
proof -
  obtain view where v: "operation_view sample_hash (sample_state 2 5) (sample_transfer [5]) sample_context = Ok view"
    by (simp add: operation_view_def sample_snapshot)
  with asset_quote_exact [OF v] show ?thesis by (simp add: sample_apply)
qed

end
