(* ===== verification/Coin_Utxo.thy ===== *)
theory Coin_Utxo
  imports Monetary Tables
begin

section \<open>Unspent coins\<close>

text \<open>
  \<^verbatim>\<open>kernel/src/ledger/utxo/coin.rs\<close>: the set of unspent coin shares, the cached total value and the
  owner index, with checked insertion and consumption, owner queries, and the canonical encoding
  with its predicted length. The \<open>StateMap\<close> tables are finite partial functions; \<open>State_Map\<close> shows that
  the tree of the code implements them. The lemmas establish the invariant (the total is the sum of
  the live coins, no coin is empty, the index files every coin under its owner and nothing else)
  and that insertion and consumption are inverse.
\<close>

subsection \<open>State and operations\<close>

record coin_utxo =
  cu_amount :: zeno
  cu_owner :: owner

record utxo_set =
  us_coins :: "hash \<rightharpoonup> coin_utxo"
  us_total_value :: zeno
  us_by_owner :: "owner \<rightharpoonup> hash set"

datatype utxo_error = ZeroAmount | NotFound | CoinCollision | ValueOverflow | ValueUnderflow

definition utxo_default :: utxo_set where
  "utxo_default = \<lparr>us_coins = Map.empty, us_total_value = 0, us_by_owner = Map.empty\<rparr>"

definition coin :: "utxo_set \<Rightarrow> hash \<Rightarrow> coin_utxo option" where
  "coin s i = us_coins s i"

definition insert_coin :: "utxo_set \<Rightarrow> hash \<Rightarrow> coin_utxo \<Rightarrow> (utxo_set, utxo_error) result" where
  "insert_coin s i c =
     (if cu_amount c = 0 then Err ZeroAmount
      else if i \<in> dom (us_coins s) then Err CoinCollision
      else rbind (ok_or (checked_add (us_total_value s) (cu_amount c)) ValueOverflow) (\<lambda>total.
        Ok \<lparr>us_coins = (us_coins s)(i \<mapsto> c), us_total_value = total,
            us_by_owner = index_add (us_by_owner s) (cu_owner c) i\<rparr>))"

definition consume_coin :: "utxo_set \<Rightarrow> hash \<Rightarrow> (coin_utxo \<times> utxo_set, utxo_error) result" where
  "consume_coin s i =
     rbind (ok_or (us_coins s i) NotFound) (\<lambda>c.
     rbind (ok_or (checked_sub (us_total_value s) (cu_amount c)) ValueUnderflow) (\<lambda>total.
     Ok (c, \<lparr>us_coins = (us_coins s)(i := None), us_total_value = total,
             us_by_owner = index_remove (us_by_owner s) (cu_owner c) i\<rparr>)))"

definition coins :: "utxo_set \<Rightarrow> (hash \<times> coin_utxo) list" where
  "coins s = map_entries (us_coins s)"

definition coins_by_owner :: "utxo_set \<Rightarrow> owner \<Rightarrow> (hash \<times> coin_utxo) list" where
  "coins_by_owner s o' =
     List.map_filter (\<lambda>i. case us_coins s i of
         None \<Rightarrow> None
       | Some c \<Rightarrow> if cu_owner c = o' then Some (i, c) else None)
       (case us_by_owner s o' of None \<Rightarrow> [] | Some ids \<Rightarrow> sorted_list_of_set ids)"

definition utxo_len :: "utxo_set \<Rightarrow> nat" where "utxo_len s = card (dom (us_coins s))"

definition utxo_is_empty :: "utxo_set \<Rightarrow> bool" where "utxo_is_empty s = (dom (us_coins s) = {})"

subsection \<open>Encoding\<close>

definition enc_coin_utxo :: "coin_utxo \<Rightarrow> bytes" where
  "enc_coin_utxo c = u64_le (cu_amount c) @ enc_owner (cu_owner c)"

definition dec_coin_utxo :: "coin_utxo decoder" where
  "dec_coin_utxo = dec_map (\<lambda>(amount, owner). \<lparr>cu_amount = amount, cu_owner = owner\<rparr>) (dec_pair dec_u64 dec_owner)"

interpretation coin_utxoc: codec enc_coin_utxo dec_coin_utxo "\<lambda>c. ok_owner (cu_owner c)"
  unfolding dec_coin_utxo_def
  by (rule codec_struct [OF codec_pair [OF u64c.codec_axioms ownerc.codec_axioms], where g = "\<lambda>c. (cu_amount c, cu_owner c)"])
    (auto simp: enc_coin_utxo_def enc_pair_def)

definition enc_utxo_set :: "utxo_set \<Rightarrow> bytes" where
  "enc_utxo_set s = enc_vec (enc_pair enc_array enc_coin_utxo) (coins s) @ u64_le (us_total_value s)"

definition rebuild_coin_index :: "(hash \<times> coin_utxo) list \<Rightarrow> (owner \<rightharpoonup> hash set)" where
  "rebuild_coin_index cs = fold (\<lambda>(i, c) m. index_add m (cu_owner c) i) cs Map.empty"

text \<open>Collecting pairs into a \<open>BTreeMap\<close> keeps the last value of a repeated key.\<close>

definition dec_utxo_set :: "utxo_set decoder" where
  "dec_utxo_set = dec_map (\<lambda>(cs, total).
       \<lparr>us_coins = map_of (rev cs), us_total_value = total,
        us_by_owner = rebuild_coin_index (map_entries (map_of (rev cs)))\<rparr>)
     (dec_pair (dec_vec U32_MAX (dec_pair (dec_array HASH_SIZE) dec_coin_utxo)) dec_u64)"

definition canonical_fixed_map_length :: "nat \<Rightarrow> u64 \<Rightarrow> (u64, codec_error) result" where
  "canonical_fixed_map_length entries entry_bytes =
     rbind (ok_or (try_from_nat entries :: u32 option) EncodeFailed) (\<lambda>count.
       ok_or (Option.bind (checked_mul (ucast count) entry_bytes) (\<lambda>size. checked_add size 4)) EncodeFailed)"

definition canonical_length :: "bytes \<Rightarrow> (u64, codec_error) result" where
  "canonical_length encoded = ok_or (try_from_nat (length encoded)) EncodeFailed"

definition utxo_encoded_len :: "utxo_set \<Rightarrow> (u64, codec_error) result" where
  "utxo_encoded_len s =
     rbind (canonical_length (replicate HASH_SIZE 0 @
        enc_coin_utxo \<lparr>cu_amount = 0, cu_owner = owner.Program (replicate HASH_SIZE 0)\<rparr>)) (\<lambda>width.
     rbind (canonical_fixed_map_length (utxo_len s) width) (\<lambda>n.
     rbind (canonical_length (u64_le (us_total_value s))) (\<lambda>m.
     ok_or (checked_add n m) EncodeFailed)))"

subsection \<open>The invariant\<close>

definition owned_ids :: "(hash \<rightharpoonup> coin_utxo) \<Rightarrow> owner \<Rightarrow> hash set" where
  "owned_ids cs x = {i. \<exists>c. cs i = Some c \<and> cu_owner c = x}"

definition coin_sum :: "(hash \<rightharpoonup> coin_utxo) \<Rightarrow> nat" where
  "coin_sum cs = (\<Sum>i\<in>dom cs. unat (cu_amount (the (cs i))))"

definition utxo_inv :: "utxo_set \<Rightarrow> bool" where
  "utxo_inv s \<longleftrightarrow> finite (dom (us_coins s)) \<and> (\<forall>c \<in> ran (us_coins s). cu_amount c \<noteq> 0) \<and>
     unat (us_total_value s) = coin_sum (us_coins s) \<and> us_by_owner s = index_of (owned_ids (us_coins s))"

lemma owned_ids_insert:
  "cs i = None \<Longrightarrow> owned_ids (cs(i \<mapsto> c)) = (owned_ids cs)(cu_owner c := insert i (owned_ids cs (cu_owner c)))"
  by (auto simp: owned_ids_def fun_eq_iff split: if_splits)

lemma owned_ids_remove:
  "cs i = Some c \<Longrightarrow> owned_ids (cs(i := None)) = (owned_ids cs)(cu_owner c := owned_ids cs (cu_owner c) - {i})"
  by (auto simp: owned_ids_def fun_eq_iff split: if_splits)

lemma coin_sum_insert:
  assumes "finite (dom cs)" and "cs i = None"
  shows "coin_sum (cs(i \<mapsto> c)) = coin_sum cs + unat (cu_amount c)"
  using sum_insert_map [OF assms, of "\<lambda>c. unat (cu_amount c)" c] by (simp add: coin_sum_def)

lemma coin_sum_remove:
  assumes "finite (dom cs)" and "cs i = Some c"
  shows "coin_sum (cs(i := None)) + unat (cu_amount c) = coin_sum cs"
  using sum_remove_map [OF assms, of "\<lambda>c. unat (cu_amount c)"] by (simp add: coin_sum_def)

lemma utxo_inv_default: "utxo_inv utxo_default"
  by (auto simp: utxo_inv_def utxo_default_def coin_sum_def owned_ids_def index_of_def fun_eq_iff)

lemma insert_coin_Ok:
  "insert_coin s i c = Ok s' \<longleftrightarrow> cu_amount c \<noteq> 0 \<and> us_coins s i = None \<and>
     unat (us_total_value s') = unat (us_total_value s) + unat (cu_amount c) \<and>
     us_coins s' = (us_coins s)(i \<mapsto> c) \<and> us_by_owner s' = index_add (us_by_owner s) (cu_owner c) i"
  by (cases s') (auto simp: insert_coin_def result_simps checked_simps split: if_splits)

lemma consume_coin_Ok:
  "consume_coin s i = Ok (c, s') \<longleftrightarrow> us_coins s i = Some c \<and>
     unat (us_total_value s) = unat (us_total_value s') + unat (cu_amount c) \<and>
     us_coins s' = (us_coins s)(i := None) \<and> us_by_owner s' = index_remove (us_by_owner s) (cu_owner c) i"
  by (cases s') (auto simp: consume_coin_def result_simps checked_simps)

lemma insert_coin_inv:
  assumes "utxo_inv s" and "insert_coin s i c = Ok s'"
  shows "utxo_inv s'"
  using assms
  by (auto simp: insert_coin_Ok utxo_inv_def coin_sum_insert owned_ids_insert index_add_of ran_def split: if_splits)

lemma consume_coin_inv:
  assumes "utxo_inv s" and "consume_coin s i = Ok (c, s')"
  shows "utxo_inv s'"
proof -
  note c = assms(2) [unfolded consume_coin_Ok]
  have "coin_sum (us_coins s') + unat (cu_amount c) = coin_sum (us_coins s)"
    using c coin_sum_remove assms(1) by (simp add: utxo_inv_def)
  with assms(1) c show ?thesis
    by (auto simp: utxo_inv_def owned_ids_remove index_remove_of ran_def split: if_splits)
qed

text \<open>A live coin is never worth more than the total, so consumption fails only for unknown coins.\<close>

lemma coin_le_total:
  assumes "utxo_inv s" and "us_coins s i = Some c"
  shows "unat (cu_amount c) \<le> unat (us_total_value s)"
  using coin_sum_remove [of "us_coins s" i c] assms by (simp add: utxo_inv_def)

lemma consume_coin_total:
  assumes "utxo_inv s"
  shows "consume_coin s i = (case us_coins s i of
      None \<Rightarrow> Err NotFound
    | Some c \<Rightarrow> Ok (c, \<lparr>us_coins = (us_coins s)(i := None), us_total_value = us_total_value s - cu_amount c,
        us_by_owner = index_remove (us_by_owner s) (cu_owner c) i\<rparr>))"
  using coin_le_total [OF assms] by (auto simp: consume_coin_def checked_sub_def split: option.split)


subsection \<open>Owner queries and sequences of operations\<close>

lemma map_filter_some: "(\<And>x. x \<in> set xs \<Longrightarrow> f x = Some (g x)) \<Longrightarrow> List.map_filter f xs = map g xs"
  by (induction xs) (simp_all add: List.map_filter_simps)

lemma coins_by_owner_eq:
  assumes "utxo_inv s"
  shows "coins_by_owner s x = map (\<lambda>i. (i, the (us_coins s i))) (sorted_list_of_set (owned_ids (us_coins s) x))"
proof -
  have fin: "finite (owned_ids (us_coins s) x)"
    by (rule finite_subset [of _ "dom (us_coins s)"]) (use assms in \<open>auto simp: utxo_inv_def owned_ids_def\<close>)
  have "(case us_by_owner s x of None \<Rightarrow> [] | Some ids \<Rightarrow> sorted_list_of_set ids) = sorted_list_of_set (owned_ids (us_coins s) x)"
    using assms by (auto simp: utxo_inv_def index_of_def)
  then show ?thesis
    unfolding coins_by_owner_def using fin by (auto intro!: map_filter_some simp: owned_ids_def)
qed

lemma utxo_empty_iff:
  assumes "utxo_inv s"
  shows "us_total_value s = 0 \<longleftrightarrow> utxo_is_empty s"
proof
  assume z: "us_total_value s = 0"
  have "us_coins s i = None" for i
  proof (rule ccontr)
    assume "us_coins s i \<noteq> None"
    then obtain c where c: "us_coins s i = Some c" by auto
    with assms have "cu_amount c \<noteq> 0" by (auto simp: utxo_inv_def ran_def)
    with coin_le_total [OF assms c] z show False by (simp add: unat_eq_zero)
  qed
  then show "utxo_is_empty s" by (auto simp: utxo_is_empty_def)
next
  assume "utxo_is_empty s"
  then have "coin_sum (us_coins s) = 0" by (simp add: utxo_is_empty_def coin_sum_def)
  with assms show "us_total_value s = 0" by (simp add: utxo_inv_def unat_eq_zero)
qed

datatype coin_op = InsertCoin hash coin_utxo | ConsumeCoin hash

text \<open>A rejected operation leaves the set as it was: every check precedes the first write.\<close>

fun utxo_step :: "utxo_set \<Rightarrow> coin_op \<Rightarrow> utxo_set" where
  "utxo_step s (InsertCoin i c) = (case insert_coin s i c of Inl _ \<Rightarrow> s | Inr s' \<Rightarrow> s')"
| "utxo_step s (ConsumeCoin i) = (case consume_coin s i of Inl _ \<Rightarrow> s | Inr (_, s') \<Rightarrow> s')"

definition utxo_run :: "coin_op list \<Rightarrow> utxo_set" where "utxo_run ops = foldl utxo_step utxo_default ops"

lemma utxo_step_inv: "utxo_inv s \<Longrightarrow> utxo_inv (utxo_step s x)"
  by (cases x) (auto split: sum.split dest: insert_coin_inv consume_coin_inv)

lemma utxo_run_inv: "utxo_inv (utxo_run ops)"
proof -
  have "utxo_inv s \<Longrightarrow> utxo_inv (foldl utxo_step s ops)" for s
    by (induction ops arbitrary: s) (simp_all add: utxo_step_inv)
  then show ?thesis by (simp add: utxo_run_def utxo_inv_default)
qed

lemma insert_consume:
  assumes "utxo_inv s" and "insert_coin s i c = Ok s'"
  shows "consume_coin s' i = Ok (c, s)"
proof -
  note ins = assms(2) [unfolded insert_coin_Ok]
  then have "i \<notin> owned_ids (us_coins s) x" for x by (auto simp: owned_ids_def)
  then have "index_remove (us_by_owner s') (cu_owner c) i = us_by_owner s"
    using ins assms(1) by (auto simp: utxo_inv_def index_add_of index_remove_of intro!: arg_cong [of _ _ index_of])
  moreover have "(us_coins s')(i := None) = us_coins s" using ins by auto
  ultimately show ?thesis using ins by (simp add: consume_coin_Ok)
qed

lemma consume_insert:
  assumes "utxo_inv s" and "consume_coin s i = Ok (c, s')"
  shows "insert_coin s' i c = Ok s"
proof -
  note con = assms(2) [unfolded consume_coin_Ok]
  then have "i \<in> owned_ids (us_coins s) (cu_owner c)" by (auto simp: owned_ids_def)
  then have "index_add (us_by_owner s') (cu_owner c) i = us_by_owner s"
    using con assms(1) by (auto simp: utxo_inv_def index_add_of index_remove_of insert_absorb intro!: arg_cong [of _ _ index_of])
  moreover have "(us_coins s')(i \<mapsto> c) = us_coins s" using con by auto
  moreover have "cu_amount c \<noteq> 0" using assms(1) con by (auto simp: utxo_inv_def ran_def)
  ultimately show ?thesis using con by (simp add: insert_coin_Ok)
qed

subsection \<open>The encoding and its length\<close>

lemma map_of_rev_distinct: "distinct (map fst xs) \<Longrightarrow> map_of (rev xs) = map_of xs"
  by (simp add: map_of_inject_set flip: rev_map)

lemma map_of_rev_entries: "finite (dom m) \<Longrightarrow> map_of (rev (map_entries m)) = m"
  using fm.entries_ordered [of m] by (subst map_of_rev_distinct) (simp_all add: map_of_map_entries strict_sorted_iff)

lemma rebuild_coin_index_entries:
  assumes "finite (dom cs)"
  shows "rebuild_coin_index (map_entries cs) = index_of (owned_ids cs)"
proof -
  have "fold (\<lambda>(i, c) m. index_add m (cu_owner c) i) xs m =
      fold (\<lambda>(k, x) m. index_add m k x) (map (\<lambda>(i, c). (cu_owner c, i)) xs) m" for xs m
    by (induction xs arbitrary: m) auto
  then have "rebuild_coin_index (map_entries cs) =
      fold (\<lambda>(k, x) m. index_add m k x) (map (\<lambda>(i, c). (cu_owner c, i)) (map_entries cs)) (index_of (\<lambda>_. {}))"
    by (simp add: rebuild_coin_index_def index_of_def [abs_def])
  also have "\<dots> = index_of (owned_ids cs)"
    unfolding index_of_fold_add
    by (rule arg_cong [of _ _ index_of])
      (auto simp: owned_ids_def fun_eq_iff image_iff fm.set_entries [OF assms] split: prod.splits intro: rev_bexI)
  finally show ?thesis .
qed

definition utxo_sized :: "utxo_set \<Rightarrow> bool" where
  "utxo_sized s \<longleftrightarrow> (\<forall>i \<in> dom (us_coins s). length i = HASH_SIZE) \<and>
     (\<forall>c \<in> ran (us_coins s). ok_owner (cu_owner c)) \<and> utxo_len s \<le> U32_MAX"

lemma coin_entryc:
  "codec (enc_pair enc_array enc_coin_utxo) (dec_pair (dec_array HASH_SIZE) dec_coin_utxo)
     (\<lambda>p. length (fst p) = HASH_SIZE \<and> ok_owner (cu_owner (snd p)))"
  by (rule codec_pair [OF arrayc.codec_axioms coin_utxoc.codec_axioms])

lemma coins_ok:
  assumes "utxo_inv s" and "utxo_sized s"
  shows "ok_vec U32_MAX (\<lambda>p. length (fst p) = HASH_SIZE \<and> ok_owner (cu_owner (snd p))) (coins s)"
proof -
  have fin: "finite (dom (us_coins s))" using assms(1) by (simp add: utxo_inv_def)
  have "length i = HASH_SIZE \<and> ok_owner (cu_owner c)" if "(i, c) \<in> set (coins s)" for i c
  proof -
    have "us_coins s i = Some c" using that by (simp add: coins_def fm.set_entries [OF fin])
    then show ?thesis using assms(2) ranI [of "us_coins s"] by (auto simp: utxo_sized_def)
  qed
  then show ?thesis
    using assms(2) by (auto simp: ok_vec_def coins_def fm.length_entries [OF fin] utxo_sized_def utxo_len_def list_all_iff)
qed

lemma dec_enc_utxo_set:
  assumes "utxo_inv s" and "utxo_sized s"
  shows "dec_utxo_set (enc_utxo_set s @ rest) = Some (s, rest)"
proof -
  have fin: "finite (dom (us_coins s))" using assms(1) by (simp add: utxo_inv_def)
  note v = codec.dec_enc [OF codec_vec [OF coin_entryc order_refl] coins_ok [OF assms]]
  show ?thesis using assms(1)
    by (simp add: dec_utxo_set_def enc_utxo_set_def dec_map_def dec_pair_def v codec_enc)
      (simp add: coins_def map_of_rev_entries [OF fin] rebuild_coin_index_entries [OF fin] utxo_inv_def)
qed

lemma length_enc_coins:
  "list_all (\<lambda>p. length (fst p) = HASH_SIZE \<and> ok_owner (cu_owner (snd p))) xs \<Longrightarrow>
     length (enc_vec (enc_pair enc_array enc_coin_utxo) xs) = 4 + 73 * length xs"
  by (induction xs)
    (simp_all add: enc_vec_def enc_seq_def enc_pair_def enc_coin_utxo_def length_enc_owner enc_array_def HASH_SIZE_def)

lemma canonical_fixed_map_length_Ok:
  assumes "n \<le> U32_MAX" and "unat w < 2 ^ 16"
  shows "\<exists>r. canonical_fixed_map_length n w = Ok r \<and> unat r = 4 + n * unat w"
proof -
  have n: "n < 2 ^ 32" using assms(1) by (simp add: U32_MAX_def)
  then have c: "unat (ucast (of_nat n :: u32) :: u64) = n" by (simp add: unat_ucast_up unat_of_nat)
  have b: "n * unat w < 2 ^ 48"
    using mult_strict_mono [OF n assms(2)] by simp
  then obtain p where p: "checked_mul (ucast (of_nat n :: u32)) w = Some p" "unat p = n * unat w"
    using c by (simp add: checked_mul_def unat_word_ariths)
  then obtain r where "checked_add p 4 = Some r" "unat r = n * unat w + 4"
    using b by (simp add: checked_add_def unat_word_ariths)
  with n p show ?thesis by (simp add: canonical_fixed_map_length_def try_from_nat_def)
qed

lemma utxo_encoded_len_Ok:
  assumes "utxo_inv s" and "utxo_sized s"
  shows "\<exists>n. utxo_encoded_len s = Ok n \<and> unat n = length (enc_utxo_set s)"
proof -
  have w: "canonical_length (replicate HASH_SIZE 0 @
      enc_coin_utxo \<lparr>cu_amount = 0, cu_owner = owner.Program (replicate HASH_SIZE 0)\<rparr>) = Ok 73"
    by (simp add: canonical_length_def enc_coin_utxo_def length_enc_owner ok_owner_def try_from_nat_def)
      (simp add: HASH_SIZE_def)
  have m: "canonical_length (u64_le (us_total_value s)) = Ok 8" by (simp add: canonical_length_def try_from_nat_def)
  have len: "length (coins s) = utxo_len s" "utxo_len s \<le> U32_MAX"
    using assms by (simp_all add: coins_def utxo_inv_def utxo_len_def fm.length_entries utxo_sized_def)
  have "unat (73 :: u64) = 73" by simp
  then obtain r where r: "canonical_fixed_map_length (utxo_len s) 73 = Ok r" "unat r = 4 + utxo_len s * 73"
    using canonical_fixed_map_length_Ok [OF len(2), of 73] by auto
  have "length (enc_utxo_set s) = 12 + 73 * utxo_len s"
    using length_enc_coins [of "coins s"] coins_ok [OF assms] len(1) by (simp add: enc_utxo_set_def ok_vec_def)
  moreover have "utxo_len s * 73 + 12 < 2 ^ 64" using len(2) by (simp add: U32_MAX_def)
  ultimately show ?thesis using r
    by (simp add: utxo_encoded_len_def w m checked_add_def unat_word_ariths)
qed


subsection \<open>Properties\<close>

text \<open>C37. In every set of unspent coins reachable by insertions and consumptions, accepted or rejected,
  the cached total is exactly the value of the live coins, no live coin is empty, the set is empty
  exactly when its total is zero, and the query by owner lists exactly the owner's live coins in
  the order of their identifiers.\<close>

theorem coin_set_accounting:
  fixes ops :: "coin_op list"
  defines "s \<equiv> utxo_run ops"
  shows "unat (us_total_value s) = coin_sum (us_coins s) \<and> (\<forall>c \<in> ran (us_coins s). cu_amount c \<noteq> 0) \<and>
    (us_total_value s = 0 \<longleftrightarrow> utxo_is_empty s) \<and>
    set (coins_by_owner s x) = {(i, c). us_coins s i = Some c \<and> cu_owner c = x} \<and>
    sorted_wrt (<) (map fst (coins_by_owner s x))"
proof -
  have inv: "utxo_inv s" unfolding s_def by (rule utxo_run_inv)
  have fin: "finite (owned_ids (us_coins s) x)"
    by (rule finite_subset [of _ "dom (us_coins s)"]) (use inv in \<open>auto simp: utxo_inv_def owned_ids_def\<close>)
  then have "set (coins_by_owner s x) = {(i, c). us_coins s i = Some c \<and> cu_owner c = x}"
    by (auto simp: coins_by_owner_eq [OF inv] owned_ids_def)
  moreover have "sorted_wrt (<) (map fst (coins_by_owner s x))"
    using fin by (simp add: coins_by_owner_eq [OF inv] comp_def)
  ultimately show ?thesis using inv utxo_empty_iff [OF inv] by (simp add: utxo_inv_def)
qed

theorem coin_set_accounting_witness:
  "let c = \<lparr>cu_amount = 5, cu_owner = owner.Program [1]\<rparr>; s = utxo_run [InsertCoin [7] c, InsertCoin [7] c]
   in us_coins s [7] = Some c \<and> unat (us_total_value s) = coin_sum (us_coins s) \<and> \<not> utxo_is_empty s"
proof -
  let ?c = "\<lparr>cu_amount = 5, cu_owner = owner.Program [1]\<rparr>"
  let ?ops = "[InsertCoin [7] ?c, InsertCoin [7] ?c]"
  have "us_coins (utxo_run ?ops) [7] = Some ?c" "us_total_value (utxo_run ?ops) \<noteq> 0"
    by (simp_all add: utxo_run_def insert_coin_def utxo_default_def checked_add_def)
  with coin_set_accounting [of ?ops] show ?thesis by (simp add: Let_def)
qed

text \<open>Insertion and consumption are inverse on the whole state, total and index included: a coin
  that was inserted can be consumed and gives back the set before, and a consumed coin can be put
  back and restores the set. This is what undoing a block relies on.\<close>

theorem coin_insert_consume_inverse:
  assumes "utxo_inv s"
  shows "(\<forall>s'. insert_coin s i c = Ok s' \<longrightarrow> consume_coin s' i = Ok (c, s)) \<and>
    (\<forall>s'. consume_coin s i = Ok (c, s') \<longrightarrow> insert_coin s' i c = Ok s)"
  using insert_consume [OF assms] consume_insert [OF assms] by blast

theorem coin_insert_consume_inverse_witness:
  "let c = \<lparr>cu_amount = 5, cu_owner = owner.Program [1]\<rparr>
   in \<exists>s'. insert_coin utxo_default [7] c = Ok s' \<and> consume_coin s' [7] = Ok (c, utxo_default)"
proof -
  let ?c = "\<lparr>cu_amount = 5, cu_owner = owner.Program [1]\<rparr>"
  obtain s' where s': "insert_coin utxo_default [7] ?c = Ok s'"
    by (simp add: insert_coin_def utxo_default_def checked_add_def)
  with coin_insert_consume_inverse [OF utxo_inv_default, of "[7]" ?c]
  have "consume_coin s' [7] = Ok (?c, utxo_default)" by blast
  with s' show ?thesis unfolding Let_def by blast
qed

text \<open>The encoded length that the state root predicts for the coin set without encoding it is the
  length of its encoding, and decoding the encoding restores the set with its owner index, for
  every set within the \<open>u32\<close> entry count.\<close>

theorem coin_set_encoding:
  assumes "utxo_inv s" and "utxo_sized s"
  shows "(\<exists>n. utxo_encoded_len s = Ok n \<and> unat n = length (enc_utxo_set s)) \<and>
    try_from_slice dec_utxo_set (enc_utxo_set s) = Some s"
  using utxo_encoded_len_Ok [OF assms] dec_enc_utxo_set [OF assms, of "[]"] by (simp add: try_from_slice_def)

theorem coin_set_encoding_witness:
  "\<exists>n. utxo_encoded_len utxo_default = Ok n \<and> unat n = length (enc_utxo_set utxo_default)"
proof -
  have "utxo_sized utxo_default" by (simp add: utxo_sized_def utxo_default_def utxo_len_def)
  from coin_set_encoding [OF utxo_inv_default this] show ?thesis by simp
qed

end
