(* ===== verification/Coin_Host.thy ===== *)
theory Coin_Host
  imports Coin_Utxo
begin

section \<open>Coin transitions through a restricted host\<close>

text \<open>
  \<^verbatim>\<open>kernel/src/ledger/applied/coin.rs\<close> runs the coin part of every operation: an application installed by
  the node receives a host whose only methods read an allowed input, consume it, create a declared
  output and record the declared burn. \<^verbatim>\<open>extension/src/monetary/mod.rs\<close> is the installed application;
  \<^verbatim>\<open>ledger/applied/rollback.rs\<close> undoes a transition from its journal. The test-only checkpoints of the host
  are the constant success they are outside tests.

  An application is a function on the host that reaches its result by calls of the host's methods
  (locale \<open>coin_application\<close>); whatever it does, a transition that is accepted is exactly the declared
  one, and a rejected one leaves the ledger as it was. The installed application completes every
  funded transition.
\<close>

subsection \<open>State\<close>

datatype state_error = Utxo utxo_error | InvalidTransition | OutputIndexOverflow | BurnOverflow | BurnUnderflow | AmountOverflow

record coin_record =
  cr_total_mined :: zeno
  cr_total_burned :: zeno

definition coin_supply :: "coin_record \<Rightarrow> zeno option" where
  "coin_supply r = checked_sub (cr_total_mined r) (cr_total_burned r)"

record coin_ledger =
  cl_utxos :: utxo_set
  cl_coin :: coin_record

record coin_journal =
  cj_consumed :: "(hash \<times> coin_utxo) list"
  cj_created :: "hash list"
  cj_mined :: zeno
  cj_burned :: zeno

definition coin_journal_default :: coin_journal where
  "coin_journal_default = \<lparr>cj_consumed = [], cj_created = [], cj_mined = 0, cj_burned = 0\<rparr>"

record coin_output =
  co_output :: owner
  co_amount :: zeno

record coin_transition =
  ct_signer :: program_id
  ct_inputs :: "hash list"
  ct_outputs :: "coin_output list"
  ct_miner_fee :: zeno

subsection \<open>Rolling back a coin journal\<close>

text \<open>Each operation yields the ledger it leaves behind and its result.\<close>

fun check_created :: "utxo_set \<Rightarrow> hash set \<Rightarrow> hash list \<Rightarrow> (hash set, state_error) result" where
  "check_created u created [] = Ok created"
| "check_created u created (i # is) =
     (if i \<in> created \<or> coin u i = None then Err InvalidTransition else check_created u (insert i created) is)"

fun check_consumed :: "utxo_set \<Rightarrow> hash set \<Rightarrow> hash set \<Rightarrow> (hash \<times> coin_utxo) list \<Rightarrow> (unit, state_error) result" where
  "check_consumed u created consumed [] = Ok ()"
| "check_consumed u created consumed ((i, c) # ics) =
     (if i \<in> consumed \<or> (coin u i \<noteq> None \<and> i \<notin> created) then Err InvalidTransition
      else check_consumed u created (insert i consumed) ics)"

fun consume_all :: "utxo_set \<Rightarrow> hash list \<Rightarrow> utxo_set \<times> (unit, state_error) result" where
  "consume_all u [] = (u, Ok ())"
| "consume_all u (i # is) = (case consume_coin u i of
     Inl e \<Rightarrow> (u, Err (Utxo e))
   | Inr (c, u') \<Rightarrow> consume_all u' is)"

fun insert_all :: "utxo_set \<Rightarrow> (hash \<times> coin_utxo) list \<Rightarrow> utxo_set \<times> (unit, state_error) result" where
  "insert_all u [] = (u, Ok ())"
| "insert_all u ((i, c) # ics) = (case insert_coin u i c of
     Inl e \<Rightarrow> (u, Err (Utxo e))
   | Inr u' \<Rightarrow> insert_all u' ics)"

definition rollback_coin :: "coin_ledger \<Rightarrow> coin_journal \<Rightarrow> coin_ledger \<times> (unit, state_error) result" where
  "rollback_coin st j =
     (case (rbind (ok_or (checked_sub (cr_total_mined (cl_coin st)) (cj_mined j)) AmountOverflow) (\<lambda>mined.
            rbind (ok_or (checked_sub (cr_total_burned (cl_coin st)) (cj_burned j)) BurnUnderflow) (\<lambda>burned.
            rbind (check_created (cl_utxos st) {} (cj_created j)) (\<lambda>created.
            rbind (check_consumed (cl_utxos st) created {} (cj_consumed j)) (\<lambda>_. Ok (mined, burned)))))) of
        Inl e \<Rightarrow> (st, Err e)
      | Inr (mined, burned) \<Rightarrow>
          let st = st\<lparr>cl_coin := \<lparr>cr_total_mined = mined, cr_total_burned = burned\<rparr>\<rparr> in
          (case consume_all (cl_utxos st) (cj_created j) of
             (u, Inl e) \<Rightarrow> (st\<lparr>cl_utxos := u\<rparr>, Err e)
           | (u, Inr _) \<Rightarrow>
               (case insert_all u (cj_consumed j) of (u', r) \<Rightarrow> (st\<lparr>cl_utxos := u'\<rparr>, r))))"

subsection \<open>The host\<close>

record host_context =
  hc_inputs :: "hash list"
  hc_outputs :: "(owner \<times> u64) list"
  hc_miner :: program_id
  hc_miner_fee :: u64
  hc_expected_burn :: u64
  hc_commitment :: hash

record coin_host =
  ho_state :: coin_ledger
  ho_journal :: coin_journal

definition host_input_amount :: "host_context \<Rightarrow> coin_host \<Rightarrow> hash \<Rightarrow> (u64, state_error) result" where
  "host_input_amount cx h i =
     (if i \<notin> set (hc_inputs cx) then Err InvalidTransition
      else ok_or (map_option cu_amount (coin (cl_utxos (ho_state h)) i)) InvalidTransition)"

definition host_consume :: "host_context \<Rightarrow> coin_host \<Rightarrow> hash \<Rightarrow> coin_host \<times> (unit, state_error) result" where
  "host_consume cx h i =
     (if i \<notin> set (hc_inputs cx) then (h, Err InvalidTransition)
      else (case consume_coin (cl_utxos (ho_state h)) i of
        Inl e \<Rightarrow> (h, Err (Utxo e))
      | Inr (c, u) \<Rightarrow>
          (h\<lparr>ho_state := (ho_state h)\<lparr>cl_utxos := u\<rparr>,
             ho_journal := (ho_journal h)\<lparr>cj_consumed := cj_consumed (ho_journal h) @ [(i, c)]\<rparr>\<rparr>, Ok ())))"

definition expected_output :: "host_context \<Rightarrow> nat \<Rightarrow> (owner \<times> u64) option" where
  "expected_output cx k =
     (if k < length (hc_outputs cx) then Some (hc_outputs cx ! k)
      else if k = length (hc_outputs cx) \<and> hc_miner_fee cx \<noteq> 0 then Some (owner.Program (hc_miner cx), hc_miner_fee cx)
      else None)"

definition host_create ::
    "(bytes \<Rightarrow> hash) \<Rightarrow> host_context \<Rightarrow> coin_host \<Rightarrow> u32 \<Rightarrow> owner \<Rightarrow> u64 \<Rightarrow> coin_host \<times> (unit, state_error) result" where
  "host_create sha3 cx h index x amount = (case expected_output cx (unat index) of
     None \<Rightarrow> (h, Err InvalidTransition)
   | Some expected \<Rightarrow>
       if expected \<noteq> (x, amount) then (h, Err InvalidTransition)
       else let i = from_output sha3 (hc_commitment cx) index in
         (case insert_coin (cl_utxos (ho_state h)) i \<lparr>cu_amount = amount, cu_owner = x\<rparr> of
            Inl e \<Rightarrow> (h, Err (Utxo e))
          | Inr u \<Rightarrow>
              (h\<lparr>ho_state := (ho_state h)\<lparr>cl_utxos := u\<rparr>,
                 ho_journal := (ho_journal h)\<lparr>cj_created := cj_created (ho_journal h) @ [i]\<rparr>\<rparr>, Ok ())))"

definition record_protocol_burn ::
    "coin_ledger \<Rightarrow> coin_journal \<Rightarrow> zeno \<Rightarrow> (coin_ledger \<times> coin_journal, state_error) result" where
  "record_protocol_burn st j burned =
     rbind (ok_or (checked_add (cr_total_burned (cl_coin st)) burned) BurnOverflow) (\<lambda>total.
     rbind (ok_or (checked_add (cj_burned j) burned) BurnOverflow) (\<lambda>journal_burned.
     Ok (st\<lparr>cl_coin := (cl_coin st)\<lparr>cr_total_burned := total\<rparr>\<rparr>, j\<lparr>cj_burned := journal_burned\<rparr>)))"

definition host_burn :: "host_context \<Rightarrow> coin_host \<Rightarrow> u64 \<Rightarrow> coin_host \<times> (unit, state_error) result" where
  "host_burn cx h amount =
     (if amount \<noteq> hc_expected_burn cx \<or> cj_burned (ho_journal h) \<noteq> 0 then (h, Err InvalidTransition)
      else (case record_protocol_burn (ho_state h) (ho_journal h) amount of
        Inl e \<Rightarrow> (h, Err e)
      | Inr (st, j) \<Rightarrow> (\<lparr>ho_state = st, ho_journal = j\<rparr>, Ok ())))"

subsection \<open>Running an application\<close>

datatype transfer_error = Host state_error | InvalidBalance | TransferAmountOverflow | TransferOutputIndexOverflow

fun transfer_state_error :: "transfer_error \<Rightarrow> state_error" where
  "transfer_state_error (Host e) = e"
| "transfer_state_error InvalidBalance = InvalidTransition"
| "transfer_state_error TransferAmountOverflow = AmountOverflow"
| "transfer_state_error TransferOutputIndexOverflow = OutputIndexOverflow"

type_synonym application = "host_context \<Rightarrow> coin_host \<Rightarrow> coin_host \<times> (unit, transfer_error) result"

definition inputs_amount :: "utxo_set \<Rightarrow> hash list \<Rightarrow> (u64, state_error) result" where
  "inputs_amount u inputs = try_fold (\<lambda>total i.
     rbind (ok_or (coin u i) InvalidTransition) (\<lambda>c. ok_or (checked_add total (cu_amount c)) AmountOverflow)) 0 inputs"

definition outputs_amount :: "u64 \<Rightarrow> (owner \<times> u64) list \<Rightarrow> (u64, state_error) result" where
  "outputs_amount fee outputs = try_fold (\<lambda>total (x, amount). ok_or (checked_add total amount) AmountOverflow) fee outputs"

definition finish_coin_transition ::
    "coin_ledger \<Rightarrow> coin_journal \<Rightarrow> (unit, state_error) result \<Rightarrow> coin_ledger \<times> (coin_journal, state_error) result" where
  "finish_coin_transition st j r = (case r of
     Inr _ \<Rightarrow> (st, Ok j)
   | Inl e \<Rightarrow> (case rollback_coin st j of (st', Inl e') \<Rightarrow> (st', Err e') | (st', Inr _) \<Rightarrow> (st', Err e)))"

definition transition_context ::
    "coin_ledger \<Rightarrow> coin_transition \<Rightarrow> hash \<Rightarrow> program_id \<Rightarrow> (host_context, state_error) result" where
  "transition_context st intent commitment miner =
     (let outputs = map (\<lambda>out. (co_output out, co_amount out)) (ct_outputs intent) in
      rbind (inputs_amount (cl_utxos st) (ct_inputs intent)) (\<lambda>input_total.
      rbind (outputs_amount (ct_miner_fee intent) outputs) (\<lambda>output_total.
      rbind (ok_or (checked_sub input_total output_total) InvalidTransition) (\<lambda>expected_burn.
      Ok \<lparr>hc_inputs = ct_inputs intent, hc_outputs = outputs, hc_miner = miner, hc_miner_fee = ct_miner_fee intent,
          hc_expected_burn = expected_burn, hc_commitment = commitment\<rparr>))))"

definition execute_coin_program ::
    "application \<Rightarrow> coin_ledger \<Rightarrow> coin_transition \<Rightarrow> hash \<Rightarrow> program_id \<Rightarrow> coin_ledger \<times> (coin_journal, state_error) result" where
  "execute_coin_program execute_coin st intent commitment miner =
     (case transition_context st intent commitment miner of
        Inl e \<Rightarrow> finish_coin_transition st coin_journal_default (Err e)
      | Inr cx \<Rightarrow>
          (case execute_coin cx \<lparr>ho_state = st, ho_journal = coin_journal_default\<rparr> of
             (h, r) \<Rightarrow> finish_coin_transition (ho_state h) (ho_journal h)
               (rbind (map_err transfer_state_error r) (\<lambda>_.
                 if length (cj_consumed (ho_journal h)) \<noteq> length (ct_inputs intent) \<or>
                    length (cj_created (ho_journal h)) \<noteq> length (hc_outputs cx) + (if ct_miner_fee intent \<noteq> 0 then 1 else 0) \<or>
                    cj_burned (ho_journal h) \<noteq> hc_expected_burn cx
                 then Err InvalidTransition else Ok ()))))"


text \<open>
  The installed application (\<^verbatim>\<open>SystemApplications\<close>) and the one of a bare kernel. An application gets
  the inputs, outputs, miner and fee of the transition beside the host; they are fields of the context.
\<close>

definition host_then :: "coin_host \<times> (unit, state_error) result \<Rightarrow> (coin_host \<Rightarrow> coin_host \<times> (unit, transfer_error) result) \<Rightarrow>
    coin_host \<times> (unit, transfer_error) result" where
  "host_then p k = (case p of (h, Inl e) \<Rightarrow> (h, Err (Host e)) | (h, Inr _) \<Rightarrow> k h)"

definition transfer_then :: "coin_host \<times> (unit, transfer_error) result \<Rightarrow> (coin_host \<Rightarrow> coin_host \<times> (unit, transfer_error) result) \<Rightarrow>
    coin_host \<times> (unit, transfer_error) result" where
  "transfer_then p k = (case p of (h, Inl e) \<Rightarrow> (h, Err e) | (h, Inr _) \<Rightarrow> k h)"

fun transfer_consume :: "host_context \<Rightarrow> coin_host \<Rightarrow> hash list \<Rightarrow> coin_host \<times> (unit, transfer_error) result" where
  "transfer_consume cx h [] = (h, Ok ())"
| "transfer_consume cx h (i # is) = host_then (host_consume cx h i) (\<lambda>h. transfer_consume cx h is)"

definition transfer_create_one ::
    "(bytes \<Rightarrow> hash) \<Rightarrow> host_context \<Rightarrow> coin_host \<Rightarrow> nat \<Rightarrow> owner \<Rightarrow> u64 \<Rightarrow> coin_host \<times> (unit, transfer_error) result" where
  "transfer_create_one sha3 cx h k x amount = (case try_from_nat k of
     None \<Rightarrow> (h, Err TransferOutputIndexOverflow)
   | Some index \<Rightarrow> host_then (host_create sha3 cx h index x amount) (\<lambda>h. (h, Ok ())))"

fun transfer_create ::
    "(bytes \<Rightarrow> hash) \<Rightarrow> host_context \<Rightarrow> coin_host \<Rightarrow> nat \<Rightarrow> (owner \<times> u64) list \<Rightarrow> coin_host \<times> (unit, transfer_error) result" where
  "transfer_create sha3 cx h k [] = (h, Ok ())"
| "transfer_create sha3 cx h k ((x, amount) # outs) =
     transfer_then (transfer_create_one sha3 cx h k x amount) (\<lambda>h. transfer_create sha3 cx h (Suc k) outs)"

definition transfer_burn_amount :: "host_context \<Rightarrow> coin_host \<Rightarrow> (u64, transfer_error) result" where
  "transfer_burn_amount cx h =
     rbind (try_fold (\<lambda>total i. rbind (map_err Host (host_input_amount cx h i)) (\<lambda>amount.
        ok_or (checked_add total amount) TransferAmountOverflow)) 0 (hc_inputs cx)) (\<lambda>input_total.
     rbind (try_fold (\<lambda>total (x, amount). ok_or (checked_add total amount) TransferAmountOverflow) 0 (hc_outputs cx)) (\<lambda>output_total.
     ok_or (Option.bind (checked_sub input_total output_total) (\<lambda>remaining. checked_sub remaining (hc_miner_fee cx))) InvalidBalance))"

definition execute_transfer :: "(bytes \<Rightarrow> hash) \<Rightarrow> application" where
  "execute_transfer sha3 cx h = (case transfer_burn_amount cx h of
     Inl e \<Rightarrow> (h, Err e)
   | Inr burn \<Rightarrow>
       transfer_then (transfer_consume cx h (hc_inputs cx)) (\<lambda>h.
       transfer_then (transfer_create sha3 cx h 0 (hc_outputs cx)) (\<lambda>h.
       transfer_then (if hc_miner_fee cx \<noteq> 0
          then transfer_create_one sha3 cx h (length (hc_outputs cx)) (owner.Program (hc_miner cx)) (hc_miner_fee cx)
          else (h, Ok ())) (\<lambda>h.
       host_then (host_burn cx h burn) (\<lambda>h. (h, Ok ()))))))"

definition no_applications :: application where
  "no_applications cx h = (h, Err (Host InvalidTransition))"

subsection \<open>Applications reach their result through the host\<close>

inductive host_reach :: "(bytes \<Rightarrow> hash) \<Rightarrow> host_context \<Rightarrow> coin_host \<Rightarrow> coin_host \<Rightarrow> bool" for sha3 cx h where
  start: "host_reach sha3 cx h h"
| consume: "host_reach sha3 cx h h' \<Longrightarrow> host_reach sha3 cx h (fst (host_consume cx h' i))"
| create: "host_reach sha3 cx h h' \<Longrightarrow> host_reach sha3 cx h (fst (host_create sha3 cx h' k x a))"
| burn: "host_reach sha3 cx h h' \<Longrightarrow> host_reach sha3 cx h (fst (host_burn cx h' a))"

definition coin_of :: "owner \<times> u64 \<Rightarrow> coin_utxo" where
  "coin_of p = \<lparr>cu_amount = snd p, cu_owner = fst p\<rparr>"

definition created_coins :: "(bytes \<Rightarrow> hash) \<Rightarrow> host_context \<Rightarrow> u32 list \<Rightarrow> (hash \<times> coin_utxo) list" where
  "created_coins sha3 cx ks = map (\<lambda>k. (from_output sha3 (hc_commitment cx) k, coin_of (the (expected_output cx (unat k))))) ks"

text \<open>The host's ledger is the original one without the consumed coins and with the created ones.\<close>

definition host_inv :: "(bytes \<Rightarrow> hash) \<Rightarrow> host_context \<Rightarrow> coin_ledger \<Rightarrow> coin_host \<Rightarrow> u32 list \<Rightarrow> bool" where
  "host_inv sha3 cx st h ks \<longleftrightarrow>
     (let u = cl_utxos (ho_state h); u0 = cl_utxos st; j = ho_journal h in
      utxo_inv u \<and> distinct (map fst (cj_consumed j)) \<and>
      (\<forall>(i, c) \<in> set (cj_consumed j). i \<in> set (hc_inputs cx) \<and> us_coins u0 i = Some c) \<and>
      cj_created j = rev (map fst (created_coins sha3 cx ks)) \<and> distinct (map fst (created_coins sha3 cx ks)) \<and>
      (\<forall>k \<in> set ks. expected_output cx (unat k) \<noteq> None) \<and>
      (\<forall>i \<in> fst ` set (created_coins sha3 cx ks). us_coins u0 i = None) \<and>
      us_coins u = (us_coins u0 |` (- fst ` set (cj_consumed j))) ++ map_of (created_coins sha3 cx ks) \<and>
      unat (us_total_value u) + (\<Sum>(i, c)\<leftarrow>cj_consumed j. unat (cu_amount c)) =
        unat (us_total_value u0) + (\<Sum>(i, c)\<leftarrow>created_coins sha3 cx ks. unat (cu_amount c)) \<and>
      cr_total_mined (cl_coin (ho_state h)) = cr_total_mined (cl_coin st) \<and> cj_mined j = 0 \<and>
      unat (cr_total_burned (cl_coin (ho_state h))) = unat (cr_total_burned (cl_coin st)) + unat (cj_burned j) \<and>
      (cj_burned j = 0 \<or> cj_burned j = hc_expected_burn cx))"

definition fresh_outputs :: "(bytes \<Rightarrow> hash) \<Rightarrow> host_context \<Rightarrow> bool" where
  "fresh_outputs sha3 cx \<longleftrightarrow> (\<forall>k. from_output sha3 (hc_commitment cx) k \<notin> set (hc_inputs cx))"

lemma host_inv_start:
  "utxo_inv (cl_utxos st) \<Longrightarrow> host_inv sha3 cx st \<lparr>ho_state = st, ho_journal = coin_journal_default\<rparr> []"
  by (simp add: host_inv_def coin_journal_default_def created_coins_def restrict_map_def)

lemma host_consume_inv:
  assumes "host_inv sha3 cx st h ks" and fresh: "fresh_outputs sha3 cx"
  shows "host_inv sha3 cx st (fst (host_consume cx h i)) ks"
proof (cases "\<exists>c u. i \<in> set (hc_inputs cx) \<and> consume_coin (cl_utxos (ho_state h)) i = Ok (c, u)")
  case False
  then have "fst (host_consume cx h i) = h" by (auto simp: host_consume_def split: sum.splits)
  with assms(1) show ?thesis by simp
next
  case True
  then obtain c u where i: "i \<in> set (hc_inputs cx)" and con: "consume_coin (cl_utxos (ho_state h)) i = Ok (c, u)" by blast
  let ?j = "ho_journal h" and ?base = "us_coins (cl_utxos st)"
  have coins: "us_coins (cl_utxos (ho_state h)) = (?base |` (- fst ` set (cj_consumed ?j))) ++ map_of (created_coins sha3 cx ks)"
    using assms(1) by (simp add: host_inv_def Let_def)
  have "i \<notin> fst ` set (created_coins sha3 cx ks)" using fresh i by (auto simp: fresh_outputs_def created_coins_def)
  then have new: "map_of (created_coins sha3 cx ks) i = None" by (simp add: map_of_eq_None_iff)
  have "us_coins (cl_utxos (ho_state h)) i = Some c" using con by (simp add: consume_coin_Ok)
  then have old: "i \<notin> fst ` set (cj_consumed ?j)" "?base i = Some c"
    using new by (auto simp: coins map_add_def restrict_map_def split: if_splits)
  have "us_coins u = (us_coins (cl_utxos (ho_state h)))(i := None)" using con by (simp add: consume_coin_Ok)
  also have "\<dots> = (?base |` (- insert i (fst ` set (cj_consumed ?j)))) ++ map_of (created_coins sha3 cx ks)"
    using new by (intro ext) (auto simp: coins map_add_def restrict_map_def)
  finally have "us_coins u = (?base |` (- insert i (fst ` set (cj_consumed ?j)))) ++ map_of (created_coins sha3 cx ks)" .
  moreover have "unat (us_total_value (cl_utxos (ho_state h))) = unat (us_total_value u) + unat (cu_amount c)"
    using con by (simp add: consume_coin_Ok)
  moreover have "utxo_inv u" using consume_coin_inv [OF _ con] assms(1) by (simp add: host_inv_def Let_def)
  ultimately show ?thesis using assms(1) i con old by (simp add: host_inv_def Let_def host_consume_def)
qed

lemma host_create_inv:
  assumes "host_inv sha3 cx st h ks" and fresh: "fresh_outputs sha3 cx"
  shows "\<exists>ks'. host_inv sha3 cx st (fst (host_create sha3 cx h k x a)) ks'"
proof (cases "\<exists>u. expected_output cx (unat k) = Some (x, a) \<and>
    insert_coin (cl_utxos (ho_state h)) (from_output sha3 (hc_commitment cx) k) \<lparr>cu_amount = a, cu_owner = x\<rparr> = Ok u")
  case False
  then have "fst (host_create sha3 cx h k x a) = h" by (auto simp: host_create_def Let_def split: sum.splits option.splits)
  with assms(1) show ?thesis by auto
next
  case True
  let ?i = "from_output sha3 (hc_commitment cx) k" and ?c = "\<lparr>cu_amount = a, cu_owner = x\<rparr>"
  let ?j = "ho_journal h" and ?base = "us_coins (cl_utxos st)"
  from True obtain u where e: "expected_output cx (unat k) = Some (x, a)"
    and ins: "insert_coin (cl_utxos (ho_state h)) ?i ?c = Ok u" by blast
  have cc: "created_coins sha3 cx (k # ks) = (?i, ?c) # created_coins sha3 cx ks"
    using e by (simp add: created_coins_def coin_of_def)
  have coins: "us_coins (cl_utxos (ho_state h)) = (?base |` (- fst ` set (cj_consumed ?j))) ++ map_of (created_coins sha3 cx ks)"
    using assms(1) by (simp add: host_inv_def Let_def)
  have none: "us_coins (cl_utxos (ho_state h)) ?i = None" using ins by (simp add: insert_coin_Ok)
  then have new: "?i \<notin> fst ` set (created_coins sha3 cx ks)" by (auto simp: coins map_add_None map_of_eq_None_iff)
  have "?i \<notin> fst ` set (cj_consumed ?j)" using fresh assms(1) by (fastforce simp: fresh_outputs_def host_inv_def Let_def)
  then have "?base ?i = None" using none by (simp add: coins map_add_None restrict_map_def)
  moreover have "unat (us_total_value u) = unat (us_total_value (cl_utxos (ho_state h))) + unat a"
    using ins by (simp add: insert_coin_Ok)
  moreover have "utxo_inv u" using insert_coin_inv [OF _ ins] assms(1) by (simp add: host_inv_def Let_def)
  moreover have "us_coins u = (?base |` (- fst ` set (cj_consumed ?j))) ++ map_of (created_coins sha3 cx (k # ks))"
    using ins by (simp add: insert_coin_Ok cc coins)
  ultimately have "host_inv sha3 cx st (fst (host_create sha3 cx h k x a)) (k # ks)"
    using assms(1) e ins new by (simp add: host_inv_def Let_def host_create_def cc)
  then show ?thesis by blast
qed

lemma host_burn_inv:
  assumes "host_inv sha3 cx st h ks"
  shows "host_inv sha3 cx st (fst (host_burn cx h a)) ks"
  using assms by (auto simp: host_inv_def Let_def host_burn_def record_protocol_burn_def result_simps checked_simps word_unat_eq_iff split: sum.splits)

lemma host_reach_inv:
  assumes "host_reach sha3 cx h h'" and "host_inv sha3 cx st h ks" and "fresh_outputs sha3 cx"
  shows "\<exists>ks'. host_inv sha3 cx st h' ks'"
  using assms by (induction rule: host_reach.induct) (blast intro: host_consume_inv host_create_inv host_burn_inv)+


subsection \<open>A coin journal undoes a transition\<close>

lemma utxo_inv_unique:
  "utxo_inv u \<Longrightarrow> utxo_inv u' \<Longrightarrow> us_coins u = us_coins u' \<Longrightarrow> u = u'"
  by (cases u; cases u') (simp add: utxo_inv_def word_unat_eq_iff)

lemma coin_sum_mono:
  assumes "m \<subseteq>\<^sub>m t" and "finite (dom t)"
  shows "coin_sum m \<le> coin_sum t"
proof -
  have "coin_sum m = (\<Sum>i\<in>dom m. unat (cu_amount (the (t i))))"
    unfolding coin_sum_def using assms(1) by (intro sum.cong) (auto simp: map_le_def)
  also have "\<dots> \<le> coin_sum t"
    unfolding coin_sum_def using assms map_le_implies_dom_le [OF assms(1)] by (intro sum_mono2) auto
  finally show ?thesis .
qed

lemma check_created_Ok:
  "distinct is \<Longrightarrow> set is \<inter> created = {} \<Longrightarrow> \<forall>i \<in> set is. us_coins u i \<noteq> None \<Longrightarrow>
   check_created u created is = Ok (created \<union> set is)"
  by (induction "is" arbitrary: created) (auto simp: coin_def)

lemma check_consumed_Ok:
  "distinct (map fst ics) \<Longrightarrow> fst ` set ics \<inter> consumed = {} \<Longrightarrow> \<forall>i \<in> fst ` set ics. us_coins u i = None \<or> i \<in> created \<Longrightarrow>
   check_consumed u created consumed ics = Ok ()"
  by (induction ics arbitrary: consumed) (auto simp: coin_def)

lemma consume_all_Ok:
  "utxo_inv u \<Longrightarrow> distinct is \<Longrightarrow> set is \<subseteq> dom (us_coins u) \<Longrightarrow>
   \<exists>u'. consume_all u is = (u', Ok ()) \<and> utxo_inv u' \<and> us_coins u' = us_coins u |` (- set is)"
proof (induction "is" arbitrary: u)
  case (Cons i "is")
  then obtain c where c: "us_coins u i = Some c" by auto
  then obtain u1 where con: "consume_coin u i = Ok (c, u1)" using consume_coin_total [OF Cons.prems(1), of i] by auto
  then have u1: "us_coins u1 = (us_coins u)(i := None)" by (simp add: consume_coin_Ok)
  have "\<exists>u'. consume_all u1 is = (u', Ok ()) \<and> utxo_inv u' \<and> us_coins u' = us_coins u1 |` (- set is)"
    using Cons.prems(2,3) u1 by (intro Cons.IH consume_coin_inv [OF Cons.prems(1) con]) auto
  moreover have "(us_coins u)(i := None) |` (- set is) = us_coins u |` (- set (i # is))"
    by (auto simp: restrict_map_def)
  ultimately show ?case using con u1 by auto
qed (simp add: restrict_map_def)

lemma insert_all_Ok:
  assumes fin: "finite (dom t)" and fits: "coin_sum t < 2 ^ 64"
  shows "utxo_inv u \<Longrightarrow> us_coins u \<subseteq>\<^sub>m t \<Longrightarrow> distinct (map fst ics) \<Longrightarrow>
    \<forall>(i, c) \<in> set ics. t i = Some c \<and> us_coins u i = None \<and> cu_amount c \<noteq> 0 \<Longrightarrow>
    \<exists>u'. insert_all u ics = (u', Ok ()) \<and> utxo_inv u' \<and> us_coins u' = us_coins u ++ map_of ics"
proof (induction ics arbitrary: u)
  case (Cons ic ics)
  obtain i c where ic: "ic = (i, c)" by fastforce
  have i: "t i = Some c" "us_coins u i = None" "cu_amount c \<noteq> 0" using Cons.prems(4) by (auto simp: ic)
  have sub: "(us_coins u)(i \<mapsto> c) \<subseteq>\<^sub>m t" using Cons.prems(2) i(1) by (auto simp: map_le_def)
  have "unat (us_total_value u) + unat (cu_amount c) = coin_sum ((us_coins u)(i \<mapsto> c))"
    using Cons.prems(1) i(2) by (simp add: utxo_inv_def coin_sum_insert)
  also have "\<dots> < 2 ^ 64" using coin_sum_mono [OF sub fin] fits by linarith
  finally have "checked_add (us_total_value u) (cu_amount c) = Some (us_total_value u + cu_amount c)" by (simp add: checked_add_def)
  then obtain u1 where ins: "insert_coin u i c = Ok u1" using i by (simp add: insert_coin_def domIff)
  have u1: "us_coins u1 = (us_coins u)(i \<mapsto> c)" using ins by (simp add: insert_coin_Ok)
  have "\<exists>u'. insert_all u1 ics = (u', Ok ()) \<and> utxo_inv u' \<and> us_coins u' = us_coins u1 ++ map_of ics"
  proof (rule Cons.IH)
    show "\<forall>(k, c) \<in> set ics. t k = Some c \<and> us_coins u1 k = None \<and> cu_amount c \<noteq> 0"
      using Cons.prems(3,4) by (force simp: u1 ic)
  qed (use insert_coin_inv [OF Cons.prems(1) ins] sub Cons.prems(3) in \<open>simp_all add: u1 del: fun_upd_apply\<close>)
  moreover have "i \<notin> dom (map_of ics)" using Cons.prems(3) by (simp add: ic dom_map_of_conv_image_fst)
  then have "(us_coins u)(i \<mapsto> c) ++ map_of ics = us_coins u ++ map_of (ic # ics)"
    unfolding ic by (intro ext) (auto simp: map_add_def split: option.splits)
  ultimately obtain u' where "insert_all u1 ics = (u', Ok ())" "utxo_inv u'" "us_coins u' = us_coins u ++ map_of (ic # ics)"
    unfolding u1 by metis
  moreover from this(1) have "insert_all u (ic # ics) = (u', Ok ())" using ins by (simp add: ic)
  ultimately show ?case by blast
qed simp

lemma remove_added:
  assumes "\<forall>i \<in> fst ` set cc. m i = None"
  shows "((m |` s) ++ map_of cc) |` (- fst ` set cc) = m |` s"
proof
  fix k
  show "(((m |` s) ++ map_of cc) |` (- fst ` set cc)) k = (m |` s) k"
  proof (cases "k \<in> fst ` set cc")
    case False
    then have "map_of cc k = None" by (simp add: map_of_eq_None_iff)
    with False show ?thesis by (simp add: map_add_def)
  qed (use assms in \<open>auto simp: restrict_map_def\<close>)
qed

lemma restore_removed:
  assumes "\<forall>(k, c) \<in> set cs. m k = Some c"
  shows "(m |` (- fst ` set cs)) ++ map_of cs = m"
proof
  fix k
  show "((m |` (- fst ` set cs)) ++ map_of cs) k = m k"
  proof (cases "map_of cs k")
    case None
    then have "k \<notin> fst ` set cs" by (simp add: map_of_eq_None_iff)
    with None show ?thesis by (simp add: map_add_def)
  next
    case (Some c)
    from map_of_SomeD [OF this] have "m k = Some c" using assms by auto
    with Some show ?thesis by (simp add: map_add_def)
  qed
qed

lemma rollback_host:
  assumes inv: "host_inv sha3 cx st h ks" and u0: "utxo_inv (cl_utxos st)"
  shows "rollback_coin (ho_state h) (ho_journal h) = (st, Ok ())"
proof -
  let ?u = "cl_utxos (ho_state h)" and ?base = "us_coins (cl_utxos st)" and ?j = "ho_journal h" and ?cc = "created_coins sha3 cx ks"
  note i = inv [unfolded host_inv_def Let_def]
  have created: "cj_created ?j = rev (map fst ?cc)" "set (cj_created ?j) = fst ` set ?cc" "distinct (cj_created ?j)" using i by simp_all
  have coins: "us_coins ?u = (?base |` (- fst ` set (cj_consumed ?j))) ++ map_of ?cc" using i by blast
  have live: "set (cj_created ?j) \<subseteq> dom (us_coins ?u)" by (auto simp: coins created(2) dom_map_of_conv_image_fst)
  have consumed: "\<forall>(k, c) \<in> set (cj_consumed ?j). ?base k = Some c" using i by auto
  have 1: "check_created ?u {} (cj_created ?j) = Ok (set (cj_created ?j))"
    using check_created_Ok [of "cj_created ?j" "{}" ?u] created(3) live by auto
  have 2: "check_consumed ?u (set (cj_created ?j)) {} (cj_consumed ?j) = Ok ()"
  proof (rule check_consumed_Ok)
    show "\<forall>k \<in> fst ` set (cj_consumed ?j). us_coins ?u k = None \<or> k \<in> set (cj_created ?j)"
      unfolding coins created(2) map_add_None map_of_eq_None_iff by (auto simp: restrict_map_def)
  qed (use i in simp_all)
  obtain u1 where u1: "consume_all ?u (cj_created ?j) = (u1, Ok ())" "utxo_inv u1" "us_coins u1 = us_coins ?u |` (- set (cj_created ?j))"
    using consume_all_Ok [OF _ created(3) live] i by blast
  have c1: "us_coins u1 = ?base |` (- fst ` set (cj_consumed ?j))"
    using i unfolding u1(3) coins created(2) by (intro remove_added) simp
  have fin: "finite (dom ?base)" "coin_sum ?base < 2 ^ 64"
    using u0 unat_bound [of "us_total_value (cl_utxos st)"] by (simp_all add: utxo_inv_def)
  have nz: "\<forall>(k, c) \<in> set (cj_consumed ?j). ?base k = Some c \<and> us_coins u1 k = None \<and> cu_amount c \<noteq> 0"
    using consumed u0 by (force simp: c1 restrict_map_def utxo_inv_def ran_def)
  have sub: "us_coins u1 \<subseteq>\<^sub>m ?base" unfolding c1 by (simp add: map_le_def)
  obtain u2 where u2: "insert_all u1 (cj_consumed ?j) = (u2, Ok ())" "utxo_inv u2" "us_coins u2 = us_coins u1 ++ map_of (cj_consumed ?j)"
    using insert_all_Ok [OF fin u1(2) _ _ nz] i sub by blast
  have "us_coins u2 = ?base" unfolding u2(3) c1 by (rule restore_removed [OF consumed])
  then have "u2 = cl_utxos st" using utxo_inv_unique [OF u2(2) u0] by simp
  moreover have "checked_sub (cr_total_mined (cl_coin (ho_state h))) (cj_mined ?j) = Some (cr_total_mined (cl_coin st))"
    "checked_sub (cr_total_burned (cl_coin (ho_state h))) (cj_burned ?j) = Some (cr_total_burned (cl_coin st))"
    using i by (simp_all add: checked_simps)
  ultimately show ?thesis using 1 2 u1(1) u2(1) by (simp add: rollback_coin_def Let_def)
qed


subsection \<open>Complete transitions\<close>

definition declared_coins :: "host_context \<Rightarrow> (owner \<times> u64) list" where
  "declared_coins cx = hc_outputs cx @ (if hc_miner_fee cx \<noteq> 0 then [(owner.Program (hc_miner cx), hc_miner_fee cx)] else [])"

lemma expected_output_declared:
  "expected_output cx k = (if k < length (declared_coins cx) then Some (declared_coins cx ! k) else None)"
  by (auto simp: expected_output_def declared_coins_def nth_append)

lemma complete_indices:
  fixes ks :: "u32 list"
  assumes "distinct ks" "\<forall>k \<in> set ks. unat k < n" "length ks = n"
  shows "unat ` set ks = {..<n}"
proof (rule card_subset_eq)
  have "inj_on (unat :: u32 \<Rightarrow> nat) (set ks)" by (auto simp: inj_on_def word_unat_eq_iff)
  then show "card (unat ` set ks) = card {..<n}" using assms by (simp add: card_image distinct_card)
qed (use assms in auto)

lemma complete_inputs:
  assumes "distinct (map fst cs)" "fst ` set cs \<subseteq> set is" "length cs = length is"
  shows "distinct is" "fst ` set cs = set is"
proof -
  have card: "card (fst ` set cs) = length is" using assms distinct_card [OF assms(1)] by simp
  then have "length is \<le> card (set is)" using card_mono [OF _ assms(2)] by simp
  then have "card (set is) = length is" using card_length [of "is"] by simp
  then show "distinct is" "fst ` set cs = set is" using card card_distinct card_subset_eq [OF _ assms(2)] by auto
qed

lemma consumed_value:
  assumes "distinct (map fst cs)" "\<forall>(i, c) \<in> set cs. m i = Some c"
  shows "(\<Sum>(i, c)\<leftarrow>cs. f c) = (\<Sum>i\<in>fst ` set cs. f (the (m i)))"
proof -
  have "map (\<lambda>(i, c). f c) cs = map (\<lambda>i. f (the (m i))) (map fst cs)" using assms(2) by (auto simp: split_beta)
  then have "(\<Sum>(i, c)\<leftarrow>cs. f c) = (\<Sum>i\<leftarrow>map fst cs. f (the (m i)))" by (rule arg_cong)
  then show ?thesis using sum_list_distinct_conv_sum_set [OF assms(1), of "\<lambda>i. f (the (m i))"] by simp
qed

lemma created_value:
  fixes ks :: "u32 list"
  assumes "distinct ks" "unat ` set ks = {..<length (declared_coins cx)}"
  shows "(\<Sum>(i, c)\<leftarrow>created_coins sha3 cx ks. unat (cu_amount c)) = (\<Sum>(x, a)\<leftarrow>declared_coins cx. unat a)"
proof -
  let ?d = "declared_coins cx"
  have inj: "inj_on (unat :: u32 \<Rightarrow> nat) (set ks)" by (auto simp: inj_on_def word_unat_eq_iff)
  have "\<forall>k \<in> set ks. unat k < length ?d" using assms(2) by blast
  then have "(\<Sum>(i, c)\<leftarrow>created_coins sha3 cx ks. unat (cu_amount c)) = (\<Sum>k\<leftarrow>ks. unat (snd (?d ! unat k)))"
    by (auto simp: created_coins_def coin_of_def expected_output_declared intro!: arg_cong [where f = sum_list])
  also have "\<dots> = (\<Sum>k\<in>set ks. unat (snd (?d ! unat k)))" by (rule sum_list_distinct_conv_sum_set [OF assms(1)])
  also have "\<dots> = (\<Sum>n<length ?d. unat (snd (?d ! n)))"
    using sum.reindex [OF inj, of "\<lambda>n. unat (snd (?d ! n))"] by (simp add: assms(2))
  also have "\<dots> = (\<Sum>(x, a)\<leftarrow>?d. unat a)" by (simp add: sum_list_sum_nth atLeast0LessThan split_beta)
  finally show ?thesis .
qed

lemma inputs_amount_Ok:
  "inputs_amount u is = Ok t \<Longrightarrow>
     (\<forall>i \<in> set is. us_coins u i \<noteq> None) \<and> unat t = (\<Sum>i\<leftarrow>is. unat (cu_amount (the (us_coins u i))))"
proof -
  have "try_fold (\<lambda>acc i. rbind (ok_or (coin u i) InvalidTransition) (\<lambda>c. ok_or (checked_add acc (cu_amount c)) AmountOverflow)) acc is = Ok t \<Longrightarrow>
     (\<forall>i \<in> set is. us_coins u i \<noteq> None) \<and> unat t = unat acc + (\<Sum>i\<leftarrow>is. unat (cu_amount (the (us_coins u i))))" for acc
    by (induction "is" arbitrary: acc) (auto simp: result_simps checked_simps coin_def)
  from this [of 0] show "inputs_amount u is = Ok t \<Longrightarrow> ?thesis" by (simp add: inputs_amount_def)
qed

lemma outputs_amount_Ok:
  "outputs_amount fee outs = Ok t \<Longrightarrow> unat t = unat fee + (\<Sum>(x, a)\<leftarrow>outs. unat a)"
  unfolding outputs_amount_def by (induction outs arbitrary: fee) (auto simp: result_simps checked_simps)

lemma transition_context_Ok:
  assumes "transition_context st intent commitment miner = Ok cx"
  shows "hc_inputs cx = ct_inputs intent" "hc_commitment cx = commitment" "hc_miner_fee cx = ct_miner_fee intent"
    "hc_miner cx = miner" "hc_outputs cx = map (\<lambda>out. (co_output out, co_amount out)) (ct_outputs intent)"
    "(\<Sum>i\<leftarrow>ct_inputs intent. unat (cu_amount (the (us_coins (cl_utxos st) i)))) =
       (\<Sum>(x, a)\<leftarrow>declared_coins cx. unat a) + unat (hc_expected_burn cx)"
    "\<forall>i \<in> set (ct_inputs intent). us_coins (cl_utxos st) i \<noteq> None"
proof -
  let ?outs = "map (\<lambda>out. (co_output out, co_amount out)) (ct_outputs intent)"
  obtain t d where t: "inputs_amount (cl_utxos st) (ct_inputs intent) = Ok t"
    and d: "outputs_amount (ct_miner_fee intent) ?outs = Ok d" and b: "checked_sub t d = Some (hc_expected_burn cx)"
    and cx: "hc_inputs cx = ct_inputs intent" "hc_commitment cx = commitment" "hc_miner_fee cx = ct_miner_fee intent"
      "hc_miner cx = miner" "hc_outputs cx = ?outs"
    using assms by (auto simp: transition_context_def Let_def result_simps)
  show "hc_inputs cx = ct_inputs intent" "hc_commitment cx = commitment" "hc_miner_fee cx = ct_miner_fee intent"
    "hc_miner cx = miner" "hc_outputs cx = ?outs" by (fact cx)+
  have "unat t = unat d + unat (hc_expected_burn cx)" using b by (simp add: checked_simps)
  moreover have "(\<Sum>(x, a)\<leftarrow>declared_coins cx. unat a) = unat d"
    using outputs_amount_Ok [OF d] by (simp add: declared_coins_def cx)
  ultimately show "(\<Sum>i\<leftarrow>ct_inputs intent. unat (cu_amount (the (us_coins (cl_utxos st) i)))) =
       (\<Sum>(x, a)\<leftarrow>declared_coins cx. unat a) + unat (hc_expected_burn cx)"
    "\<forall>i \<in> set (ct_inputs intent). us_coins (cl_utxos st) i \<noteq> None"
    using inputs_amount_Ok [OF t] by simp_all
qed


text \<open>
  A complete host: every input consumed, every declared coin created, the expected burn recorded.
\<close>

definition host_complete :: "host_context \<Rightarrow> coin_host \<Rightarrow> bool" where
  "host_complete cx h \<longleftrightarrow> length (cj_consumed (ho_journal h)) = length (hc_inputs cx) \<and>
     length (cj_created (ho_journal h)) = length (declared_coins cx) \<and> cj_burned (ho_journal h) = hc_expected_burn cx"

definition output_ids :: "(bytes \<Rightarrow> hash) \<Rightarrow> hash \<Rightarrow> nat \<Rightarrow> hash set" where
  "output_ids sha3 commitment n = (\<lambda>k. from_output sha3 commitment (of_nat k)) ` {..<n}"

lemma created_lookup:
  assumes "distinct (map fst (created_coins sha3 cx ks))" "unat ` set ks = {..<length (declared_coins cx)}"
    and "k < length (declared_coins cx)"
  shows "map_of (created_coins sha3 cx ks) (from_output sha3 (hc_commitment cx) (of_nat k)) = Some (coin_of (declared_coins cx ! k))"
proof -
  obtain w where w: "w \<in> set ks" "unat w = k" using assms(2,3) by (metis (no_types) imageE lessThan_iff)
  then have "of_nat k = w" by auto
  moreover have "(from_output sha3 (hc_commitment cx) w, coin_of (declared_coins cx ! k)) \<in> set (created_coins sha3 cx ks)"
    using w assms(3) by (force simp: created_coins_def expected_output_declared)
  ultimately show ?thesis using map_of_is_SomeI [OF assms(1)] by simp
qed

lemma created_ids:
  assumes "unat ` set ks = {..<n}"
  shows "fst ` set (created_coins sha3 cx ks) = output_ids sha3 (hc_commitment cx) n"
proof -
  have "set ks = of_nat ` {..<n}" unfolding assms [symmetric] by (auto simp: image_image)
  then show ?thesis by (auto simp: created_coins_def output_ids_def image_image)
qed

lemma complete_host:
  assumes inv: "host_inv sha3 cx st h ks" and full: "host_complete cx h"
    and worth: "(\<Sum>i\<leftarrow>hc_inputs cx. unat (cu_amount (the (us_coins (cl_utxos st) i)))) =
      (\<Sum>(x, a)\<leftarrow>declared_coins cx. unat a) + unat (hc_expected_burn cx)"
  shows "distinct (hc_inputs cx)"
    "k < length (declared_coins cx) \<Longrightarrow>
       us_coins (cl_utxos (ho_state h)) (from_output sha3 (hc_commitment cx) (of_nat k)) = Some (coin_of (declared_coins cx ! k))"
    "i \<notin> output_ids sha3 (hc_commitment cx) (length (declared_coins cx)) \<Longrightarrow>
       us_coins (cl_utxos (ho_state h)) i = (if i \<in> set (hc_inputs cx) then None else us_coins (cl_utxos st) i)"
    "unat (us_total_value (cl_utxos (ho_state h))) + unat (cr_total_burned (cl_coin (ho_state h))) =
       unat (us_total_value (cl_utxos st)) + unat (cr_total_burned (cl_coin st))"
    "unat (cr_total_burned (cl_coin (ho_state h))) = unat (cr_total_burned (cl_coin st)) + unat (hc_expected_burn cx)"
proof -
  let ?j = "ho_journal h" and ?cc = "created_coins sha3 cx ks" and ?d = "declared_coins cx" and ?base = "us_coins (cl_utxos st)"
  note c = full [unfolded host_complete_def]
  note v = inv [unfolded host_inv_def Let_def]
  have coins: "us_coins (cl_utxos (ho_state h)) = (?base |` (- fst ` set (cj_consumed ?j))) ++ map_of ?cc" using v by blast
  have cons: "distinct (map fst (cj_consumed ?j))" "fst ` set (cj_consumed ?j) \<subseteq> set (hc_inputs cx)"
    "\<forall>(i, c) \<in> set (cj_consumed ?j). ?base i = Some c" using v by auto
  note ins = complete_inputs [OF cons(1,2)]
  show dist: "distinct (hc_inputs cx)" using ins(1) c by simp
  have all: "fst ` set (cj_consumed ?j) = set (hc_inputs cx)" using ins(2) c by simp
  have dcc: "distinct (map fst ?cc)" using v by blast
  then have dks: "distinct ks" by (auto simp: created_coins_def distinct_map)
  have "length ks = length ?d" using v c by (simp add: created_coins_def)
  moreover have "\<forall>k \<in> set ks. unat k < length ?d" using v by (auto simp: expected_output_declared split: if_splits)
  ultimately have ix: "unat ` set ks = {..<length ?d}" using complete_indices [OF dks] by simp
  show "us_coins (cl_utxos (ho_state h)) (from_output sha3 (hc_commitment cx) (of_nat k)) = Some (coin_of (?d ! k))"
    if "k < length ?d" using created_lookup [OF dcc ix that] by (simp add: coins)
  show "us_coins (cl_utxos (ho_state h)) i = (if i \<in> set (hc_inputs cx) then None else ?base i)"
    if "i \<notin> output_ids sha3 (hc_commitment cx) (length ?d)"
  proof -
    have "map_of ?cc i = None" using that by (simp add: map_of_eq_None_iff created_ids [OF ix])
    then show ?thesis by (simp add: coins all map_add_def)
  qed
  show burned: "unat (cr_total_burned (cl_coin (ho_state h))) = unat (cr_total_burned (cl_coin st)) + unat (hc_expected_burn cx)"
    using v c by simp
  have "(\<Sum>(i, c)\<leftarrow>cj_consumed ?j. unat (cu_amount c)) = (\<Sum>i\<in>set (hc_inputs cx). unat (cu_amount (the (?base i))))"
    using consumed_value [OF cons(1,3), of "\<lambda>c. unat (cu_amount c)"] all by simp
  also have "\<dots> = (\<Sum>i\<leftarrow>hc_inputs cx. unat (cu_amount (the (?base i))))" by (rule sum_list_distinct_conv_sum_set [OF dist, symmetric])
  finally have "(\<Sum>(i, c)\<leftarrow>cj_consumed ?j. unat (cu_amount c)) = (\<Sum>(x, a)\<leftarrow>?d. unat a) + unat (hc_expected_burn cx)" using worth by simp
  then show "unat (us_total_value (cl_utxos (ho_state h))) + unat (cr_total_burned (cl_coin (ho_state h))) =
       unat (us_total_value (cl_utxos st)) + unat (cr_total_burned (cl_coin st))"
    using v burned created_value [OF dks ix, of sha3] by simp
qed


subsection \<open>Installed applications\<close>

text \<open>
  The contract of an application: it holds no ledger access but the host, so the host it leaves is
  reached by calls of the host's methods. Everything about accepted and rejected transitions follows
  from it.
\<close>

definition separate_outputs :: "(bytes \<Rightarrow> hash) \<Rightarrow> coin_transition \<Rightarrow> hash \<Rightarrow> bool" where
  "separate_outputs sha3 intent commitment \<longleftrightarrow> (\<forall>k. from_output sha3 commitment k \<notin> set (ct_inputs intent))"

definition transition_coins :: "coin_transition \<Rightarrow> program_id \<Rightarrow> (owner \<times> u64) list" where
  "transition_coins intent miner = map (\<lambda>out. (co_output out, co_amount out)) (ct_outputs intent) @
     (if ct_miner_fee intent \<noteq> 0 then [(owner.Program miner, ct_miner_fee intent)] else [])"

locale coin_application =
  fixes sha3 :: "bytes \<Rightarrow> hash" and execute_coin :: application
  assumes restricted: "host_reach sha3 cx h (fst (execute_coin cx h))"
begin

lemma execution_inv:
  assumes "utxo_inv (cl_utxos st)" "transition_context st intent commitment miner = Ok cx" "separate_outputs sha3 intent commitment"
    and "execute_coin cx \<lparr>ho_state = st, ho_journal = coin_journal_default\<rparr> = (h, r)"
  shows "\<exists>ks. host_inv sha3 cx st h ks"
proof -
  have "fresh_outputs sha3 cx"
    using assms(3) transition_context_Ok(1,2) [OF assms(2)] by (simp add: fresh_outputs_def separate_outputs_def)
  then show ?thesis
    using host_reach_inv [OF restricted [of cx] host_inv_start [OF assms(1)]] assms(4) by (metis fst_conv)
qed

lemma rejected_unchanged:
  assumes "utxo_inv (cl_utxos st)" "separate_outputs sha3 intent commitment"
    and "execute_coin_program execute_coin st intent commitment miner = (st', Err e)"
  shows "st' = st"
proof (cases "transition_context st intent commitment miner")
  case (Inl e')
  have "rollback_coin st coin_journal_default = (st, Ok ())"
    by (simp add: rollback_coin_def coin_journal_default_def checked_simps checked_sub_def)
  then show ?thesis using assms(3) Inl by (simp add: execute_coin_program_def finish_coin_transition_def)
next
  case (Inr cx)
  obtain h r where r: "execute_coin cx \<lparr>ho_state = st, ho_journal = coin_journal_default\<rparr> = (h, r)" by fastforce
  obtain ks where "host_inv sha3 cx st h ks" using execution_inv [OF assms(1) _ assms(2) r] Inr by blast
  then have "rollback_coin (ho_state h) (ho_journal h) = (st, Ok ())" using rollback_host assms(1) by blast
  then show ?thesis using assms(3) Inr r
    by (auto simp: execute_coin_program_def finish_coin_transition_def split: sum.splits)
qed

lemma accepted_complete:
  assumes "utxo_inv (cl_utxos st)" "separate_outputs sha3 intent commitment"
    and "execute_coin_program execute_coin st intent commitment miner = (st', Ok j)"
  shows "\<exists>cx h ks. transition_context st intent commitment miner = Ok cx \<and> host_inv sha3 cx st h ks \<and> host_complete cx h \<and>
    st' = ho_state h \<and> j = ho_journal h"
proof -
  obtain cx where cx: "transition_context st intent commitment miner = Ok cx"
    using assms(3) by (auto simp: execute_coin_program_def finish_coin_transition_def split: sum.splits prod.splits)
  obtain h r where r: "execute_coin cx \<lparr>ho_state = st, ho_journal = coin_journal_default\<rparr> = (h, r)" by fastforce
  obtain ks where "host_inv sha3 cx st h ks" using execution_inv [OF assms(1) cx assms(2) r] by blast
  moreover have "st' = ho_state h \<and> j = ho_journal h \<and> host_complete cx h"
    using assms(3) cx r transition_context_Ok(1,3) [OF cx]
    by (auto simp: execute_coin_program_def finish_coin_transition_def host_complete_def declared_coins_def result_simps
        split: sum.splits prod.splits if_splits)
  ultimately show ?thesis using cx by blast
qed

lemma accepted_exact:
  assumes "utxo_inv (cl_utxos st)" "separate_outputs sha3 intent commitment"
    and "execute_coin_program execute_coin st intent commitment miner = (st', Ok j)"
  defines "cs \<equiv> transition_coins intent miner"
  shows "distinct (ct_inputs intent) \<and> utxo_inv (cl_utxos st') \<and>
    (\<forall>k < length cs. us_coins (cl_utxos st') (from_output sha3 commitment (of_nat k)) = Some (coin_of (cs ! k))) \<and>
    (\<forall>i. i \<in> output_ids sha3 commitment (length cs) \<or>
       us_coins (cl_utxos st') i = (if i \<in> set (ct_inputs intent) then None else us_coins (cl_utxos st) i)) \<and>
    unat (us_total_value (cl_utxos st')) + unat (cr_total_burned (cl_coin st')) =
      unat (us_total_value (cl_utxos st)) + unat (cr_total_burned (cl_coin st)) \<and>
    cr_total_mined (cl_coin st') = cr_total_mined (cl_coin st) \<and> rollback_coin st' j = (st, Ok ())"
proof -
  obtain cx h ks where cx: "transition_context st intent commitment miner = Ok cx"
    and h: "host_inv sha3 cx st h ks" "host_complete cx h" "st' = ho_state h" "j = ho_journal h"
    using accepted_complete [OF assms(1-3)] by blast
  note c = transition_context_Ok [OF cx]
  have d: "declared_coins cx = cs" by (simp add: declared_coins_def cs_def transition_coins_def c)
  note full = complete_host [OF h(1,2) c(6) [folded c(1)], unfolded d c(1,2), folded h(3)]
  have "utxo_inv (cl_utxos st')" "cr_total_mined (cl_coin st') = cr_total_mined (cl_coin st)"
    using h(1) by (simp_all add: host_inv_def Let_def h(3))
  then show ?thesis using full rollback_host [OF h(1) assms(1)] unfolding h(3,4) by blast
qed

end


lemma host_then_reach:
  "host_reach sha3 cx h (fst p) \<Longrightarrow> (\<And>h'. host_reach sha3 cx h h' \<Longrightarrow> host_reach sha3 cx h (fst (k h'))) \<Longrightarrow>
   host_reach sha3 cx h (fst (host_then p k))"
  by (cases p) (auto simp: host_then_def split: sum.splits)

lemma transfer_then_reach:
  "host_reach sha3 cx h (fst p) \<Longrightarrow> (\<And>h'. host_reach sha3 cx h h' \<Longrightarrow> host_reach sha3 cx h (fst (k h'))) \<Longrightarrow>
   host_reach sha3 cx h (fst (transfer_then p k))"
  by (cases p) (auto simp: transfer_then_def split: sum.splits)

lemma transfer_consume_reach:
  "host_reach sha3 cx h h' \<Longrightarrow> host_reach sha3 cx h (fst (transfer_consume cx h' is))"
  by (induction "is" arbitrary: h') (auto intro: host_then_reach host_reach.consume)

lemma transfer_create_one_reach:
  "host_reach sha3 cx h h' \<Longrightarrow> host_reach sha3 cx h (fst (transfer_create_one sha3 cx h' k x a))"
  by (auto simp: transfer_create_one_def split: option.splits intro: host_then_reach host_reach.create)

lemma transfer_create_reach:
  "host_reach sha3 cx h h' \<Longrightarrow> host_reach sha3 cx h (fst (transfer_create sha3 cx h' k outs))"
proof (induction outs arbitrary: h' k)
  case (Cons out outs)
  then show ?case by (cases out) (auto intro: transfer_then_reach transfer_create_one_reach)
qed simp

interpretation system: coin_application sha3 "execute_transfer sha3" for sha3
proof
  show "host_reach sha3 cx h (fst (execute_transfer sha3 cx h))" for cx h
    unfolding execute_transfer_def
    by (auto split: sum.splits intro!: transfer_then_reach host_then_reach
        intro: host_reach.start host_reach.burn transfer_consume_reach transfer_create_reach transfer_create_one_reach)
qed

interpretation bare: coin_application sha3 no_applications for sha3
  by unfold_locales (simp add: no_applications_def host_reach.start)

subsection \<open>The installed application completes funded transitions\<close>

lemma checked_sum_Ok:
  fixes f :: "'a \<Rightarrow> u64"
  assumes "\<And>acc x. x \<in> set xs \<Longrightarrow> g acc x = ok_or (checked_add acc (f x)) e" and "unat acc + (\<Sum>x\<leftarrow>xs. unat (f x)) < 2 ^ 64"
  shows "\<exists>t. try_fold g acc xs = Ok t \<and> unat t = unat acc + (\<Sum>x\<leftarrow>xs. unat (f x))"
  using assms
proof (induction xs arbitrary: acc)
  case (Cons x xs)
  have lt: "unat acc + unat (f x) < 2 ^ 64" using Cons.prems(2) by simp
  then have c: "checked_add acc (f x) = Some (acc + f x)" "unat (acc + f x) = unat acc + unat (f x)"
    by (simp_all add: checked_add_def unat_word_ariths)
  have "\<exists>t. try_fold g (acc + f x) xs = Ok t \<and> unat t = unat (acc + f x) + (\<Sum>x\<leftarrow>xs. unat (f x))"
    using Cons.prems(2) by (intro Cons.IH Cons.prems(1)) (simp_all add: c(2) del: unat_add_lem)
  then show ?case using Cons.prems(1) [of x acc] c by (simp add: add.assoc)
qed simp

lemma transfer_create_append:
  "transfer_create sha3 cx h k (xs @ ys) = transfer_then (transfer_create sha3 cx h k xs) (\<lambda>h. transfer_create sha3 cx h (k + length xs) ys)"
proof (induction xs arbitrary: h k)
  case (Cons x xs)
  then show ?case by (cases x) (auto simp: transfer_then_def split: sum.splits prod.splits)
qed (simp add: transfer_then_def)

lemma transfer_create_declared:
  "transfer_create sha3 cx h 0 (declared_coins cx) =
     transfer_then (transfer_create sha3 cx h 0 (hc_outputs cx)) (\<lambda>h.
       if hc_miner_fee cx \<noteq> 0 then transfer_create_one sha3 cx h (length (hc_outputs cx)) (owner.Program (hc_miner cx)) (hc_miner_fee cx)
       else (h, Ok ()))"
  by (auto simp: declared_coins_def transfer_create_append transfer_then_def split: sum.splits prod.splits)


definition with_consumed :: "coin_host \<Rightarrow> utxo_set \<Rightarrow> (hash \<times> coin_utxo) list \<Rightarrow> coin_host" where
  "with_consumed h u cs = h\<lparr>ho_state := (ho_state h)\<lparr>cl_utxos := u\<rparr>,
     ho_journal := (ho_journal h)\<lparr>cj_consumed := cj_consumed (ho_journal h) @ cs\<rparr>\<rparr>"

definition with_created :: "coin_host \<Rightarrow> utxo_set \<Rightarrow> hash list \<Rightarrow> coin_host" where
  "with_created h u is = h\<lparr>ho_state := (ho_state h)\<lparr>cl_utxos := u\<rparr>,
     ho_journal := (ho_journal h)\<lparr>cj_created := cj_created (ho_journal h) @ is\<rparr>\<rparr>"

lemma with_consumed_append: "with_consumed (with_consumed h u cs) u' cs' = with_consumed h u' (cs @ cs')"
  by (simp add: with_consumed_def)

lemma with_created_append: "with_created (with_created h u is) u' is' = with_created h u' (is @ is')"
  by (simp add: with_created_def)

lemma transfer_consume_total:
  assumes "utxo_inv (cl_utxos (ho_state h))" "distinct is" "set is \<subseteq> set (hc_inputs cx)" "set is \<subseteq> dom (us_coins (cl_utxos (ho_state h)))"
  shows "\<exists>u cs. transfer_consume cx h is = (with_consumed h u cs, Ok ()) \<and> utxo_inv u \<and> length cs = length is \<and>
    us_coins u = us_coins (cl_utxos (ho_state h)) |` (- set is) \<and>
    unat (us_total_value u) + (\<Sum>i\<leftarrow>is. unat (cu_amount (the (us_coins (cl_utxos (ho_state h)) i)))) = unat (us_total_value (cl_utxos (ho_state h)))"
  using assms
proof (induction "is" arbitrary: h)
  case Nil
  then show ?case by (intro exI [of _ "cl_utxos (ho_state h)"] exI [of _ "[]"]) (simp add: with_consumed_def restrict_map_def)
next
  case (Cons i "is")
  let ?m = "us_coins (cl_utxos (ho_state h))"
  obtain c where c: "?m i = Some c" using Cons.prems(4) by auto
  then obtain u1 where con: "consume_coin (cl_utxos (ho_state h)) i = Ok (c, u1)" using consume_coin_total [OF Cons.prems(1), of i] by auto
  let ?h = "with_consumed h u1 [(i, c)]"
  have u1: "us_coins u1 = ?m(i := None)" "unat (us_total_value (cl_utxos (ho_state h))) = unat (us_total_value u1) + unat (cu_amount c)"
    using con by (simp_all add: consume_coin_Ok)
  have h1: "cl_utxos (ho_state ?h) = u1" by (simp add: with_consumed_def)
  have "\<exists>u cs. transfer_consume cx ?h is = (with_consumed ?h u cs, Ok ()) \<and> utxo_inv u \<and> length cs = length is \<and>
      us_coins u = us_coins u1 |` (- set is) \<and>
      unat (us_total_value u) + (\<Sum>i\<leftarrow>is. unat (cu_amount (the (us_coins u1 i)))) = unat (us_total_value u1)"
  proof (rule Cons.IH [of ?h, unfolded h1])
    show "utxo_inv u1" by (rule consume_coin_inv [OF Cons.prems(1) con])
    show "set is \<subseteq> dom (us_coins u1)" using Cons.prems(2,4) by (auto simp: u1(1))
  qed (use Cons.prems in simp_all)
  then obtain u cs where IH: "transfer_consume cx ?h is = (with_consumed ?h u cs, Ok ())" "utxo_inv u" "length cs = length is"
      "us_coins u = us_coins u1 |` (- set is)"
      "unat (us_total_value u) + (\<Sum>i\<leftarrow>is. unat (cu_amount (the (us_coins u1 i)))) = unat (us_total_value u1)" by blast
  have "transfer_consume cx h (i # is) = (with_consumed h u ((i, c) # cs), Ok ())"
    using IH(1) con Cons.prems(3) by (simp add: host_then_def host_consume_def with_consumed_def)
  moreover have "us_coins u = ?m |` (- set (i # is))" unfolding IH(4) u1(1) by (auto simp: restrict_map_def)
  moreover have "map (\<lambda>i. unat (cu_amount (the (us_coins u1 i)))) is = map (\<lambda>i. unat (cu_amount (the (?m i)))) is"
    using Cons.prems(2) by (auto simp: u1(1))
  from arg_cong [OF this, of sum_list]
  have "unat (us_total_value u) + (\<Sum>i\<leftarrow>i # is. unat (cu_amount (the (?m i)))) = unat (us_total_value (cl_utxos (ho_state h)))"
    using IH(5) u1(2) c by simp
  ultimately show ?case using IH(2,3) by (intro exI [of _ u] exI [of _ "(i, c) # cs"]) simp
qed

lemma insert_coin_total:
  assumes "a \<noteq> 0" "us_coins u i = None" "unat (us_total_value u) + unat a < 2 ^ 64"
  shows "\<exists>u'. insert_coin u i \<lparr>cu_amount = a, cu_owner = x\<rparr> = Ok u'"
  using assms by (auto simp: insert_coin_def checked_add_def domIff)

lemma transfer_create_total:
  assumes "utxo_inv (cl_utxos (ho_state h))" "\<forall>n < length outs. expected_output cx (k + n) = Some (outs ! n)"
    "\<forall>(x, a) \<in> set outs. a \<noteq> 0" "k + length outs \<le> 2 ^ 32"
    "\<forall>n. k \<le> n \<and> n < k + length outs \<longrightarrow> us_coins (cl_utxos (ho_state h)) (from_output sha3 (hc_commitment cx) (of_nat n)) = None"
    "inj_on (\<lambda>n. from_output sha3 (hc_commitment cx) (of_nat n)) {k..<k + length outs}"
    "unat (us_total_value (cl_utxos (ho_state h))) + (\<Sum>(x, a)\<leftarrow>outs. unat a) < 2 ^ 64"
  shows "\<exists>u is. transfer_create sha3 cx h k outs = (with_created h u is, Ok ()) \<and> utxo_inv u \<and> length is = length outs"
  using assms
proof (induction outs arbitrary: h k)
  case Nil
  then show ?case by (intro exI [of _ "cl_utxos (ho_state h)"] exI [of _ "[]"]) (simp add: with_created_def)
next
  case (Cons out outs)
  obtain x a where out: "out = (x, a)" by fastforce
  let ?id = "\<lambda>n. from_output sha3 (hc_commitment cx) (of_nat n)" and ?u = "cl_utxos (ho_state h)"
  have k: "k < 2 ^ 32" using Cons.prems(4) by simp
  have e: "expected_output cx k = Some (x, a)" using Cons.prems(2) [rule_format, of 0] by (simp add: out)
  have "a \<noteq> 0" "us_coins ?u (?id k) = None" "unat (us_total_value ?u) + unat a < 2 ^ 64"
    using Cons.prems(3,5,7) by (auto simp: out)
  then obtain u1 where ins: "insert_coin ?u (?id k) \<lparr>cu_amount = a, cu_owner = x\<rparr> = Ok u1" using insert_coin_total by blast
  let ?h = "with_created h u1 [?id k]"
  have u1: "us_coins u1 = (us_coins ?u)(?id k \<mapsto> \<lparr>cu_amount = a, cu_owner = x\<rparr>)" "unat (us_total_value u1) = unat (us_total_value ?u) + unat a"
    using ins by (simp_all add: insert_coin_Ok)
  have h1: "cl_utxos (ho_state ?h) = u1" by (simp add: with_created_def)
  have "unat (of_nat k :: u32) = k" using k by (simp add: unat_of_nat)
  then have step: "transfer_create_one sha3 cx h k x a = (?h, Ok ())"
    using k e ins by (simp add: transfer_create_one_def try_from_nat_def host_then_def host_create_def Let_def with_created_def)
  have "\<exists>u is. transfer_create sha3 cx ?h (Suc k) outs = (with_created ?h u is, Ok ()) \<and> utxo_inv u \<and> length is = length outs"
  proof (rule Cons.IH, unfold h1)
    show "utxo_inv u1" using insert_coin_inv [OF Cons.prems(1) ins] .
    show "\<forall>n < length outs. expected_output cx (Suc k + n) = Some (outs ! n)"
      using Cons.prems(2) by (metis Suc_less_eq add_Suc_right add_Suc length_Cons nth_Cons_Suc)
    show "\<forall>n. Suc k \<le> n \<and> n < Suc k + length outs \<longrightarrow> us_coins u1 (?id n) = None"
      using Cons.prems(5) inj_onD [OF Cons.prems(6)] by (fastforce simp: u1(1))
    show "inj_on ?id {Suc k..<Suc k + length outs}" using Cons.prems(6) by (rule inj_on_subset) auto
  qed (use Cons.prems(3,4,7) in \<open>auto simp: out u1(2)\<close>)
  then obtain u "is" where "transfer_create sha3 cx ?h (Suc k) outs = (with_created ?h u is, Ok ())" "utxo_inv u" "length is = length outs" by blast
  then show ?case using step
    by (intro exI [of _ u] exI [of _ "?id k # is"]) (simp add: out transfer_then_def with_created_append)
qed


definition funded :: "coin_ledger \<Rightarrow> coin_transition \<Rightarrow> bool" where
  "funded st intent \<longleftrightarrow> distinct (ct_inputs intent) \<and> set (ct_inputs intent) \<subseteq> dom (us_coins (cl_utxos st)) \<and>
     (\<forall>out \<in> set (ct_outputs intent). co_amount out \<noteq> 0) \<and>
     unat (ct_miner_fee intent) + (\<Sum>out\<leftarrow>ct_outputs intent. unat (co_amount out)) \<le>
       (\<Sum>i\<leftarrow>ct_inputs intent. unat (cu_amount (the (us_coins (cl_utxos st) i)))) \<and>
     unat (cr_total_burned (cl_coin st)) + (\<Sum>i\<leftarrow>ct_inputs intent. unat (cu_amount (the (us_coins (cl_utxos st) i)))) <
       2 ^ 64 + unat (ct_miner_fee intent) + (\<Sum>out\<leftarrow>ct_outputs intent. unat (co_amount out))"

definition usable_ids :: "(bytes \<Rightarrow> hash) \<Rightarrow> utxo_set \<Rightarrow> hash \<Rightarrow> nat \<Rightarrow> bool" where
  "usable_ids sha3 u commitment n \<longleftrightarrow> n \<le> 2 ^ 32 \<and> output_ids sha3 commitment n \<inter> dom (us_coins u) = {} \<and>
     inj_on (\<lambda>k. from_output sha3 commitment (of_nat k)) {..<n}"

lemma inputs_value_bound:
  assumes "utxo_inv u" "distinct is" "set is \<subseteq> dom (us_coins u)"
  shows "(\<Sum>i\<leftarrow>is. unat (cu_amount (the (us_coins u i)))) \<le> unat (us_total_value u)"
proof -
  have "(\<Sum>i\<leftarrow>is. unat (cu_amount (the (us_coins u i)))) = (\<Sum>i\<in>set is. unat (cu_amount (the (us_coins u i))))"
    by (rule sum_list_distinct_conv_sum_set [OF assms(2)])
  also have "\<dots> \<le> coin_sum (us_coins u)" unfolding coin_sum_def using assms(1,3) by (intro sum_mono2) (auto simp: utxo_inv_def)
  finally show ?thesis using assms(1) by (simp add: utxo_inv_def)
qed

lemma checked_sub_twice:
  fixes t d :: u64
  assumes "checked_sub t d = Some b" "unat d = unat d0 + unat fee"
  shows "Option.bind (checked_sub t d0) (\<lambda>r. checked_sub r fee) = Some b"
proof -
  have t: "unat t = unat d0 + unat fee + unat b" using assms by (simp add: checked_simps)
  then have "d0 \<le> t" "unat (t - d0) = unat t - unat d0" by (simp_all add: word_le_nat_alt unat_sub)
  then show ?thesis using t by (simp add: checked_sub_def [of t d0] checked_simps)
qed

lemma funded_context:
  assumes inv: "utxo_inv (cl_utxos st)" and fund: "funded st intent"
  shows "\<exists>cx. transition_context st intent commitment miner = Ok cx \<and>
    transfer_burn_amount cx \<lparr>ho_state = st, ho_journal = j\<rparr> = Ok (hc_expected_burn cx)"
proof -
  let ?m = "us_coins (cl_utxos st)" and ?outs = "map (\<lambda>out. (co_output out, co_amount out)) (ct_outputs intent)"
  let ?worth = "\<lambda>i. cu_amount (the (?m i))" and ?is = "ct_inputs intent" and ?fee = "ct_miner_fee intent"
  note f = fund [unfolded funded_def]
  have "(\<Sum>i\<leftarrow>?is. unat (?worth i)) \<le> unat (us_total_value (cl_utxos st))" using inputs_value_bound [OF inv] f by blast
  then have lt: "(\<Sum>i\<leftarrow>?is. unat (?worth i)) < 2 ^ 64" using unat_bound [of "us_total_value (cl_utxos st)"] by simp
  have outs: "(\<Sum>p\<leftarrow>?outs. unat (snd p)) = (\<Sum>out\<leftarrow>ct_outputs intent. unat (co_amount out))" by (simp add: comp_def)
  have live: "i \<in> set ?is \<Longrightarrow> coin (cl_utxos st) i = Some (the (?m i))" for i using f by (auto simp: coin_def)
  have 1: "\<exists>t. inputs_amount (cl_utxos st) ?is = Ok t \<and> unat t = unat (0 :: u64) + (\<Sum>i\<leftarrow>?is. unat (?worth i))"
    unfolding inputs_amount_def by (rule checked_sum_Ok [where e = AmountOverflow]) (use lt live in simp_all)
  have 2: "\<exists>t. outputs_amount ?fee ?outs = Ok t \<and> unat t = unat ?fee + (\<Sum>p\<leftarrow>?outs. unat (snd p))"
    unfolding outputs_amount_def by (rule checked_sum_Ok [where e = AmountOverflow]) (use lt f outs in \<open>auto simp: split_beta\<close>)
  have 4: "\<exists>t. try_fold (\<lambda>acc (x, amount). ok_or (checked_add acc amount) TransferAmountOverflow) 0 ?outs = Ok t \<and>
      unat t = unat (0 :: u64) + (\<Sum>p\<leftarrow>?outs. unat (snd p))"
    by (rule checked_sum_Ok [where e = TransferAmountOverflow]) (use lt f outs in \<open>auto simp: split_beta\<close>)
  obtain t d d0 where t: "inputs_amount (cl_utxos st) ?is = Ok t" "unat t = (\<Sum>i\<leftarrow>?is. unat (?worth i))"
    and d: "outputs_amount ?fee ?outs = Ok d" "unat d = unat ?fee + (\<Sum>p\<leftarrow>?outs. unat (snd p))"
    and d0: "try_fold (\<lambda>acc (x, amount). ok_or (checked_add acc amount) TransferAmountOverflow) 0 ?outs = Ok d0"
      "unat d0 = (\<Sum>p\<leftarrow>?outs. unat (snd p))" using 1 2 4 by auto
  have le: "unat d \<le> unat t" using f t(2) d(2) outs by linarith
  then obtain b where b: "checked_sub t d = Some b" by (auto simp: checked_sub_def word_le_nat_alt)
  let ?cx = "\<lparr>hc_inputs = ?is, hc_outputs = ?outs, hc_miner = miner, hc_miner_fee = ?fee, hc_expected_burn = b, hc_commitment = commitment\<rparr>"
  have "transition_context st intent commitment miner = Ok ?cx" using t(1) d(1) b by (simp add: transition_context_def Let_def)
  moreover have "\<exists>t. try_fold (\<lambda>acc i. rbind (map_err Host (host_input_amount ?cx \<lparr>ho_state = st, ho_journal = j\<rparr> i)) (\<lambda>amount.
        ok_or (checked_add acc amount) TransferAmountOverflow)) 0 ?is = Ok t \<and> unat t = unat (0 :: u64) + (\<Sum>i\<leftarrow>?is. unat (?worth i))"
    by (rule checked_sum_Ok [where e = TransferAmountOverflow]) (use lt live in \<open>simp_all add: host_input_amount_def\<close>)
  then have "try_fold (\<lambda>acc i. rbind (map_err Host (host_input_amount ?cx \<lparr>ho_state = st, ho_journal = j\<rparr> i)) (\<lambda>amount.
        ok_or (checked_add acc amount) TransferAmountOverflow)) 0 ?is = Ok t" using t(2) by (auto simp: word_unat_eq_iff)
  then have "transfer_burn_amount ?cx \<lparr>ho_state = st, ho_journal = j\<rparr> = Ok b"
    using d0 checked_sub_twice [OF b, of d0 ?fee] d(2) by (simp add: transfer_burn_amount_def)
  ultimately show ?thesis by (intro exI [of _ ?cx]) simp
qed


lemma execute_transfer_eq:
  "transfer_burn_amount cx h = Ok burn \<Longrightarrow> execute_transfer sha3 cx h =
     transfer_then (transfer_consume cx h (hc_inputs cx)) (\<lambda>h.
     transfer_then (transfer_create sha3 cx h 0 (declared_coins cx)) (\<lambda>h.
     host_then (host_burn cx h burn) (\<lambda>h. (h, Ok ()))))"
  unfolding transfer_create_declared execute_transfer_def
  by (auto simp: transfer_then_def split: sum.splits prod.splits intro!: ext)

lemma funded_execution:
  assumes inv: "utxo_inv (cl_utxos st)" and fund: "funded st intent"
    and ids: "usable_ids sha3 (cl_utxos st) commitment (length (transition_coins intent miner))"
    and cx: "transition_context st intent commitment miner = Ok cx"
    and burn: "transfer_burn_amount cx \<lparr>ho_state = st, ho_journal = coin_journal_default\<rparr> = Ok (hc_expected_burn cx)"
  shows "\<exists>h. execute_transfer sha3 cx \<lparr>ho_state = st, ho_journal = coin_journal_default\<rparr> = (h, Ok ()) \<and> host_complete cx h"
proof -
  let ?h = "\<lparr>ho_state = st, ho_journal = coin_journal_default\<rparr>" and ?m = "us_coins (cl_utxos st)" and ?d = "declared_coins cx"
  note c = transition_context_Ok [OF cx]
  note f = fund [unfolded funded_def]
  have d: "?d = transition_coins intent miner" by (simp add: declared_coins_def transition_coins_def c)
  obtain u cs where con: "transfer_consume cx ?h (hc_inputs cx) = (with_consumed ?h u cs, Ok ())" "utxo_inv u" "length cs = length (hc_inputs cx)"
      "us_coins u = ?m |` (- set (hc_inputs cx))"
      "unat (us_total_value u) + (\<Sum>i\<leftarrow>hc_inputs cx. unat (cu_amount (the (?m i)))) = unat (us_total_value (cl_utxos st))"
    using transfer_consume_total [of ?h "hc_inputs cx" cx] f inv by (auto simp: c)
  let ?h1 = "with_consumed ?h u cs"
  have h1: "cl_utxos (ho_state ?h1) = u" by (simp add: with_consumed_def)
  have "\<exists>u' is. transfer_create sha3 cx ?h1 0 ?d = (with_created ?h1 u' is, Ok ()) \<and> utxo_inv u' \<and> length is = length ?d"
  proof (rule transfer_create_total, unfold h1)
    show "\<forall>n < length ?d. expected_output cx (0 + n) = Some (?d ! n)" by (simp add: expected_output_declared)
    show "\<forall>(x, a) \<in> set ?d. a \<noteq> 0" using f by (auto simp: d transition_coins_def)
    show "\<forall>n. 0 \<le> n \<and> n < 0 + length ?d \<longrightarrow> us_coins u (from_output sha3 (hc_commitment cx) (of_nat n)) = None"
      using ids by (auto simp: con(4) restrict_map_def usable_ids_def output_ids_def d c(2))
    show "inj_on (\<lambda>n. from_output sha3 (hc_commitment cx) (of_nat n)) {0..<0 + length ?d}"
      using ids by (simp add: usable_ids_def d c(2) atLeast0LessThan)
    show "unat (us_total_value u) + (\<Sum>(x, a)\<leftarrow>?d. unat a) < 2 ^ 64"
      using con(5) c(6) unat_bound [of "us_total_value (cl_utxos st)"] by (simp add: c(1))
  qed (use con ids in \<open>simp_all add: usable_ids_def d\<close>)
  then obtain u' "is" where cr: "transfer_create sha3 cx ?h1 0 ?d = (with_created ?h1 u' is, Ok ())" "length is = length ?d" by blast
  have total: "(\<Sum>(x, a)\<leftarrow>?d. unat a) = unat (ct_miner_fee intent) + (\<Sum>out\<leftarrow>ct_outputs intent. unat (co_amount out))"
    by (simp add: d transition_coins_def comp_def)
  have "unat (cr_total_burned (cl_coin st)) + unat (hc_expected_burn cx) < 2 ^ 64" using f c(6) total by linarith
  then have "checked_add (cr_total_burned (cl_coin st)) (hc_expected_burn cx) = Some (cr_total_burned (cl_coin st) + hc_expected_burn cx)"
    by (simp add: checked_add_def)
  moreover have "checked_add (0 :: u64) (hc_expected_burn cx) = Some (hc_expected_burn cx)" by (simp add: checked_simps)
  moreover have "execute_transfer sha3 cx ?h = host_then (host_burn cx (with_created ?h1 u' is) (hc_expected_burn cx)) (\<lambda>h. (h, Ok ()))"
    using con(1) cr(1) by (simp add: execute_transfer_eq [OF burn] transfer_then_def)
  ultimately show ?thesis using con(3) cr(2)
    by (simp add: host_then_def host_burn_def record_protocol_burn_def with_created_def with_consumed_def coin_journal_default_def host_complete_def)
qed

lemma complete_accepted:
  assumes "transition_context st intent commitment miner = Ok cx"
    and "execute_coin cx \<lparr>ho_state = st, ho_journal = coin_journal_default\<rparr> = (h, Ok ())" and "host_complete cx h"
  shows "execute_coin_program execute_coin st intent commitment miner = (ho_state h, Ok (ho_journal h))"
  using assms transition_context_Ok(1,3) [OF assms(1)]
  by (simp add: execute_coin_program_def finish_coin_transition_def host_complete_def declared_coins_def)


subsection \<open>Properties\<close>

text \<open>
  C6. Whatever the installed application does through the host, and at whatever point it fails, a
  rejected coin transition leaves the ledger exactly as it was: coins, totals, owner index and
  supply record. The hypotheses: the ledger is well formed, the application reaches its result by
  calls of the host's methods, and no output id of the transition equals one of its inputs.
\<close>

theorem coin_rejected_unchanged:
  assumes "\<And>cx h. host_reach sha3 cx h (fst (execute_coin cx h))"
    and "utxo_inv (cl_utxos st)" and "separate_outputs sha3 intent commitment"
    and "execute_coin_program execute_coin st intent commitment miner = (st', Err e)"
  shows "st' = st"
  using assms by (rule coin_application.rejected_unchanged [OF coin_application.intro])

text \<open>
  C1. Whatever the installed application does through the host, an accepted coin transition is the
  declared one: its inputs are distinct and consumed, output number k is live under the id derived
  from the commitment and k with the declared owner and amount (the miner's fee last), every other
  coin is untouched, and the live total plus the burned total is unchanged; its journal rolls it back.
  As for a rejected transition, no output id of the transition equals one of its inputs.
\<close>

theorem coin_accepted_exact:
  assumes "\<And>cx h. host_reach sha3 cx h (fst (execute_coin cx h))"
    and "utxo_inv (cl_utxos st)" and "separate_outputs sha3 intent commitment"
    and "execute_coin_program execute_coin st intent commitment miner = (st', Ok j)"
  shows "distinct (ct_inputs intent) \<and> utxo_inv (cl_utxos st') \<and>
    (\<forall>k < length (transition_coins intent miner). us_coins (cl_utxos st') (from_output sha3 commitment (of_nat k)) =
       Some (coin_of (transition_coins intent miner ! k))) \<and>
    (\<forall>i. i \<in> output_ids sha3 commitment (length (transition_coins intent miner)) \<or>
       us_coins (cl_utxos st') i = (if i \<in> set (ct_inputs intent) then None else us_coins (cl_utxos st) i)) \<and>
    unat (us_total_value (cl_utxos st')) + unat (cr_total_burned (cl_coin st')) =
      unat (us_total_value (cl_utxos st)) + unat (cr_total_burned (cl_coin st)) \<and>
    cr_total_mined (cl_coin st') = cr_total_mined (cl_coin st) \<and> rollback_coin st' j = (st, Ok ())"
  using assms by (rule coin_application.accepted_exact [OF coin_application.intro])

text \<open>
  C29. The installed application completes every funded transition: if the inputs are distinct live
  coins worth at least the nonzero outputs and the fee, the burn total does not overflow and the
  output ids are unused and distinct, the transition is accepted.
\<close>

theorem coin_funded_accepted:
  assumes "utxo_inv (cl_utxos st)" and "funded st intent"
    and "usable_ids sha3 (cl_utxos st) commitment (length (transition_coins intent miner))"
  shows "\<exists>st' j. execute_coin_program (execute_transfer sha3) st intent commitment miner = (st', Ok j)"
proof -
  obtain cx where "transition_context st intent commitment miner = Ok cx"
    "transfer_burn_amount cx \<lparr>ho_state = st, ho_journal = coin_journal_default\<rparr> = Ok (hc_expected_burn cx)"
    using funded_context [OF assms(1,2)] by blast
  then show ?thesis using funded_execution [OF assms] complete_accepted by blast
qed

subsection \<open>A sample ledger\<close>

definition coin_sample_hash :: "bytes \<Rightarrow> hash" where
  "coin_sample_hash bs = replicate 32 (rev bs ! 3)"

definition coin_sample_id :: hash where
  "coin_sample_id = 0 # replicate 31 1"

definition coin_sample_ledger :: coin_ledger where
  "coin_sample_ledger = \<lparr>cl_utxos = \<lparr>us_coins = [coin_sample_id \<mapsto> \<lparr>cu_amount = 10, cu_owner = owner.Program (replicate 32 7)\<rparr>], us_total_value = 10,
      us_by_owner = index_of (owned_ids [coin_sample_id \<mapsto> \<lparr>cu_amount = 10, cu_owner = owner.Program (replicate 32 7)\<rparr>])\<rparr>,
     cl_coin = \<lparr>cr_total_mined = 12, cr_total_burned = 2\<rparr>\<rparr>"

definition coin_sample_transition :: "hash list \<Rightarrow> coin_transition" where
  "coin_sample_transition is = \<lparr>ct_signer = replicate 32 7, ct_inputs = is,
     ct_outputs = [\<lparr>co_output = owner.Program (replicate 32 8), co_amount = 4\<rparr>], ct_miner_fee = 3\<rparr>"

lemma coin_sample_output: "from_output coin_sample_hash (replicate 32 0) k = replicate 32 (ucast k)"
  by (simp add: from_output_def domain_def frame_def coin_sample_hash_def nth_append numeral_eq_Suc)

lemma coin_sample_id_neq [simp]: "coin_sample_id \<noteq> replicate 32 b" "replicate 32 b \<noteq> coin_sample_id"
  by (auto simp: coin_sample_id_def numeral_eq_Suc)

lemma coin_sample_inv: "utxo_inv (cl_utxos coin_sample_ledger)"
  by (simp add: utxo_inv_def coin_sample_ledger_def coin_sum_def)

lemma coin_sample_separate: "set is \<subseteq> {coin_sample_id} \<Longrightarrow> separate_outputs coin_sample_hash (coin_sample_transition is) (replicate 32 0)"
  by (auto simp: separate_outputs_def coin_sample_output coin_sample_transition_def dest!: subsetD)

lemma coin_sample_funded: "funded coin_sample_ledger (coin_sample_transition [coin_sample_id])"
  by (simp add: funded_def coin_sample_ledger_def coin_sample_transition_def)

lemma coin_sample_usable: "usable_ids coin_sample_hash (cl_utxos coin_sample_ledger) (replicate 32 0) (length (transition_coins (coin_sample_transition [coin_sample_id]) m))"
  by (auto simp: usable_ids_def coin_sample_ledger_def transition_coins_def coin_sample_transition_def output_ids_def coin_sample_output
      inj_on_def less_Suc_eq)


theorem coin_funded_accepted_witness:
  "\<exists>st' j. execute_coin_program (execute_transfer coin_sample_hash) coin_sample_ledger (coin_sample_transition [coin_sample_id])
     (replicate 32 0) (replicate 32 9) = (st', Ok j)"
  by (rule coin_funded_accepted [OF coin_sample_inv coin_sample_funded coin_sample_usable])

lemma coin_sample_accepted:
  "\<exists>st' j. execute_coin_program (execute_transfer coin_sample_hash) coin_sample_ledger (coin_sample_transition [coin_sample_id])
     (replicate 32 0) m = (st', Ok j)"
proof -
  obtain cx where "transition_context coin_sample_ledger (coin_sample_transition [coin_sample_id]) (replicate 32 0) m = Ok cx"
    "transfer_burn_amount cx \<lparr>ho_state = coin_sample_ledger, ho_journal = coin_journal_default\<rparr> = Ok (hc_expected_burn cx)"
    using funded_context [OF coin_sample_inv coin_sample_funded] by blast
  then show ?thesis using funded_execution [OF coin_sample_inv coin_sample_funded coin_sample_usable] complete_accepted by blast
qed

theorem coin_accepted_exact_witness:
  "\<exists>st' j. execute_coin_program (execute_transfer coin_sample_hash) coin_sample_ledger (coin_sample_transition [coin_sample_id])
     (replicate 32 0) (replicate 32 9) = (st', Ok j) \<and>
   us_coins (cl_utxos st') (replicate 32 1) = Some \<lparr>cu_amount = 3, cu_owner = owner.Program (replicate 32 9)\<rparr> \<and>
   us_coins (cl_utxos st') coin_sample_id = None"
proof -
  obtain st' j where ok: "execute_coin_program (execute_transfer coin_sample_hash) coin_sample_ledger (coin_sample_transition [coin_sample_id])
     (replicate 32 0) (replicate 32 9) = (st', Ok j)" using coin_sample_accepted by blast
  note exact = coin_accepted_exact [OF system.restricted coin_sample_inv coin_sample_separate ok]
  have coins: "transition_coins (coin_sample_transition [coin_sample_id]) (replicate 32 9) =
      [(owner.Program (replicate 32 8), 4), (owner.Program (replicate 32 9), 3)]"
    by (simp add: transition_coins_def coin_sample_transition_def)
  have "us_coins (cl_utxos st') (from_output coin_sample_hash (replicate 32 0) (of_nat 1)) = Some (coin_of (owner.Program (replicate 32 9), 3))"
    using exact by (force simp: coins)
  moreover have "coin_sample_id \<notin> output_ids coin_sample_hash (replicate 32 0) 2"
    "coin_sample_id \<in> set (ct_inputs (coin_sample_transition [coin_sample_id]))"
    by (auto simp: output_ids_def coin_sample_output coin_sample_transition_def)
  then have "us_coins (cl_utxos st') coin_sample_id = None" using exact by (simp add: coins) (metis numeral_2_eq_2)
  ultimately show ?thesis using ok by (auto simp: coin_sample_output coin_of_def)
qed

theorem coin_rejected_unchanged_witness:
  "\<exists>e. execute_coin_program (execute_transfer coin_sample_hash) coin_sample_ledger (coin_sample_transition [coin_sample_id, coin_sample_id])
     (replicate 32 0) (replicate 32 9) = (coin_sample_ledger, Err e)"
proof -
  let ?run = "execute_coin_program (execute_transfer coin_sample_hash) coin_sample_ledger
    (coin_sample_transition [coin_sample_id, coin_sample_id]) (replicate 32 0) (replicate 32 9)"
  have sep: "separate_outputs coin_sample_hash (coin_sample_transition [coin_sample_id, coin_sample_id]) (replicate 32 0)"
    by (rule coin_sample_separate) simp
  obtain st' r where run: "?run = (st', r)" by fastforce
  have "r \<noteq> Ok j" for j using system.accepted_exact [OF coin_sample_inv sep] run by (auto simp: coin_sample_transition_def)
  then obtain e where "?run = (st', Err e)" using run by (cases r) auto
  then show ?thesis using coin_rejected_unchanged [OF system.restricted coin_sample_inv sep] by blast
qed

end
