(* ===== verification/Signatures.thy ===== *)
theory Signatures
  imports Hashing
begin

section \<open>Account keys, signatures and identities\<close>

text \<open>
  \<^verbatim>\<open>crypto/src/signature.rs\<close>, \<^verbatim>\<open>crypto/src/agility/mod.rs\<close> and \<^verbatim>\<open>crypto/src/program_id.rs\<close>: the
  registry of signature schemes with its activation plans, public keys and signatures with their
  length-checked encodings, the dispatch of verification to the backend of the scheme, and the
  identity an account derives from its key. The verification algorithms themselves (the vendored
  crates behind \<^verbatim>\<open>mldsa.rs\<close> and \<^verbatim>\<open>slhdsa.rs\<close>) are the parameter \<open>backend\<close>, which gets the scheme, the key
  bytes, the message and the signature bytes. The lemmas show that scheme identifiers are injective and
  that the encodings of keys and signatures are canonical; the binding of a signature to what it
  authorizes is in \<open>Operations\<close>.
\<close>

subsection \<open>Schemes\<close>

datatype signature_scheme = MlDsa44 | MlDsa65 | MlDsa87 | SqisignLevel5 | SlhDsaShake128s | SlhDsaShake192s | SlhDsaShake256s

datatype account_scheme = MlDsa44 | MlDsa65 | MlDsa87 | SlhDsaShake128s | SlhDsaShake192s | SlhDsaShake256s

datatype crypto_error = InvalidProgramIdEncoding | InvalidPublicKey | InvalidPublicKeyLength | InvalidAccountSaltLength
  | InvalidAccountScheme | InvalidSignatureEncoding | InvalidPoWParameters | PoWHashFailed | VerificationFailed

fun is_slh_dsa :: "account_scheme \<Rightarrow> bool" where
  "is_slh_dsa SlhDsaShake128s = True"
| "is_slh_dsa SlhDsaShake192s = True"
| "is_slh_dsa SlhDsaShake256s = True"
| "is_slh_dsa _ = False"

fun scheme_id :: "account_scheme \<Rightarrow> u8" where
  "scheme_id MlDsa44 = 1"
| "scheme_id MlDsa65 = 2"
| "scheme_id SlhDsaShake128s = 5"
| "scheme_id SlhDsaShake192s = 6"
| "scheme_id SlhDsaShake256s = 7"
| "scheme_id MlDsa87 = 3"

definition scheme_try_from :: "u8 \<Rightarrow> (account_scheme, crypto_error) result" where
  "scheme_try_from v =
     (if v = 1 then Ok MlDsa44 else if v = 2 then Ok MlDsa65 else if v = 5 then Ok SlhDsaShake128s
      else if v = 6 then Ok SlhDsaShake192s else if v = 7 then Ok SlhDsaShake256s
      else if v = 3 then Ok MlDsa87 else Err InvalidAccountScheme)"

fun registry_scheme :: "account_scheme \<Rightarrow> signature_scheme" where
  "registry_scheme MlDsa44 = signature_scheme.MlDsa44"
| "registry_scheme MlDsa65 = signature_scheme.MlDsa65"
| "registry_scheme SlhDsaShake128s = signature_scheme.SlhDsaShake128s"
| "registry_scheme SlhDsaShake192s = signature_scheme.SlhDsaShake192s"
| "registry_scheme SlhDsaShake256s = signature_scheme.SlhDsaShake256s"
| "registry_scheme MlDsa87 = signature_scheme.MlDsa87"

definition account_signature_scheme_supported :: "signature_scheme \<Rightarrow> bool" where
  "account_signature_scheme_supported s = (s \<in> {signature_scheme.MlDsa44, signature_scheme.MlDsa65, signature_scheme.MlDsa87,
     signature_scheme.SlhDsaShake128s, signature_scheme.SlhDsaShake192s, signature_scheme.SlhDsaShake256s})"

definition scheme_supported :: "account_scheme \<Rightarrow> bool" where
  "scheme_supported s = account_signature_scheme_supported (registry_scheme s)"

fun public_key_size :: "account_scheme \<Rightarrow> nat" where
  "public_key_size MlDsa44 = 1312"
| "public_key_size MlDsa65 = 1952"
| "public_key_size SlhDsaShake128s = 32"
| "public_key_size SlhDsaShake192s = 48"
| "public_key_size SlhDsaShake256s = 64"
| "public_key_size MlDsa87 = 2592"

fun signature_size :: "account_scheme \<Rightarrow> nat" where
  "signature_size MlDsa44 = 2420"
| "signature_size MlDsa65 = 3309"
| "signature_size SlhDsaShake128s = 7856"
| "signature_size SlhDsaShake192s = 16224"
| "signature_size SlhDsaShake256s = 29792"
| "signature_size MlDsa87 = 4627"

subsection \<open>Activation plans\<close>

datatype hash_scheme = Sha3_256

datatype pow_scheme = Argon2id

datatype crypto_primitive = Signature signature_scheme | HashPrimitive hash_scheme | PoW pow_scheme

datatype primitive_family = SignatureFamily | HashFamily | PoWFamily

fun family_of :: "crypto_primitive \<Rightarrow> primitive_family" where
  "family_of (Signature _) = SignatureFamily"
| "family_of (HashPrimitive _) = HashFamily"
| "family_of (PoW _) = PoWFamily"

record upgrade_plan =
  up_authorization_id :: bytes
  up_from :: crypto_primitive
  up_to :: crypto_primitive
  up_transition_height :: u64
  up_activation_height :: u64

datatype upgrade_error = PrimitiveFamilyMismatch | NoPrimitiveChange | InvalidActivationWindow | MissingAuthorization

datatype upgrade_phase = LegacyOnly | Transition | UpgradedOnly

definition plan_validate :: "upgrade_plan \<Rightarrow> (unit, upgrade_error) result" where
  "plan_validate p =
     (if family_of (up_from p) \<noteq> family_of (up_to p) then Err PrimitiveFamilyMismatch
      else if up_from p = up_to p then Err NoPrimitiveChange
      else if up_transition_height p \<ge> up_activation_height p then Err InvalidActivationWindow
      else if up_authorization_id p = replicate 32 0 then Err MissingAuthorization
      else Ok ())"

definition phase_at :: "upgrade_plan \<Rightarrow> u64 \<Rightarrow> upgrade_phase" where
  "phase_at p height =
     (if height < up_transition_height p then LegacyOnly
      else if height < up_activation_height p then Transition else UpgradedOnly)"

definition permits :: "upgrade_plan \<Rightarrow> crypto_primitive \<Rightarrow> u64 \<Rightarrow> bool" where
  "permits p primitive height = (case phase_at p height of
     LegacyOnly \<Rightarrow> primitive = up_from p
   | Transition \<Rightarrow> primitive = up_from p \<or> primitive = up_to p
   | UpgradedOnly \<Rightarrow> primitive = up_to p)"

definition INITIAL_SIGNATURE_SCHEME :: signature_scheme where
  "INITIAL_SIGNATURE_SCHEME = signature_scheme.MlDsa44"

definition signature_scheme_active_at_height :: "signature_scheme \<Rightarrow> u64 \<Rightarrow> upgrade_plan option \<Rightarrow> bool" where
  "signature_scheme_active_at_height s height plan = (case plan of
     Some p \<Rightarrow> permits p (Signature s) height
   | None \<Rightarrow> s = INITIAL_SIGNATURE_SCHEME)"

subsection \<open>Keys and signatures\<close>

record public_key =
  pk_account :: account_scheme
  pk_bytes :: bytes

record account_signature =
  as_account :: account_scheme
  as_bytes :: bytes

definition public_key_valid :: "public_key \<Rightarrow> bool" where
  "public_key_valid k = (length (pk_bytes k) = public_key_size (pk_account k))"

definition signature_valid :: "account_signature \<Rightarrow> bool" where
  "signature_valid s = (length (as_bytes s) = signature_size (as_account s))"

definition enc_keyed :: "account_scheme \<times> bytes \<Rightarrow> bytes" where
  "enc_keyed p = enc_u8 (scheme_id (fst p)) @ enc_bytes (snd p)"

definition dec_keyed :: "(account_scheme \<Rightarrow> nat) \<Rightarrow> (account_scheme \<times> bytes) decoder" where
  "dec_keyed sz bs =
     Option.bind (dec_u8 bs) (\<lambda>(t, bs). case scheme_try_from t of
       Inl _ \<Rightarrow> None
     | Inr s \<Rightarrow> Option.bind (dec_u32 bs) (\<lambda>(n, bs).
         if unat n \<noteq> sz s then None
         else Option.bind (dec_array (sz s) bs) (\<lambda>(b, bs). Some ((s, b), bs))))"

definition enc_public_key :: "public_key \<Rightarrow> bytes" where
  "enc_public_key k = enc_keyed (pk_account k, pk_bytes k)"

definition dec_public_key :: "public_key decoder" where
  "dec_public_key = dec_map (\<lambda>(s, b). \<lparr>pk_account = s, pk_bytes = b\<rparr>) (dec_keyed public_key_size)"

definition enc_signature :: "account_signature \<Rightarrow> bytes" where
  "enc_signature s = enc_keyed (as_account s, as_bytes s)"

definition dec_signature :: "account_signature decoder" where
  "dec_signature = dec_map (\<lambda>(s, b). \<lparr>as_account = s, as_bytes = b\<rparr>) (dec_keyed signature_size)"

text \<open>Verification: the scheme-specific algorithm is called only on a key and a signature of one
  scheme and of the sizes it defines.\<close>

type_synonym backend = "account_scheme \<Rightarrow> bytes \<Rightarrow> bytes \<Rightarrow> bytes \<Rightarrow> bool"

definition mldsa_verify :: "backend \<Rightarrow> public_key \<Rightarrow> bytes \<Rightarrow> account_signature \<Rightarrow> bool" where
  "mldsa_verify backend k message s =
     (if pk_account k \<noteq> as_account s then False
      else if \<not> public_key_valid k \<or> \<not> signature_valid s then False
      else if is_slh_dsa (pk_account k) then False
      else backend (pk_account k) (pk_bytes k) message (as_bytes s))"

definition slhdsa_verify :: "backend \<Rightarrow> public_key \<Rightarrow> bytes \<Rightarrow> account_signature \<Rightarrow> bool" where
  "slhdsa_verify backend k message s =
     (if is_slh_dsa (pk_account k) then backend (pk_account k) (pk_bytes k) message (as_bytes s) else False)"

definition verify :: "backend \<Rightarrow> public_key \<Rightarrow> bytes \<Rightarrow> account_signature \<Rightarrow> bool" where
  "verify backend k message s =
     (if pk_account k \<noteq> as_account s \<or> \<not> public_key_valid k \<or> \<not> signature_valid s then False
      else if is_slh_dsa (pk_account k) then slhdsa_verify backend k message s
      else mldsa_verify backend k message s)"

subsection \<open>Account and program identities\<close>

definition ACCOUNT_SALT_SIZE :: nat where "ACCOUNT_SALT_SIZE = 16"
definition AUTHORIZATION_SALT_SIZE :: nat where "AUTHORIZATION_SALT_SIZE = 32"

definition signature_account :: "(bytes \<Rightarrow> hash) \<Rightarrow> account_scheme \<Rightarrow> bytes \<Rightarrow> bytes \<Rightarrow> (program_id, crypto_error) result" where
  "signature_account sha3 s key salt =
     (if length key \<noteq> public_key_size s then Err InvalidPublicKeyLength
      else if length salt \<noteq> ACCOUNT_SALT_SIZE \<and> length salt \<noteq> AUTHORIZATION_SALT_SIZE then Err InvalidAccountSaltLength
      else let normalized = salt @ replicate (AUTHORIZATION_SALT_SIZE - length salt) 0 in
        Ok (domain sha3 ProgramAccount (ascii ''xparq:signature-policy:v2'' @ [scheme_id s] @ key @ normalized)))"

definition program_id_from_public_key :: "(bytes \<Rightarrow> hash) \<Rightarrow> public_key \<Rightarrow> bytes \<Rightarrow> (program_id, crypto_error) result" where
  "program_id_from_public_key sha3 k salt = signature_account sha3 (pk_account k) (pk_bytes k) salt"

definition program_id_derive :: "(bytes \<Rightarrow> hash) \<Rightarrow> program_id \<Rightarrow> u64 \<Rightarrow> hash \<Rightarrow> program_id" where
  "program_id_derive sha3 code_owner nonce code_hash =
     domain sha3 XPARQArtifact (ascii ''xparq:program-id:v2'' @ code_owner @ u64_le nonce @ code_hash)"

subsection \<open>Wire instances\<close>

lemma scheme_try_from_iff: "scheme_try_from v = Ok s \<longleftrightarrow> v = scheme_id s"
  by (cases s) (auto simp: scheme_try_from_def)

lemma scheme_id_inj: "scheme_id s = scheme_id s' \<longleftrightarrow> s = s'"
  by (metis scheme_try_from_iff sum.inject(2))

lemma enc_bytes_raw: "enc_bytes bs = u32_le (of_nat (length bs)) @ bs"
proof -
  have "enc_seq enc_u8 bs = bs" by (induction bs) (simp_all add: enc_seq_def enc_u8_def)
  then show ?thesis by (simp add: enc_bytes_def enc_vec_def)
qed

lemma codec_keyed:
  assumes small: "\<And>s. sz s < 2 ^ 32"
  shows "codec enc_keyed (dec_keyed sz) (\<lambda>p. length (snd p) = sz (fst p))"
proof
  have n: "unat (of_nat (sz s) :: u32) = sz s" for s using small [of s] by (simp add: unat_of_nat)
  show "dec_keyed sz (enc_keyed p @ rest) = Some (p, rest)" if "length (snd p) = sz (fst p)" for p rest
    using that n [of "fst p"] scheme_try_from_iff [of "scheme_id (fst p)" "fst p"]
      arrayc.dec_enc [of "snd p" "sz (fst p)" rest]
    by (simp add: dec_keyed_def enc_keyed_def enc_bytes_raw codec_enc enc_array_def)
  show "length (snd p) = sz (fst p) \<and> bs = enc_keyed p @ rest" if d: "dec_keyed sz bs = Some (p, rest)" for bs p rest
  proof -
    obtain t r1 where 0: "dec_u8 bs = Some (t, r1)" using d by (cases "dec_u8 bs") (auto simp: dec_keyed_def)
    then obtain s where "scheme_try_from t = Ok s" using d by (cases "scheme_try_from t") (auto simp: dec_keyed_def)
    with 0 d obtain w r2 b where 1: "dec_u8 bs = Some (t, r1)" "scheme_try_from t = Ok s" "dec_u32 r1 = Some (w, r2)" "unat w = sz s"
      and 2: "dec_array (sz s) r2 = Some (b, rest)" "p = (s, b)"
      by (auto simp: dec_keyed_def bind_eq_Some_conv split: if_splits)
    have "bs = enc_u8 t @ r1" "r1 = u32_le w @ r2" "length b = sz s" "r2 = b @ rest"
      using u8c.enc_dec [OF 1(1)] u32c.enc_dec [OF 1(3)] arrayc.enc_dec [OF 2(1)] by (auto simp: enc_array_def)
    moreover have "w = of_nat (sz s)" using 1(4) by (metis word_of_nat_eq_iff unat_of_nat n word_unat_eq_iff)
    ultimately show ?thesis using 1(2) 2(2) by (simp add: enc_keyed_def enc_bytes_raw scheme_try_from_iff)
  qed
qed

interpretation public_keyc: codec enc_public_key dec_public_key public_key_valid
proof -
  have "public_key_size s < 2 ^ 32" for s by (cases s) simp_all
  then show "codec enc_public_key dec_public_key public_key_valid"
    unfolding dec_public_key_def
    by (intro codec_struct [OF codec_keyed, where g = "\<lambda>k. (pk_account k, pk_bytes k)"])
      (auto simp: enc_public_key_def public_key_valid_def)
qed

interpretation signaturec: codec enc_signature dec_signature signature_valid
proof -
  have "signature_size s < 2 ^ 32" for s by (cases s) simp_all
  then show "codec enc_signature dec_signature signature_valid"
    unfolding dec_signature_def
    by (intro codec_struct [OF codec_keyed, where g = "\<lambda>k. (as_account k, as_bytes k)"])
      (auto simp: enc_signature_def signature_valid_def)
qed

end
