(* ===== verification/Operations.thy ===== *)
theory Operations
  imports Coin_Host Asset_Program Signatures
begin

section \<open>Operations and their authorization\<close>

text \<open>
  What a block carries: \<^verbatim>\<open>kernel/src/operation.rs\<close> (the two kinds of operations and their identity),
  \<^verbatim>\<open>program/coin_transition.rs\<close> (the payment of an operation and its structural rules),
  \<^verbatim>\<open>program/authorization.rs\<close> (the signed commitment of an invocation), \<^verbatim>\<open>program/system/signature_policy.rs\<close>
  (who may authorize), \<^verbatim>\<open>program/deploy.rs\<close> (deployments) and the chunked reader of program code in
  \<^verbatim>\<open>program/mod.rs\<close>. The chain context is the hash of its genesis block. The lemmas show that every
  operation has one encoding, that the chunked reader is the bounded one, and that a signature
  accepted for one invocation binds chain, signer, call and payment.
\<close>

subsection \<open>Payments\<close>

datatype intent_error = EmptyInputs | EmptyOutputs | ZeroAmount | DuplicateInput | TooManyItems | InvalidAssetCall | Encoding

definition MAX_PROGRAM_ITEMS :: nat where "MAX_PROGRAM_ITEMS = 4096"

definition enc_coin_output :: "coin_output \<Rightarrow> bytes" where
  "enc_coin_output out = enc_owner (co_output out) @ u64_le (co_amount out)"

definition dec_coin_output :: "coin_output decoder" where
  "dec_coin_output = dec_map (\<lambda>(x, amount). \<lparr>co_output = x, co_amount = amount\<rparr>) (dec_pair dec_owner dec_u64)"

definition enc_coin_transition :: "coin_transition \<Rightarrow> bytes" where
  "enc_coin_transition t = enc_array (ct_signer t) @ enc_vec enc_array (ct_inputs t) @
     enc_vec enc_coin_output (ct_outputs t) @ u64_le (ct_miner_fee t)"

definition dec_coin_transition :: "coin_transition decoder" where
  "dec_coin_transition = dec_map (\<lambda>(signer, inputs, outputs, fee).
       \<lparr>ct_signer = signer, ct_inputs = inputs, ct_outputs = outputs, ct_miner_fee = fee\<rparr>)
     (dec_pair (dec_array HASH_SIZE) (dec_pair (dec_vec MAX_PROGRAM_ITEMS (dec_array HASH_SIZE))
        (dec_pair (dec_vec MAX_PROGRAM_ITEMS dec_coin_output) dec_u64)))"

definition coin_transition_validate :: "coin_transition \<Rightarrow> (unit, intent_error) result" where
  "coin_transition_validate t =
     (if length (ct_inputs t) > MAX_PROGRAM_ITEMS \<or> length (ct_outputs t) > MAX_PROGRAM_ITEMS then Err TooManyItems
      else if ct_inputs t = [] then Err EmptyInputs
      else if ct_outputs t = [] \<and> ct_miner_fee t = 0 then Err EmptyOutputs
      else if \<not> distinct (ct_inputs t) then Err DuplicateInput
      else if list_ex (\<lambda>out. co_amount out = 0) (ct_outputs t) then Err ZeroAmount
      else Ok ())"

definition coin_with_charges :: "program_id \<Rightarrow> hash list \<Rightarrow> coin_output list \<Rightarrow> zeno \<Rightarrow> (coin_transition, intent_error) result" where
  "coin_with_charges signer inputs outputs fee =
     (let t = \<lparr>ct_signer = signer, ct_inputs = inputs, ct_outputs = outputs, ct_miner_fee = fee\<rparr>
      in rbind (coin_transition_validate t) (\<lambda>_. Ok t))"

definition encodable_transition :: "coin_transition \<Rightarrow> bool" where
  "encodable_transition t = (length (ct_inputs t) \<le> U32_MAX \<and> length (ct_outputs t) \<le> U32_MAX)"

definition semantic_bytes :: "coin_transition \<Rightarrow> hash \<Rightarrow> (bytes, intent_error) result" where
  "semantic_bytes t genesis_hash =
     rbind (coin_transition_validate t) (\<lambda>_.
       map_err (\<lambda>_. Encoding) (canonical_bytes (\<lambda>t. genesis_hash @ enc_coin_transition t) encodable_transition t))"

definition semantic_commitment :: "(bytes \<Rightarrow> hash) \<Rightarrow> coin_transition \<Rightarrow> hash \<Rightarrow> (hash, intent_error) result" where
  "semantic_commitment sha3 t genesis_hash =
     rbind (semantic_bytes t genesis_hash) (\<lambda>bs. Ok (domain sha3 CoinTransition bs))"

subsection \<open>Authorization\<close>

record account_authorization =
  aa_salt :: bytes
  aa_public_key :: public_key
  aa_signature :: account_signature

record program_invocation =
  pi_signer :: program_id
  pi_call :: program_call
  pi_payment :: coin_transition
  pi_authorization :: account_authorization

definition has_matching_scheme :: "account_authorization \<Rightarrow> bool" where
  "has_matching_scheme a = (pk_account (aa_public_key a) = as_account (aa_signature a))"

definition active_at_height :: "account_authorization \<Rightarrow> u64 \<Rightarrow> bool" where
  "active_at_height a height = (has_matching_scheme a \<and> scheme_supported (pk_account (aa_public_key a)))"

definition authorize :: "(bytes \<Rightarrow> hash) \<Rightarrow> backend \<Rightarrow> program_id \<Rightarrow> hash \<Rightarrow> account_authorization \<Rightarrow> u64 \<Rightarrow> bool" where
  "authorize sha3 backend instance_id commitment a height =
     (if \<not> active_at_height a height then False
      else program_id_from_public_key sha3 (aa_public_key a) (aa_salt a) = Ok instance_id \<and>
        verify backend (aa_public_key a) commitment (aa_signature a))"

definition program_invocation_commitment ::
    "(bytes \<Rightarrow> hash) \<Rightarrow> program_id \<Rightarrow> program_call \<Rightarrow> coin_transition \<Rightarrow> hash \<Rightarrow> (hash, intent_error) result" where
  "program_invocation_commitment sha3 signer call payment genesis_hash =
     rbind (map_err (\<lambda>_. InvalidAssetCall) (decode_program call)) (\<lambda>_.
     rbind (coin_transition_validate payment) (\<lambda>_.
     if signer \<noteq> ct_signer payment then Err InvalidAssetCall
     else rbind (map_err (\<lambda>_. Encoding) (canonical_bytes
          (\<lambda>(call, payment). genesis_hash @ enc_u8 1 @ ascii ''xparq:program-transaction:v1'' @ signer @ enc_program_call call @ enc_coin_transition payment)
          (\<lambda>(call, payment). length (pc_payload call) \<le> U32_MAX \<and> encodable_transition payment) (call, payment)))
        (\<lambda>bs. Ok (domain sha3 AssetIntent bs))))"

definition invocation_validate :: "program_invocation \<Rightarrow> (unit, intent_error) result" where
  "invocation_validate v =
     rbind (map_err (\<lambda>_. InvalidAssetCall) (decode_program (pi_call v))) (\<lambda>_.
     rbind (coin_transition_validate (pi_payment v)) (\<lambda>_.
     if pi_signer v \<noteq> ct_signer (pi_payment v) then Err InvalidAssetCall else Ok ()))"

definition verify_authorizations ::
    "(bytes \<Rightarrow> hash) \<Rightarrow> backend \<Rightarrow> program_invocation \<Rightarrow> hash \<Rightarrow> u64 \<Rightarrow> (bool, intent_error) result" where
  "verify_authorizations sha3 backend v genesis_hash height =
     (let a = pi_authorization v in
      if \<not> active_at_height a height \<or> \<not> public_key_valid (aa_public_key a) \<or> \<not> signature_valid (aa_signature a)
      then Ok False
      else rbind (program_invocation_commitment sha3 (pi_signer v) (pi_call v) (pi_payment v) genesis_hash) (\<lambda>commitment.
        Ok (authorize sha3 backend (pi_signer v) commitment a height)))"

subsection \<open>Deployments\<close>

definition MAX_PROGRAM_CODE_SIZE :: nat where "MAX_PROGRAM_CODE_SIZE = 1048576"

record deploy_program =
  dp_owner :: program_id
  dp_nonce :: u64
  dp_code :: bytes

record authorized_deploy =
  ad_deploy :: deploy_program
  ad_payment :: coin_transition
  ad_authorization :: account_authorization

datatype registry_error = AlreadyExists | RegistryEncoding | InvalidRecord

datatype deploy_error = EmptyProgram | ProgramTooLarge | InvalidCode | InvalidPayment | InvalidAuthorization
  | DeployEncoding | MissingProgram | Registry registry_error

definition deploy_validate :: "deploy_program \<Rightarrow> (unit, deploy_error) result" where
  "deploy_validate d =
     (if dp_code d = [] then Err EmptyProgram
      else if length (dp_code d) > MAX_PROGRAM_CODE_SIZE then Err ProgramTooLarge
      else rbind (map_err (\<lambda>_. InvalidCode) (validate_code (dp_code d))) (\<lambda>_. Ok ()))"

definition program_hash_derive :: "(bytes \<Rightarrow> hash) \<Rightarrow> bytes \<Rightarrow> (hash, registry_error) result" where
  "program_hash_derive sha3 code =
     rbind (map_err (\<lambda>_. RegistryEncoding) (canonical_bytes (\<lambda>c. ascii ''xparq:program-code:v1'' @ enc_bytes c) (\<lambda>c. length c \<le> U32_MAX) code))
       (\<lambda>bs. Ok (domain sha3 XPARQArtifact bs))"

definition deploy_commitment :: "(bytes \<Rightarrow> hash) \<Rightarrow> authorized_deploy \<Rightarrow> hash \<Rightarrow> (hash, codec_error) result" where
  "deploy_commitment sha3 d genesis_hash =
     rbind (map_err (\<lambda>_. EncodeFailed) (program_hash_derive sha3 (dp_code (ad_deploy d)))) (\<lambda>code_hash.
     rbind (map_err (\<lambda>_. EncodeFailed) (canonical_bytes
        (\<lambda>p. ascii ''xparq:deploy-program:v1'' @ genesis_hash @ dp_owner (ad_deploy d) @ u64_le (dp_nonce (ad_deploy d)) @ code_hash @ enc_coin_transition p)
        encodable_transition (ad_payment d))) (\<lambda>bs. Ok (domain sha3 XPARQArtifact bs)))"

text \<open>Program code is read in chunks of at most 8192 bytes into a growing buffer.\<close>

function read_code :: "nat \<Rightarrow> bytes \<Rightarrow> bytes \<Rightarrow> (bytes \<times> bytes) option" where
  "read_code n code bs =
     (if length code < n then
        let count = min (n - length code) 8192 in
        if length bs < count then None else read_code n (code @ take count bs) (drop count bs)
      else Some (code, bs))"
  by pat_completeness auto
termination
  by (relation "measure (\<lambda>(n, code, bs). n - length code)") auto

declare read_code.simps [simp del]

definition deserialize_program_code :: "bytes decoder" where
  "deserialize_program_code bs =
     Option.bind (dec_u32 bs) (\<lambda>(n, bs). if unat n > MAX_PROGRAM_CODE_SIZE then None else read_code (unat n) [] bs)"

subsection \<open>Operations\<close>

datatype block_operation = DeployProgram authorized_deploy | ProgramCall program_invocation

datatype operation_error = InvalidDeploy | InvalidProgramCall

definition enc_authorization :: "account_authorization \<Rightarrow> bytes" where
  "enc_authorization a = enc_array (aa_salt a) @ enc_public_key (aa_public_key a) @ enc_signature (aa_signature a)"

definition dec_authorization :: "account_authorization decoder" where
  "dec_authorization = dec_map (\<lambda>(salt, key, sig). \<lparr>aa_salt = salt, aa_public_key = key, aa_signature = sig\<rparr>)
     (dec_pair (dec_array AUTHORIZATION_SALT_SIZE) (dec_pair dec_public_key dec_signature))"

definition enc_invocation :: "program_invocation \<Rightarrow> bytes" where
  "enc_invocation v = enc_array (pi_signer v) @ enc_program_call (pi_call v) @ enc_coin_transition (pi_payment v) @
     enc_authorization (pi_authorization v)"

definition dec_invocation :: "program_invocation decoder" where
  "dec_invocation = dec_map (\<lambda>(signer, call, payment, auth).
       \<lparr>pi_signer = signer, pi_call = call, pi_payment = payment, pi_authorization = auth\<rparr>)
     (dec_pair (dec_array HASH_SIZE) (dec_pair dec_program_call (dec_pair dec_coin_transition dec_authorization)))"

definition enc_deploy :: "deploy_program \<Rightarrow> bytes" where
  "enc_deploy d = enc_array (dp_owner d) @ u64_le (dp_nonce d) @ enc_bytes (dp_code d)"

definition dec_deploy :: "deploy_program decoder" where
  "dec_deploy = dec_map (\<lambda>(x, nonce, code). \<lparr>dp_owner = x, dp_nonce = nonce, dp_code = code\<rparr>)
     (dec_pair (dec_array HASH_SIZE) (dec_pair dec_u64 deserialize_program_code))"

definition enc_authorized_deploy :: "authorized_deploy \<Rightarrow> bytes" where
  "enc_authorized_deploy d = enc_deploy (ad_deploy d) @ enc_coin_transition (ad_payment d) @ enc_authorization (ad_authorization d)"

definition dec_authorized_deploy :: "authorized_deploy decoder" where
  "dec_authorized_deploy = dec_map (\<lambda>(d, payment, auth). \<lparr>ad_deploy = d, ad_payment = payment, ad_authorization = auth\<rparr>)
     (dec_pair dec_deploy (dec_pair dec_coin_transition dec_authorization))"

fun enc_operation :: "block_operation \<Rightarrow> bytes" where
  "enc_operation (DeployProgram d) = 0 # enc_authorized_deploy d"
| "enc_operation (ProgramCall v) = 1 # enc_invocation v"

definition dec_operation :: "block_operation decoder" where
  "dec_operation = dec_tag (\<lambda>t. if t = 0 then Some (dec_map DeployProgram dec_authorized_deploy)
     else if t = 1 then Some (dec_map ProgramCall dec_invocation) else None)"

text \<open>
  Encoding fails on a sequence longer than \<open>u32::MAX\<close> and on a key or signature of the wrong size.
\<close>

fun encodable_operation :: "block_operation \<Rightarrow> bool" where
  "encodable_operation (DeployProgram d) =
     (length (dp_code (ad_deploy d)) \<le> U32_MAX \<and> encodable_transition (ad_payment d) \<and>
      public_key_valid (aa_public_key (ad_authorization d)) \<and> signature_valid (aa_signature (ad_authorization d)))"
| "encodable_operation (ProgramCall v) =
     (length (pc_payload (pi_call v)) \<le> U32_MAX \<and> encodable_transition (pi_payment v) \<and>
      public_key_valid (aa_public_key (pi_authorization v)) \<and> signature_valid (aa_signature (pi_authorization v)))"

definition operation_id :: "(bytes \<Rightarrow> hash) \<Rightarrow> block_operation \<Rightarrow> (hash, codec_error) result" where
  "operation_id sha3 op = rbind (canonical_bytes enc_operation encodable_operation op) (\<lambda>bs. Ok (domain sha3 Operation bs))"

fun operation_validate :: "block_operation \<Rightarrow> (unit, operation_error) result" where
  "operation_validate (DeployProgram d) =
     map_err (\<lambda>_. InvalidDeploy) (rbind (deploy_validate (ad_deploy d)) (\<lambda>_.
       map_err (\<lambda>_. InvalidPayment) (coin_transition_validate (ad_payment d))))"
| "operation_validate (ProgramCall v) = map_err (\<lambda>_. InvalidProgramCall) (invocation_validate v)"

fun operation_fee :: "block_operation \<Rightarrow> zeno" where
  "operation_fee (ProgramCall v) = ct_miner_fee (pi_payment v)"
| "operation_fee (DeployProgram d) = ct_miner_fee (ad_payment d)"


subsection \<open>Wire instances\<close>

lemma read_code_iff:
  "length code \<le> n \<Longrightarrow> read_code n code bs =
     (if length bs < n - length code then None else Some (code @ take (n - length code) bs, drop (n - length code) bs))"
proof (induction n code bs rule: read_code.induct)
  case (1 n code bs)
  show ?case
  proof (cases "length code < n \<and> min (n - length code) 8192 \<le> length bs")
    case True
    define c where "c = min (n - length code) 8192"
    have c: "c \<le> length bs" "c \<le> n - length code" using True by (simp_all add: c_def)
    have "read_code n code bs = read_code n (code @ take c bs) (drop c bs)"
      using True by (subst read_code.simps) (simp add: Let_def c_def [symmetric])
    also have "\<dots> = (if length bs - c < n - length code - c then None
        else Some (code @ take c bs @ take (n - length code - c) (drop c bs), drop (n - length code - c) (drop c bs)))"
    proof -
      have len: "length (code @ take c bs) = length code + c" using c by simp
      have le: "length code + c \<le> n" using True c(2) by linarith
      have "read_code n (code @ take c bs) (drop c bs) = (if length (drop c bs) < n - (length code + c) then None
          else Some ((code @ take c bs) @ take (n - (length code + c)) (drop c bs), drop (n - (length code + c)) (drop c bs)))"
        using 1(1) [OF _ c_def] True c le unfolding len by (simp del: drop_drop append_assoc)
      then show ?thesis by simp
    qed
    also have "take c bs @ take (n - length code - c) (drop c bs) = take (n - length code) bs"
      using c by (metis le_add_diff_inverse take_add)
    finally show ?thesis using c True by (auto simp: le_diff_conv2 add.commute [of c])
  next
    case False
    then show ?thesis using 1(2) by (subst read_code.simps) (auto simp: Let_def)
  qed
qed

lemma program_code_reader: "deserialize_program_code = dec_bytes MAX_PROGRAM_CODE_SIZE"
proof
  have raw: "dec_seq dec_u8 n bs = (if length bs < n then None else Some (take n bs, drop n bs))" for n bs
  proof (induction n arbitrary: bs)
    case (Suc n)
    then show ?case by (cases bs) simp_all
  qed simp
  show "deserialize_program_code bs = dec_bytes MAX_PROGRAM_CODE_SIZE bs" for bs
    unfolding deserialize_program_code_def dec_bytes_def dec_vec_def raw by (cases "dec_u32 bs") (auto simp: read_code_iff)
qed

definition ok_coin_output :: "coin_output \<Rightarrow> bool" where "ok_coin_output out = ok_owner (co_output out)"

interpretation coin_outputc: codec enc_coin_output dec_coin_output ok_coin_output
  unfolding dec_coin_output_def
  by (rule codec_struct [OF codec_pair [OF ownerc.codec_axioms u64c.codec_axioms], where g = "\<lambda>out. (co_output out, co_amount out)"])
    (auto simp: enc_coin_output_def enc_pair_def ok_coin_output_def)

definition ok_transition :: "coin_transition \<Rightarrow> bool" where
  "ok_transition t = (length (ct_signer t) = HASH_SIZE \<and> ok_vec MAX_PROGRAM_ITEMS (\<lambda>h. length h = HASH_SIZE) (ct_inputs t) \<and>
     ok_vec MAX_PROGRAM_ITEMS ok_coin_output (ct_outputs t))"

interpretation coin_transitionc: codec enc_coin_transition dec_coin_transition ok_transition
proof -
  have le: "MAX_PROGRAM_ITEMS \<le> U32_MAX" by (simp add: MAX_PROGRAM_ITEMS_def U32_MAX_def)
  show "codec enc_coin_transition dec_coin_transition ok_transition"
    unfolding dec_coin_transition_def
    by (rule codec_struct [OF codec_pair [OF arrayc.codec_axioms codec_pair [OF codec_vec [OF arrayc.codec_axioms le]
          codec_pair [OF codec_vec [OF coin_outputc.codec_axioms le] u64c.codec_axioms]]],
          where g = "\<lambda>t. (ct_signer t, ct_inputs t, ct_outputs t, ct_miner_fee t)"])
      (auto simp: enc_coin_transition_def enc_pair_def ok_transition_def)
qed

definition ok_authorization :: "account_authorization \<Rightarrow> bool" where
  "ok_authorization a = (length (aa_salt a) = AUTHORIZATION_SALT_SIZE \<and> public_key_valid (aa_public_key a) \<and> signature_valid (aa_signature a))"

interpretation authorizationc: codec enc_authorization dec_authorization ok_authorization
  unfolding dec_authorization_def
  by (rule codec_struct [OF codec_pair [OF arrayc.codec_axioms codec_pair [OF public_keyc.codec_axioms signaturec.codec_axioms]],
        where g = "\<lambda>a. (aa_salt a, aa_public_key a, aa_signature a)"])
    (auto simp: enc_authorization_def enc_pair_def ok_authorization_def)

definition ok_invocation :: "program_invocation \<Rightarrow> bool" where
  "ok_invocation v = (length (pi_signer v) = HASH_SIZE \<and> ok_program_call (pi_call v) \<and> ok_transition (pi_payment v) \<and>
     ok_authorization (pi_authorization v))"

interpretation invocationc: codec enc_invocation dec_invocation ok_invocation
  unfolding dec_invocation_def
  by (rule codec_struct [OF codec_pair [OF arrayc.codec_axioms codec_pair [OF program_callc.codec_axioms codec_pair
        [OF coin_transitionc.codec_axioms authorizationc.codec_axioms]]],
        where g = "\<lambda>v. (pi_signer v, pi_call v, pi_payment v, pi_authorization v)"])
    (auto simp: enc_invocation_def enc_pair_def ok_invocation_def)

definition ok_deploy :: "deploy_program \<Rightarrow> bool" where
  "ok_deploy d = (length (dp_owner d) = HASH_SIZE \<and> length (dp_code d) \<le> MAX_PROGRAM_CODE_SIZE)"

interpretation deployc: codec enc_deploy dec_deploy ok_deploy
proof -
  have le: "MAX_PROGRAM_CODE_SIZE \<le> U32_MAX" by (simp add: MAX_PROGRAM_CODE_SIZE_def U32_MAX_def)
  show "codec enc_deploy dec_deploy ok_deploy"
    unfolding dec_deploy_def program_code_reader
    by (rule codec_struct [OF codec_pair [OF arrayc.codec_axioms codec_pair [OF u64c.codec_axioms codec_bytes [OF le]]],
          where g = "\<lambda>d. (dp_owner d, dp_nonce d, dp_code d)"])
      (auto simp: enc_deploy_def enc_pair_def ok_deploy_def)
qed

definition ok_authorized_deploy :: "authorized_deploy \<Rightarrow> bool" where
  "ok_authorized_deploy d = (ok_deploy (ad_deploy d) \<and> ok_transition (ad_payment d) \<and> ok_authorization (ad_authorization d))"

interpretation authorized_deployc: codec enc_authorized_deploy dec_authorized_deploy ok_authorized_deploy
  unfolding dec_authorized_deploy_def
  by (rule codec_struct [OF codec_pair [OF deployc.codec_axioms codec_pair [OF coin_transitionc.codec_axioms authorizationc.codec_axioms]],
        where g = "\<lambda>d. (ad_deploy d, ad_payment d, ad_authorization d)"])
    (auto simp: enc_authorized_deploy_def enc_pair_def ok_authorized_deploy_def)

fun ok_operation :: "block_operation \<Rightarrow> bool" where
  "ok_operation (DeployProgram d) = ok_authorized_deploy d"
| "ok_operation (ProgramCall v) = ok_invocation v"

interpretation operationc: codec enc_operation dec_operation ok_operation
  unfolding dec_operation_def
proof (rule codec_tag [where t = "\<lambda>op. case op of DeployProgram _ \<Rightarrow> 0 | ProgramCall _ \<Rightarrow> 1"
      and payload = "\<lambda>op. case op of DeployProgram d \<Rightarrow> enc_authorized_deploy d | ProgramCall v \<Rightarrow> enc_invocation v"])
  fix op
  assume "ok_operation op"
  then show "\<exists>dec. (if (case op of DeployProgram _ \<Rightarrow> 0 | ProgramCall _ \<Rightarrow> 1) = (0 :: u8) then Some (dec_map DeployProgram dec_authorized_deploy)
      else if (case op of DeployProgram _ \<Rightarrow> 0 | ProgramCall _ \<Rightarrow> 1) = (1 :: u8) then Some (dec_map ProgramCall dec_invocation) else None) = Some dec \<and>
      (\<forall>rest. dec ((case op of DeployProgram d \<Rightarrow> enc_authorized_deploy d | ProgramCall v \<Rightarrow> enc_invocation v) @ rest) = Some (op, rest))"
    by (cases op) (simp_all add: dec_map_def authorized_deployc.dec_enc invocationc.dec_enc)
next
  fix v dec bs x rest
  assume "(if v = (0 :: u8) then Some (dec_map DeployProgram dec_authorized_deploy)
      else if v = 1 then Some (dec_map ProgramCall dec_invocation) else None) = Some dec" "dec bs = Some (x, rest)"
  then show "ok_operation x \<and> v = (case x of DeployProgram _ \<Rightarrow> 0 | ProgramCall _ \<Rightarrow> 1) \<and>
      bs = (case x of DeployProgram d \<Rightarrow> enc_authorized_deploy d | ProgramCall v \<Rightarrow> enc_invocation v) @ rest"
    by (auto simp: dec_map_def bind_eq_Some_conv split: if_splits dest!: authorized_deployc.enc_dec invocationc.enc_dec)
qed (auto split: block_operation.splits)


subsection \<open>What a signature binds\<close>

lemma decode_program_size:
  assumes "decode_program c = Ok d"
  shows "length (pc_payload c) \<le> 65568 + MAX_DATA_BYTES"
proof -
  have asset: "length p \<le> 65536" if "asset_decode opc p = Ok a" for opc p a
    using that by (auto simp: asset_decode_def asset_opcode_try_from_def split: if_splits)
  have "length p \<le> 65537" if "monetary_decode opc p = Ok m" for opc p m
    using that by (auto simp: monetary_decode_def result_simps split: if_splits list.splits dest!: asset)
  then show ?thesis using assms
    by (fastforce simp: decode_program_def call_input_def result_simps split: if_splits dest: asset)
qed

definition authorization_message :: "hash \<Rightarrow> program_id \<Rightarrow> program_call \<Rightarrow> coin_transition \<Rightarrow> bytes" where
  "authorization_message genesis_hash signer call payment = genesis_hash @ enc_u8 1 @ ascii ''xparq:program-transaction:v1'' @ signer @
     enc_program_call call @ enc_coin_transition payment"

lemma commitment_Ok:
  "program_invocation_commitment sha3 signer call payment genesis_hash = Ok h \<longleftrightarrow>
     (\<exists>d. decode_program call = Ok d) \<and> coin_transition_validate payment = Ok () \<and> signer = ct_signer payment \<and>
     length (pc_payload call) \<le> U32_MAX \<and> encodable_transition payment \<and>
     h = domain sha3 AssetIntent (authorization_message genesis_hash signer call payment)"
  by (auto simp: program_invocation_commitment_def canonical_bytes_def authorization_message_def result_simps split: if_splits)


lemma enc_program_call_inj:
  assumes "enc_program_call c @ r = enc_program_call c' @ r'" "length (pc_payload c) \<le> U32_MAX" "length (pc_payload c') \<le> U32_MAX"
  shows "c = c' \<and> r = r'"
proof -
  have "(pc_program c, pc_opcode c, pc_payload c) = (pc_program c', pc_opcode c', pc_payload c') \<and> r = r'"
    by (rule codec.enc_inj [OF codec_pair [OF u32c.codec_axioms codec_pair [OF u8c.codec_axioms bytesc.codec_axioms]]])
      (use assms in \<open>simp_all add: enc_program_call_def enc_pair_def\<close>)
  then show ?thesis by simp
qed

lemma authorization_message_inj:
  assumes "authorization_message g s c p = authorization_message g' s' c' p'"
    and "length g = 32" "length g' = 32" "length s = 32" "length s' = 32"
    and "length (pc_payload c) \<le> U32_MAX" "length (pc_payload c') \<le> U32_MAX" "ok_transition p" "ok_transition p'"
  shows "g = g' \<and> s = s' \<and> c = c' \<and> p = p'"
proof -
  have "g = g'" "s = s'" and rest: "enc_program_call c @ enc_coin_transition p = enc_program_call c' @ enc_coin_transition p'"
    using assms(1-5) by (simp_all add: authorization_message_def)
  moreover have "c = c'" "enc_coin_transition p @ [] = enc_coin_transition p' @ []"
    using enc_program_call_inj [OF rest assms(6,7)] by simp_all
  ultimately show ?thesis using coin_transitionc.enc_inj [OF assms(8,9)] by blast
qed

lemma length_enc_transition: "ok_transition p \<Longrightarrow> length (enc_coin_transition p) < 2 ^ 30"
proof -
  assume ok: "ok_transition p"
  have ins: "length (enc_seq enc_array xs) \<le> 32 * length xs" if "list_all (\<lambda>h. length h = HASH_SIZE) xs" for xs
    using that by (induction xs) (simp_all add: enc_seq_def enc_array_def HASH_SIZE_def)
  have outs: "length (enc_seq enc_coin_output xs) \<le> 41 * length xs" if "list_all ok_coin_output xs" for xs
    using that by (induction xs) (simp_all add: enc_seq_def enc_coin_output_def enc_owner_def enc_array_def ok_coin_output_def ok_owner_def HASH_SIZE_def)
  have "length (enc_seq enc_array (ct_inputs p)) \<le> 32 * 4096" "length (enc_seq enc_coin_output (ct_outputs p)) \<le> 41 * 4096"
    using ins [of "ct_inputs p"] outs [of "ct_outputs p"] ok by (simp_all add: ok_transition_def ok_vec_def MAX_PROGRAM_ITEMS_def)
  then show "length (enc_coin_transition p) < 2 ^ 30"
    using ok by (simp add: enc_coin_transition_def enc_vec_def enc_array_def ok_transition_def HASH_SIZE_def)
qed

lemma length_authorization_message:
  assumes "length g = 32" "length s = 32" "decode_program c = Ok d" "ok_transition p"
  shows "length (authorization_message g s c p) < 2 ^ 40"
  using assms(1,2) decode_program_size [OF assms(3)] length_enc_transition [OF assms(4)]
  by (simp add: authorization_message_def enc_program_call_def enc_u8_def ascii_def length_enc_bytes MAX_DATA_BYTES_def)


lemma commitment_binds:
  assumes "program_invocation_commitment sha3 s c p g = Ok h" "program_invocation_commitment sha3 s' c' p' g' = Ok h"
    and "length g = 32" "length g' = 32" "ok_transition p" "ok_transition p'"
  shows "(g = g' \<and> s = s' \<and> c = c' \<and> p = p') \<or>
    collides sha3 (frame AssetIntent (authorization_message g s c p)) (frame AssetIntent (authorization_message g' s' c' p'))"
proof -
  note l = assms(1) [unfolded commitment_Ok] and r = assms(2) [unfolded commitment_Ok]
  have len: "length s = 32" "length s' = 32" using l r assms(5,6) by (simp_all add: ok_transition_def HASH_SIZE_def)
  have "length (authorization_message g s c p) < 2 ^ 40" "length (authorization_message g' s' c' p') < 2 ^ 40"
    using l r length_authorization_message len assms(3-6) by blast+
  moreover have "domain sha3 AssetIntent (authorization_message g s c p) = domain sha3 AssetIntent (authorization_message g' s' c' p')"
    using l r by metis
  ultimately show ?thesis using domain_binding authorization_message_inj [OF _ assms(3,4) len _ _ assms(5,6)] l r by blast
qed

definition signature_accepted :: "backend \<Rightarrow> account_authorization \<Rightarrow> hash \<Rightarrow> bool" where
  "signature_accepted backend a h \<longleftrightarrow> backend (pk_account (aa_public_key a)) (pk_bytes (aa_public_key a)) h (as_bytes (aa_signature a))"

lemma verify_authorizations_True:
  "verify_authorizations sha3 backend v g height = Ok True \<Longrightarrow>
     \<exists>h. program_invocation_commitment sha3 (pi_signer v) (pi_call v) (pi_payment v) g = Ok h \<and>
       program_id_from_public_key sha3 (aa_public_key (pi_authorization v)) (aa_salt (pi_authorization v)) = Ok (pi_signer v) \<and>
       as_account (aa_signature (pi_authorization v)) = pk_account (aa_public_key (pi_authorization v)) \<and>
       length (as_bytes (aa_signature (pi_authorization v))) = signature_size (pk_account (aa_public_key (pi_authorization v))) \<and>
       backend (pk_account (aa_public_key (pi_authorization v))) (pk_bytes (aa_public_key (pi_authorization v))) h (as_bytes (aa_signature (pi_authorization v)))"
  by (auto simp: verify_authorizations_def Let_def result_simps authorize_def verify_def slhdsa_verify_def mldsa_verify_def
      has_matching_scheme_def active_at_height_def public_key_valid_def signature_valid_def split: if_splits)

subsection \<open>Properties\<close>

text \<open>
  C26. Every operation has one encoding and no other bytes decode to it: the decoder reads an operation
  from the front of an input exactly when the input starts with the encoding of that well-sized
  operation, and it leaves the rest of the input as it is; a whole slice decodes exactly when it
  is the encoding. This covers the bounded sequences, the sized keys and signatures, and the
  chunked reader of program code.
\<close>

theorem operation_wire_canonical:
  "(dec_operation bs = Some (op, rest) \<longleftrightarrow> ok_operation op \<and> bs = enc_operation op @ rest) \<and>
   (canonical_decode dec_operation bs = Ok op \<longleftrightarrow> canonical_bytes enc_operation ok_operation op = Ok bs)"
  using operationc.dec_enc operationc.enc_dec operationc.canonical_roundtrip by blast

text \<open>
  C5. Two authorized invocations that carry the same key and the same signature are for the same chain,
  signer, call and payment, or their signed messages are two messages on which SHA3-256 collides, or the
  signature backend accepts that one signature for two different commitments. An authorized invocation
  was accepted by the backend of its key's scheme on its own commitment, and its signer is
  the identity of that key and salt.
\<close>

theorem authorization_binds:
  assumes "verify_authorizations sha3 backend v g height = Ok True" and "verify_authorizations sha3 backend v' g' height' = Ok True"
    and "length g = 32" and "length g' = 32" and "ok_transition (pi_payment v)" and "ok_transition (pi_payment v')"
    and "aa_public_key (pi_authorization v') = aa_public_key (pi_authorization v)"
    and "aa_signature (pi_authorization v') = aa_signature (pi_authorization v)"
  shows "\<exists>h h'. program_invocation_commitment sha3 (pi_signer v) (pi_call v) (pi_payment v) g = Ok h \<and>
    program_invocation_commitment sha3 (pi_signer v') (pi_call v') (pi_payment v') g' = Ok h' \<and>
    program_id_from_public_key sha3 (aa_public_key (pi_authorization v)) (aa_salt (pi_authorization v)) = Ok (pi_signer v) \<and>
    signature_accepted backend (pi_authorization v) h \<and> signature_accepted backend (pi_authorization v) h' \<and>
    ((g' = g \<and> pi_signer v' = pi_signer v \<and> pi_call v' = pi_call v \<and> pi_payment v' = pi_payment v) \<or>
     collides sha3 (frame AssetIntent (authorization_message g (pi_signer v) (pi_call v) (pi_payment v)))
       (frame AssetIntent (authorization_message g' (pi_signer v') (pi_call v') (pi_payment v'))) \<or>
     h \<noteq> h')"
proof -
  obtain h where h: "program_invocation_commitment sha3 (pi_signer v) (pi_call v) (pi_payment v) g = Ok h"
    "program_id_from_public_key sha3 (aa_public_key (pi_authorization v)) (aa_salt (pi_authorization v)) = Ok (pi_signer v)"
    "signature_accepted backend (pi_authorization v) h"
    using verify_authorizations_True [OF assms(1)] unfolding signature_accepted_def by blast
  obtain h' where h': "program_invocation_commitment sha3 (pi_signer v') (pi_call v') (pi_payment v') g' = Ok h'"
    "signature_accepted backend (pi_authorization v) h'"
    using verify_authorizations_True [OF assms(2)] unfolding signature_accepted_def assms(7,8) by blast
  have "h = h' \<Longrightarrow> (g = g' \<and> pi_signer v = pi_signer v' \<and> pi_call v = pi_call v' \<and> pi_payment v = pi_payment v') \<or>
     collides sha3 (frame AssetIntent (authorization_message g (pi_signer v) (pi_call v) (pi_payment v)))
       (frame AssetIntent (authorization_message g' (pi_signer v') (pi_call v') (pi_payment v')))"
    using commitment_binds [OF h(1) _ assms(3-6)] h'(1) by blast
  with h h' show ?thesis by metis
qed

definition sample_invocation :: program_invocation where
  "sample_invocation = \<lparr>pi_signer = replicate 32 0, pi_call = transfer_coin,
     pi_payment = \<lparr>ct_signer = replicate 32 0, ct_inputs = [replicate 32 1], ct_outputs = [], ct_miner_fee = 1\<rparr>,
     pi_authorization = \<lparr>aa_salt = replicate 32 0, aa_public_key = \<lparr>pk_account = SlhDsaShake128s, pk_bytes = replicate 32 0\<rparr>,
       aa_signature = \<lparr>as_account = SlhDsaShake128s, as_bytes = replicate 7856 0\<rparr>\<rparr>\<rparr>"

abbreviation sample_paying :: "zeno \<Rightarrow> program_invocation" where
  "sample_paying fee \<equiv> sample_invocation\<lparr>pi_payment := (pi_payment sample_invocation)\<lparr>ct_miner_fee := fee\<rparr>\<rparr>"

lemma sample_paying_authorized:
  assumes "fee \<noteq> 0"
  shows "verify_authorizations (\<lambda>_. replicate 32 0) (\<lambda>s k m sig. m = replicate 32 0) (sample_paying fee) (replicate 32 5) 7 = Ok True"
    "ok_transition (pi_payment (sample_paying fee))"
    "program_invocation_commitment (\<lambda>_. replicate 32 0) (pi_signer (sample_paying fee)) (pi_call (sample_paying fee))
       (pi_payment (sample_paying fee)) (replicate 32 5) = Ok (replicate 32 0)"
  using assms
  by (simp_all add: verify_authorizations_def sample_invocation_def active_at_height_def has_matching_scheme_def scheme_supported_def
      account_signature_scheme_supported_def public_key_valid_def signature_valid_def program_invocation_commitment_def
      decode_program_def transfer_coin_def MONETARY_def monetary_decode_def coin_decode_def COIN_TRANSFER_def
      coin_transition_validate_def MAX_PROGRAM_ITEMS_def canonical_bytes_def U32_MAX_def encodable_transition_def authorize_def
      program_id_from_public_key_def signature_account_def AUTHORIZATION_SALT_SIZE_def ACCOUNT_SALT_SIZE_def domain_def
      verify_def slhdsa_verify_def ok_transition_def ok_vec_def HASH_SIZE_def)

text \<open>With a hash that is constant, the invocations that pay one and two zeno share a signature, and the messages collide.\<close>

theorem authorization_binds_witness:
  "collides (\<lambda>_. replicate 32 0 :: hash) (frame AssetIntent (authorization_message (replicate 32 5) (pi_signer (sample_paying 1)) (pi_call (sample_paying 1)) (pi_payment (sample_paying 1))))
     (frame AssetIntent (authorization_message (replicate 32 5) (pi_signer (sample_paying 2)) (pi_call (sample_paying 2)) (pi_payment (sample_paying 2))))"
proof -
  have one: "(1 :: zeno) \<noteq> 0" and two: "(2 :: zeno) \<noteq> 0" by simp_all
  have len: "length (replicate 32 (5 :: u8)) = 32" by simp
  have "pi_payment (sample_paying 2) \<noteq> pi_payment (sample_paying 1)" by (simp add: sample_invocation_def)
  then show ?thesis
    using authorization_binds [OF sample_paying_authorized(1) [OF one] sample_paying_authorized(1) [OF two] len len
        sample_paying_authorized(2) [OF one] sample_paying_authorized(2) [OF two]]
      sample_paying_authorized(3) [OF one] sample_paying_authorized(3) [OF two] by auto
qed

end
