(* ===== verification/Merkle.thy ===== *)
theory Merkle
  imports Hashing
begin

section \<open>Merkle commitments (\<^verbatim>\<open>kernel/src/blockchain/merkle.rs\<close>)\<close>

text \<open>
  A block commits to its emission and operations by a binary hash tree. A level with an odd number
  of nodes promotes its last node unchanged. An inclusion proof lists the siblings on the path of a
  leaf and skips the levels where the node is promoted; the verifier recomputes the path from the
  index and the number of leaves.
\<close>

definition merkle_parent :: "(bytes \<Rightarrow> hash) \<Rightarrow> hash_domain \<Rightarrow> hash \<Rightarrow> hash \<Rightarrow> hash" where
  "merkle_parent sha3 d left right = domain sha3 d (left @ right)"

fun merkle_parent_level :: "(bytes \<Rightarrow> hash) \<Rightarrow> hash_domain \<Rightarrow> hash list \<Rightarrow> hash list" where
  "merkle_parent_level sha3 d (left # right # rest) =
     merkle_parent sha3 d left right # merkle_parent_level sha3 d rest"
| "merkle_parent_level sha3 d [node] = [node]"
| "merkle_parent_level sha3 d [] = []"

lemma length_parent_level: "length (merkle_parent_level sha3 d level) = (length level + 1) div 2"
  by (induction sha3 d level rule: merkle_parent_level.induct) auto

function merkle_top :: "(bytes \<Rightarrow> hash) \<Rightarrow> hash_domain \<Rightarrow> hash list \<Rightarrow> hash list" where
  "merkle_top sha3 d level =
     (if length level > 1 then merkle_top sha3 d (merkle_parent_level sha3 d level) else level)"
  by auto
termination
  by (relation "measure (\<lambda>(sha3, d, level). length level)") (auto simp: length_parent_level)

declare merkle_top.simps [simp del]

definition merkle_root :: "(bytes \<Rightarrow> hash) \<Rightarrow> hash list \<Rightarrow> hash_domain \<Rightarrow> hash option" where
  "merkle_root sha3 leaves d =
     (if leaves = [] then None
      else case merkle_top sha3 d leaves of [] \<Rightarrow> None | h # _ \<Rightarrow> Some h)"

record merkle_inclusion_proof =
  leaf_index :: u32
  leaf_count :: u32
  siblings :: "hash list"

text \<open>The sibling of a node, when its level has one; \<open>index.checked_add(1)\<close> is exact on \<open>usize\<close> here
  because the index is below the length of a list in memory.\<close>

definition sibling_of :: "hash list \<Rightarrow> nat \<Rightarrow> hash list" where
  "sibling_of level index =
     (let sibling_index = (if even index then index + 1 else index - 1)
      in if sibling_index < length level then [level ! sibling_index] else [])"

function proof_siblings :: "(bytes \<Rightarrow> hash) \<Rightarrow> hash_domain \<Rightarrow> hash list \<Rightarrow> nat \<Rightarrow> hash list" where
  "proof_siblings sha3 d level index =
     (if length level > 1
      then sibling_of level index @ proof_siblings sha3 d (merkle_parent_level sha3 d level) (index div 2)
      else [])"
  by auto
termination
  by (relation "measure (\<lambda>(sha3, d, level, i). length level)") (auto simp: length_parent_level)

declare proof_siblings.simps [simp del]

definition merkle_create :: "(bytes \<Rightarrow> hash) \<Rightarrow> hash list \<Rightarrow> nat \<Rightarrow> hash_domain \<Rightarrow> merkle_inclusion_proof option" where
  "merkle_create sha3 leaves index d =
     (if leaves = [] \<or> index \<ge> length leaves then None
      else Option.bind (try_from_nat index) (\<lambda>index_u32.
           Option.bind (try_from_nat (length leaves)) (\<lambda>count.
           Some \<lparr>leaf_index = index_u32, leaf_count = count, siblings = proof_siblings sha3 d leaves index\<rparr>)))"

text \<open>The verification loop: \<open>None\<close> when a sibling is missing, otherwise the hash at the top and the
  siblings left over.\<close>

function verify_loop :: "(bytes \<Rightarrow> hash) \<Rightarrow> hash_domain \<Rightarrow> nat \<Rightarrow> nat \<Rightarrow> hash list \<Rightarrow> hash \<Rightarrow> (hash \<times> hash list) option" where
  "verify_loop sha3 d width index sibs h =
     (if width > 1 then
        if odd index \<or> index + 1 < width then
          (case sibs of
             [] \<Rightarrow> None
           | s # sibs \<Rightarrow>
               verify_loop sha3 d ((width + 1) div 2) (index div 2) sibs
                 (if even index then merkle_parent sha3 d h s else merkle_parent sha3 d s h))
        else verify_loop sha3 d ((width + 1) div 2) (index div 2) sibs h
      else Some (h, sibs))"
  by pat_completeness auto
termination
  by (relation "measure (\<lambda>(sha3, d, width, i, s, h). width)") auto

declare verify_loop.simps [simp del]

definition merkle_verify :: "(bytes \<Rightarrow> hash) \<Rightarrow> merkle_inclusion_proof \<Rightarrow> hash \<Rightarrow> hash \<Rightarrow> hash_domain \<Rightarrow> bool" where
  "merkle_verify sha3 p leaf root d =
     (let index = unat (leaf_index p); width = unat (leaf_count p)
      in if width = 0 \<or> index \<ge> width \<or> length (siblings p) > 64 then False
         else case verify_loop sha3 d width index (siblings p) leaf of
                None \<Rightarrow> False
              | Some (h, rest) \<Rightarrow> rest = [] \<and> h = root)"

subsection \<open>Levels\<close>

lemma nth_parent_level:
  "i < (length level + 1) div 2 \<Longrightarrow>
    merkle_parent_level sha3 d level ! i =
      (if 2 * i + 1 < length level then merkle_parent sha3 d (level ! (2 * i)) (level ! (2 * i + 1)) else level ! (2 * i))"
proof (induction sha3 d level arbitrary: i rule: merkle_parent_level.induct)
  case (1 sha3 d left right rest)
  then show ?case by (cases i) auto
qed auto

lemma verify_loop_step:
  "1 < width \<Longrightarrow>
    verify_loop sha3 d width index sibs h =
      (if odd index \<or> index + 1 < width then
         (case sibs of [] \<Rightarrow> None
          | s # sibs \<Rightarrow> verify_loop sha3 d ((width + 1) div 2) (index div 2) sibs
              (if even index then merkle_parent sha3 d h s else merkle_parent sha3 d s h))
       else verify_loop sha3 d ((width + 1) div 2) (index div 2) sibs h)"
  by (subst verify_loop.simps) simp

lemma single_level [simp]:
  "merkle_top sha3 d [a] = [a]" "proof_siblings sha3 d [a] index = []"
  "verify_loop sha3 d (Suc 0) index sibs h = Some (h, sibs)"
  by (simp_all add: merkle_top.simps proof_siblings.simps verify_loop.simps)

lemma verify_created:
  "index < length level \<Longrightarrow>
    verify_loop sha3 d (length level) index (proof_siblings sha3 d level index) (level ! index) =
      Some (hd (merkle_top sha3 d level), [])"
proof (induction "length level" arbitrary: level index rule: less_induct)
  case less
  show ?case
  proof (cases "1 < length level")
    case False
    then have "length level = 1" "index = 0" using less.prems by auto
    then show ?thesis
      by (cases level) simp_all
  next
    case True
    let ?up = "merkle_parent_level sha3 d level"
    have len: "length ?up = (length level + 1) div 2" by (rule length_parent_level)
    have i: "index div 2 < length ?up" using less.prems len by linarith
    have IH: "verify_loop sha3 d (length ?up) (index div 2) (proof_siblings sha3 d ?up (index div 2)) (?up ! (index div 2)) =
        Some (hd (merkle_top sha3 d ?up), [])"
      by (rule less.hyps) (use True len i in auto)
    have top: "merkle_top sha3 d level = merkle_top sha3 d ?up" using True by (simp add: merkle_top.simps [of _ _ level])
    have sibs: "proof_siblings sha3 d level index = sibling_of level index @ proof_siblings sha3 d ?up (index div 2)"
      using True by (simp add: proof_siblings.simps [of _ _ level])
    have up: "?up ! (index div 2) = (if 2 * (index div 2) + 1 < length level
        then merkle_parent sha3 d (level ! (2 * (index div 2))) (level ! (2 * (index div 2) + 1)) else level ! (2 * (index div 2)))"
      using nth_parent_level [of "index div 2" level sha3 d] i len by simp
    show ?thesis
    proof (cases "even index")
      case even: True
      then have "2 * (index div 2) = index" by simp
      then show ?thesis using IH [unfolded len up] even True unfolding top sibs
        by (cases "index + 1 < length level") (simp_all add: verify_loop_step sibling_of_def Let_def)
    next
      case odd: False
      then have "2 * (index div 2) = index - 1" "2 * (index div 2) + 1 = index" "index - 1 < length level"
        using less.prems by (simp_all add: odd_two_times_div_two_nat)
      then show ?thesis using IH [unfolded len up] odd True less.prems unfolding top sibs
        by (simp add: verify_loop_step sibling_of_def Let_def)
    qed
  qed
qed


lemma sibling_count: "length level \<le> 2 ^ k \<Longrightarrow> length (proof_siblings sha3 d level index) \<le> k"
proof (induction k arbitrary: level index)
  case 0
  then show ?case by (simp add: proof_siblings.simps)
next
  case (Suc k)
  have "length (merkle_parent_level sha3 d level) \<le> 2 ^ k" using Suc.prems by (simp add: length_parent_level)
  with Suc.IH [of "merkle_parent_level sha3 d level" "index div 2"] show ?case
    by (subst proof_siblings.simps) (simp add: sibling_of_def Let_def)
qed

lemma merkle_top_singleton: "level \<noteq> [] \<Longrightarrow> \<exists>root. merkle_top sha3 d level = [root]"
proof (induction "length level" arbitrary: level rule: less_induct)
  case less
  show ?case
  proof (cases "1 < length level")
    case True
    have "length (merkle_parent_level sha3 d level) < length level" "merkle_parent_level sha3 d level \<noteq> []"
      using True length_parent_level [of sha3 d level] by (auto simp flip: length_greater_0_conv)
    then show ?thesis using less.hyps True by (simp add: merkle_top.simps [of _ _ level])
  next
    case False
    then show ?thesis using less.prems by (cases level) simp_all
  qed
qed

lemma merkle_root_Some: "leaves \<noteq> [] \<Longrightarrow> merkle_root sha3 leaves d = Some (hd (merkle_top sha3 d leaves))"
  using merkle_top_singleton [of leaves sha3 d] by (auto simp: merkle_root_def)

subsection \<open>A forged proof yields a collision\<close>

text \<open>
  Walking the honest levels beside the path of a proof, the first level at which the two hashed
  pairs differ but their parents agree is a collision of the digest. The result is the two framed
  messages.
\<close>

definition node_message :: "hash_domain \<Rightarrow> hash \<Rightarrow> hash \<Rightarrow> bytes" where
  "node_message d left right = frame d (left @ right)"

function extract_collision ::
    "(bytes \<Rightarrow> hash) \<Rightarrow> hash_domain \<Rightarrow> hash list \<Rightarrow> nat \<Rightarrow> hash list \<Rightarrow> hash \<Rightarrow> (bytes \<times> bytes) option" where
  "extract_collision sha3 d level index sibs h =
     (if length level > 1 then
        let up = merkle_parent_level sha3 d level; k = 2 * (index div 2)
        in if k + 1 < length level then
             (case sibs of
                [] \<Rightarrow> None
              | s # sibs \<Rightarrow>
                  let (l, r) = (if even index then (h, s) else (s, h))
                  in if (l, r) \<noteq> (level ! k, level ! (k + 1)) \<and> merkle_parent sha3 d l r = up ! (index div 2)
                     then Some (node_message d l r, node_message d (level ! k) (level ! (k + 1)))
                     else extract_collision sha3 d up (index div 2) sibs (merkle_parent sha3 d l r))
           else extract_collision sha3 d up (index div 2) sibs h
      else None)"
  by pat_completeness auto
termination
  by (relation "measure (\<lambda>(sha3, d, level, i, s, h). length level)") (auto simp: length_parent_level)

declare extract_collision.simps [simp del]

lemma extract_step_pair:
  assumes "1 < length level" and "2 * (index div 2) + 1 < length level"
  shows "extract_collision sha3 d level index (s # sibs) h =
     (let l = (if even index then h else s); r = (if even index then s else h); k = 2 * (index div 2);
          up = merkle_parent_level sha3 d level
      in if (l, r) \<noteq> (level ! k, level ! (k + 1)) \<and> merkle_parent sha3 d l r = up ! (index div 2)
         then Some (node_message d l r, node_message d (level ! k) (level ! (k + 1)))
         else extract_collision sha3 d up (index div 2) sibs (merkle_parent sha3 d l r))"
  by (subst extract_collision.simps) (use assms in \<open>simp add: Let_def\<close>)

lemma extract_step_promoted:
  assumes "1 < length level" and "\<not> 2 * (index div 2) + 1 < length level"
  shows "extract_collision sha3 d level index sibs h =
     extract_collision sha3 d (merkle_parent_level sha3 d level) (index div 2) sibs h"
  by (subst extract_collision.simps) (use assms in \<open>simp add: Let_def\<close>)

lemma node_message_inj:
  assumes "length l = 32" "length r = 32" "length l' = 32" "length r' = 32" and "(l, r) \<noteq> (l', r')"
  shows "node_message d l r \<noteq> node_message d l' r'"
  using assms frame_inj [of d "l @ r" d "l' @ r'"] by (auto simp: node_message_def)

lemma length_32_parent_level:
  "(\<And>m. length (sha3 m) = 32) \<Longrightarrow> (\<And>x. x \<in> set level \<Longrightarrow> length x = 32) \<Longrightarrow>
    x \<in> set (merkle_parent_level sha3 d level) \<Longrightarrow> length x = 32"
  by (induction sha3 d level rule: merkle_parent_level.induct) (auto simp: merkle_parent_def domain_def)

lemma forged_path_collides:
  assumes sha3: "\<And>m. length (sha3 m) = 32"
  shows "index < length level \<Longrightarrow> (\<And>x. x \<in> set level \<Longrightarrow> length x = 32) \<Longrightarrow> (\<And>x. x \<in> set sibs \<Longrightarrow> length x = 32) \<Longrightarrow>
    length h = 32 \<Longrightarrow> h \<noteq> level ! index \<Longrightarrow>
    verify_loop sha3 d (length level) index sibs h = Some (hd (merkle_top sha3 d level), []) \<Longrightarrow>
    \<exists>x y. extract_collision sha3 d level index sibs h = Some (x, y) \<and> x \<noteq> y \<and> sha3 x = sha3 y"
proof (induction "length level" arbitrary: level index sibs h rule: less_induct)
  case less
  show ?case
  proof (cases "1 < length level")
    case False
    then have "length level = 1" "index = 0" using less.prems(1) by auto
    then show ?thesis using less.prems(5,6)
      by (cases level) simp_all
  next
    case True
    define up where "up = merkle_parent_level sha3 d level"
    define k where "k = 2 * (index div 2)"
    have len: "length up = (length level + 1) div 2" by (simp add: up_def length_parent_level)
    have i: "index div 2 < length up" using less.prems(1) len by linarith
    have k: "k \<le> index" "index \<le> k + 1" "k < length level" using less.prems(1) by (auto simp: k_def)
    have has: "(odd index \<or> index + 1 < length level) \<longleftrightarrow> k + 1 < length level"
      using less.prems(1) by (cases "even index") (auto simp: k_def odd_two_times_div_two_nat)
    have top: "merkle_top sha3 d level = merkle_top sha3 d up" using True by (simp add: merkle_top.simps [of _ _ level] up_def)
    have up32: "x \<in> set up \<Longrightarrow> length x = 32" for x
      using length_32_parent_level [of sha3 level x d] sha3 less.prems(2) unfolding up_def by blast
    have up_k: "up ! (index div 2) = (if k + 1 < length level then merkle_parent sha3 d (level ! k) (level ! (k + 1)) else level ! k)"
      using nth_parent_level [of "index div 2" level sha3 d] i len by (simp add: up_def k_def)
    have shorter: "length up < length level" using True len by simp
    show ?thesis
    proof (cases "k + 1 < length level")
      case False
      then have "even index" using has by blast
      then have "k = index" by (simp add: k_def)
      then show ?thesis
        using less.hyps [OF shorter i up32 less.prems(3,4)] less.prems(5,6) up_k False True has len top
          extract_step_promoted [OF True False [unfolded k_def], of sha3 d sibs h]
        by (simp add: verify_loop_step up_def [symmetric])
    next
      case pair: True
      from pair has True obtain s rest where sibs: "sibs = s # rest"
        using less.prems(6) by (cases sibs) (auto simp: verify_loop_step)
      define l where "l = (if even index then h else s)"
      define r where "r = (if even index then s else h)"
      have lr32: "length l = 32" "length r = 32" using less.prems(3,4) by (auto simp: l_def r_def sibs)
      have hk32: "length (level ! k) = 32" "length (level ! (k + 1)) = 32" using less.prems(2) pair by auto
      have neq: "(l, r) \<noteq> (level ! k, level ! (k + 1))"
        using less.prems(5) by (cases "even index") (auto simp: l_def r_def k_def odd_two_times_div_two_nat)
      have v: "verify_loop sha3 d (length up) (index div 2) rest (merkle_parent sha3 d l r) = Some (hd (merkle_top sha3 d up), [])"
        using less.prems(6) True pair has len top by (simp add: verify_loop_step sibs l_def r_def split: if_splits)
      have e: "extract_collision sha3 d level index sibs h =
          (if merkle_parent sha3 d l r = up ! (index div 2)
           then Some (node_message d l r, node_message d (level ! k) (level ! (k + 1)))
           else extract_collision sha3 d up (index div 2) rest (merkle_parent sha3 d l r))"
        using neq unfolding sibs extract_step_pair [OF True pair [unfolded k_def]] Let_def
        by (simp only: up_def [symmetric] k_def [symmetric] l_def [symmetric] r_def [symmetric] simp_thms)
      show ?thesis
      proof (cases "merkle_parent sha3 d l r = up ! (index div 2)")
        case True
        then show ?thesis using e node_message_inj [OF lr32 hk32 neq, of d] up_k pair
          by (simp add: node_message_def merkle_parent_def domain_def)
      next
        case False
        have p32: "length (merkle_parent sha3 d l r) = 32" using sha3 by (simp add: merkle_parent_def domain_def)
        have r32: "x \<in> set rest \<Longrightarrow> length x = 32" for x using less.prems(3) sibs by simp
        show ?thesis using less.hyps [OF shorter i up32 r32 p32 False v] e False by simp
      qed
    qed
  qed
qed


subsection \<open>Properties\<close>

text \<open>C34. Inclusion proofs are complete: for any nonempty list of fewer than \<open>2 ^ 32\<close> leaves and any
  index below its length, a proof is created and verifies the leaf at this index against the root.\<close>

theorem merkle_proof_complete:
  assumes "index < length leaves" and "length leaves < 2 ^ 32"
  shows "\<exists>p root. merkle_create sha3 leaves index d = Some p \<and> merkle_root sha3 leaves d = Some root \<and>
    merkle_verify sha3 p (leaves ! index) root d"
proof -
  have ne: "leaves \<noteq> []" using assms(1) by auto
  have "length (proof_siblings sha3 d leaves index) \<le> 32" using assms(2) by (intro sibling_count) simp
  moreover have u: "unat (of_nat k :: u32) = k" if "k \<le> length leaves" for k
    using that assms(2) by (simp add: unat_of_nat)
  ultimately show ?thesis
    using assms ne verify_created [OF assms(1), of sha3 d] u [of index] u [of "length leaves"]
    by (simp add: merkle_create_def try_from_nat_def merkle_verify_def merkle_root_Some Let_def)
qed

theorem merkle_proof_complete_witness:
  "\<exists>p root. merkle_create (\<lambda>m. take 32 (m @ replicate 32 0)) [replicate 32 1, replicate 32 2, replicate 32 3] 2 MerkleNode = Some p \<and>
     merkle_root (\<lambda>m. take 32 (m @ replicate 32 0)) [replicate 32 1, replicate 32 2, replicate 32 3] MerkleNode = Some root \<and>
     merkle_verify (\<lambda>m. take 32 (m @ replicate 32 0)) p (replicate 32 3) root MerkleNode"
  using merkle_proof_complete [of 2 "[replicate 32 1, replicate 32 2, replicate 32 3]"
    "\<lambda>m. take 32 (m @ replicate 32 0)" MerkleNode] by simp

text \<open>C27. Inclusion proofs are sound when they claim the number of leaves of the tree, which verification does not
  check and a caller has to know: when such a proof verifies a leaf that is not the one committed at its index, following
  its path yields two different messages with the same digest.\<close>

theorem merkle_proof_sound:
  assumes "\<And>m. length (sha3 m) = 32"
    and "list_all (\<lambda>x. length x = 32) leaves" and "list_all (\<lambda>x. length x = 32) (siblings p)" and "length leaf = 32"
    and "merkle_root sha3 leaves d = Some root" and "unat (leaf_count p) = length leaves"
    and "merkle_verify sha3 p leaf root d" and "leaf \<noteq> leaves ! unat (leaf_index p)"
  shows "\<exists>x y. extract_collision sha3 d leaves (unat (leaf_index p)) (siblings p) leaf = Some (x, y) \<and>
    x \<noteq> y \<and> sha3 x = sha3 y"
proof (rule forged_path_collides [OF assms(1)])
  have ne: "leaves \<noteq> []" using assms(5) by (auto simp: merkle_root_def)
  then have root: "root = hd (merkle_top sha3 d leaves)" using assms(5) by (simp add: merkle_root_Some)
  show "unat (leaf_index p) < length leaves"
    using assms(6,7) by (auto simp: merkle_verify_def Let_def split: if_splits)
  show "verify_loop sha3 d (length leaves) (unat (leaf_index p)) (siblings p) leaf = Some (hd (merkle_top sha3 d leaves), [])"
    using assms(6,7) root by (auto simp: merkle_verify_def Let_def split: if_splits option.splits)
qed (use assms in \<open>auto simp: list_all_iff\<close>)

theorem merkle_proof_sound_witness:
  "let sha3 = (\<lambda>m. replicate 32 0); p = \<lparr>leaf_index = 0, leaf_count = 2, siblings = [replicate 32 7]\<rparr>;
       leaves = [replicate 32 1, replicate 32 2]
   in \<exists>x y. extract_collision sha3 MerkleNode leaves 0 (siblings p) (replicate 32 9) = Some (x, y) \<and>
        x \<noteq> y \<and> sha3 x = sha3 y"
  using merkle_proof_sound [of "\<lambda>m. replicate 32 0" "[replicate 32 1, replicate 32 2]"
      "\<lparr>leaf_index = 0, leaf_count = 2, siblings = [replicate 32 7]\<rparr>" "replicate 32 9" MerkleNode "replicate 32 0"]
  by (simp add: Let_def merkle_root_def merkle_top.simps merkle_verify_def verify_loop.simps merkle_parent_def domain_def)

end
