(* ===== verification/Blocks.thy ===== *)
theory Blocks
  imports Operations Merkle
begin

section \<open>Blocks\<close>

text \<open>
  \<^verbatim>\<open>kernel/src/blockchain/block.rs\<close>: headers, bodies and blocks with their encodings, the header hash, the
  Merkle commitment of the body, the structural rules a block must satisfy on its own, and the
  decoder that enforces them. The shared pointer around a body is its value. A block is serialized
  into a counter that stops at the size limit; the counter sees chunks whose boundaries do not
  matter. The lemmas show that decoding accepts exactly the encodings of blocks that obey the rules of
  a block, which \<open>block_rules\<close> states without the validators, and that the Merkle root of a header determines the body.
\<close>

subsection \<open>Types and encodings\<close>

definition MAX_BLOCK_SIZE :: nat where "MAX_BLOCK_SIZE = 2097152"
definition MAX_BLOCK_OPERATIONS :: nat where "MAX_BLOCK_OPERATIONS = 4096"
definition MAX_OPERATION_SIZE :: nat where "MAX_OPERATION_SIZE = MAX_BLOCK_SIZE"
definition GENESIS_TARGET_BITS :: u32 where "GENESIS_TARGET_BITS = 0x207fffff"

record header =
  hd_previous_hash :: hash
  hd_merkle_root :: hash
  hd_state_root :: hash
  hd_target_bits :: u32
  hd_block_weight :: u32
  hd_nonce :: nonce

record emission =
  em_to :: program_id
  em_subsidy :: zeno

record body =
  bd_emission :: "emission option"
  bd_operations :: "block_operation list"

record block =
  bk_header :: header
  bk_height :: height
  bk_body :: body

datatype block_error = MissingEmission | UnexpectedEmission | BlockTooHeavy | InvalidOperation | DuplicateOperation
  | InvalidMerkleRoot | InvalidBlockWeight | Serialization codec_error

definition enc_header :: "header \<Rightarrow> bytes" where
  "enc_header h = enc_array (hd_previous_hash h) @ enc_array (hd_merkle_root h) @ enc_array (hd_state_root h) @
     u32_le (hd_target_bits h) @ u32_le (hd_block_weight h) @ u64_le (hd_nonce h)"

definition dec_header :: "header decoder" where
  "dec_header = dec_map (\<lambda>(previous, merkle, state, target, weight, nonce).
       \<lparr>hd_previous_hash = previous, hd_merkle_root = merkle, hd_state_root = state, hd_target_bits = target,
        hd_block_weight = weight, hd_nonce = nonce\<rparr>)
     (dec_pair (dec_array HASH_SIZE) (dec_pair (dec_array HASH_SIZE) (dec_pair (dec_array HASH_SIZE)
        (dec_pair dec_u32 (dec_pair dec_u32 dec_u64)))))"

definition enc_emission :: "emission \<Rightarrow> bytes" where
  "enc_emission e = enc_array (em_to e) @ u64_le (em_subsidy e)"

definition dec_emission :: "emission decoder" where
  "dec_emission = dec_map (\<lambda>(x, subsidy). \<lparr>em_to = x, em_subsidy = subsidy\<rparr>) (dec_pair (dec_array HASH_SIZE) dec_u64)"

definition deserialize_block_operations :: "block_operation list decoder" where
  "deserialize_block_operations = dec_vec MAX_BLOCK_OPERATIONS (dec_limited MAX_OPERATION_SIZE dec_operation)"

definition enc_block :: "block \<Rightarrow> bytes" where
  "enc_block b = enc_header (bk_header b) @ u64_le (bk_height b) @ enc_option enc_emission (bd_emission (bk_body b)) @
     enc_vec enc_operation (bd_operations (bk_body b))"

definition dec_block :: "block decoder" where
  "dec_block = dec_map (\<lambda>(h, height, e, ops). \<lparr>bk_header = h, bk_height = height, bk_body = \<lparr>bd_emission = e, bd_operations = ops\<rparr>\<rparr>)
     (dec_pair dec_header (dec_pair dec_u64 (dec_pair (dec_option dec_emission) deserialize_block_operations)))"

definition encodable_block :: "block \<Rightarrow> bool" where
  "encodable_block b = (length (bd_operations (bk_body b)) \<le> U32_MAX \<and> list_all encodable_operation (bd_operations (bk_body b)))"

definition block_bytes :: "block \<Rightarrow> (bytes, codec_error) result" where
  "block_bytes b = canonical_bytes enc_block encodable_block b"

definition block_header_bytes :: "header \<Rightarrow> (bytes, codec_error) result" where
  "block_header_bytes h = canonical_bytes enc_header (\<lambda>_. True) h"

definition block_header_hash :: "(bytes \<Rightarrow> hash) \<Rightarrow> header \<Rightarrow> (hash, codec_error) result" where
  "block_header_hash sha3 h = rbind (block_header_bytes h) (\<lambda>bs. Ok (domain sha3 Header bs))"

definition emission_hash :: "(bytes \<Rightarrow> hash) \<Rightarrow> emission \<Rightarrow> (hash, codec_error) result" where
  "emission_hash sha3 e = rbind (canonical_bytes enc_emission (\<lambda>_. True) e) (\<lambda>bs. Ok (domain sha3 Emission bs))"

subsection \<open>Commitments\<close>

definition merkle_leaves :: "(bytes \<Rightarrow> hash) \<Rightarrow> emission option \<Rightarrow> block_operation list \<Rightarrow> (hash list, codec_error) result" where
  "merkle_leaves sha3 e ops =
     rbind (case e of None \<Rightarrow> Ok [] | Some e \<Rightarrow> rbind (emission_hash sha3 e) (\<lambda>h. Ok [h])) (\<lambda>leaves.
     rbind (collect (map (operation_id sha3) ops)) (\<lambda>ids. Ok (leaves @ ids)))"

definition calculate_merkle_root :: "(bytes \<Rightarrow> hash) \<Rightarrow> emission option \<Rightarrow> block_operation list \<Rightarrow> (hash, codec_error) result" where
  "calculate_merkle_root sha3 e ops =
     (if e = None \<and> ops = [] then Ok (replicate HASH_SIZE 0)
      else rbind (merkle_leaves sha3 e ops) (\<lambda>leaves. ok_or (merkle_root sha3 leaves MerkleNode) InvalidBlock))"

definition is_genesis :: "block \<Rightarrow> bool" where "is_genesis b = (bk_height b = 0)"

definition miner_program_id :: "block \<Rightarrow> program_id" where
  "miner_program_id b = (case bd_emission (bk_body b) of Some e \<Rightarrow> em_to e | None \<Rightarrow> replicate HASH_SIZE 0)"

definition serialized_size :: "block \<Rightarrow> (nat, codec_error) result" where
  "serialized_size b = rbind (block_bytes b) (\<lambda>bs. Ok (length bs))"

definition refresh_block_weight :: "block \<Rightarrow> (block, codec_error) result" where
  "refresh_block_weight b =
     (let b = b\<lparr>bk_header := (bk_header b)\<lparr>hd_block_weight := 0\<rparr>\<rparr> in
      rbind (serialized_size b) (\<lambda>weight.
      rbind (ok_or (try_from_nat weight :: u32 option) EncodeFailed) (\<lambda>w.
      Ok (b\<lparr>bk_header := (bk_header b)\<lparr>hd_block_weight := w\<rparr>\<rparr>))))"

definition from_protocol_operations ::
    "(bytes \<Rightarrow> hash) \<Rightarrow> height \<Rightarrow> hash \<Rightarrow> u32 \<Rightarrow> nonce \<Rightarrow> emission option \<Rightarrow> block_operation list \<Rightarrow> (block, codec_error) result" where
  "from_protocol_operations sha3 height previous target nonce e ops =
     rbind (calculate_merkle_root sha3 e ops) (\<lambda>root.
       refresh_block_weight \<lparr>bk_header = \<lparr>hd_previous_hash = previous, hd_merkle_root = root, hd_state_root = replicate HASH_SIZE 0,
           hd_target_bits = target, hd_block_weight = 0, hd_nonce = nonce\<rparr>,
         bk_height = height, bk_body = \<lparr>bd_emission = e, bd_operations = ops\<rparr>\<rparr>)"

definition genesis :: "(bytes \<Rightarrow> hash) \<Rightarrow> (block, codec_error) result" where
  "genesis sha3 = from_protocol_operations sha3 0 (replicate HASH_SIZE 0) GENESIS_TARGET_BITS 0 None []"

definition refresh_commitments :: "(bytes \<Rightarrow> hash) \<Rightarrow> block \<Rightarrow> (block, codec_error) result" where
  "refresh_commitments sha3 b =
     rbind (calculate_merkle_root sha3 (bd_emission (bk_body b)) (bd_operations (bk_body b))) (\<lambda>root.
       refresh_block_weight (b\<lparr>bk_header := (bk_header b)\<lparr>hd_merkle_root := root\<rparr>\<rparr>))"

definition push_operation :: "(bytes \<Rightarrow> hash) \<Rightarrow> block \<Rightarrow> block_operation \<Rightarrow> (block, codec_error) result" where
  "push_operation sha3 b op =
     refresh_commitments sha3 (b\<lparr>bk_body := (bk_body b)\<lparr>bd_operations := bd_operations (bk_body b) @ [op]\<rparr>\<rparr>)"

definition operation_inclusion_proof :: "(bytes \<Rightarrow> hash) \<Rightarrow> block \<Rightarrow> nat \<Rightarrow> (merkle_inclusion_proof, codec_error) result" where
  "operation_inclusion_proof sha3 b index =
     (if index \<ge> length (bd_operations (bk_body b)) then Err InvalidBlock
      else rbind (merkle_leaves sha3 (bd_emission (bk_body b)) (bd_operations (bk_body b))) (\<lambda>leaves.
        ok_or (merkle_create sha3 leaves ((if bd_emission (bk_body b) \<noteq> None then 1 else 0) + index) MerkleNode) InvalidBlock))"

subsection \<open>Structural validation\<close>

fun has_duplicate_operations :: "(bytes \<Rightarrow> hash) \<Rightarrow> hash set \<Rightarrow> block_operation list \<Rightarrow> (bool, codec_error) result" where
  "has_duplicate_operations sha3 seen [] = Ok False"
| "has_duplicate_operations sha3 seen (op # ops) =
     rbind (operation_id sha3 op) (\<lambda>i. if i \<in> seen then Ok True else has_duplicate_operations sha3 (insert i seen) ops)"

definition operations_are_structurally_valid :: "block_operation list \<Rightarrow> bool" where
  "operations_are_structurally_valid ops = list_all (\<lambda>op. operation_validate op = Ok ()) ops"

text \<open>The counter that refuses to pass its maximum (\<open>CappedCounter\<close>), fed chunk by chunk.\<close>

fun capped_write :: "nat \<Rightarrow> nat \<Rightarrow> bytes list \<Rightarrow> nat option" where
  "capped_write maximum count [] = Some count"
| "capped_write maximum count (chunk # chunks) =
     (if count + length chunk > maximum then None else capped_write maximum (count + length chunk) chunks)"

lemma capped_write_iff:
  "count \<le> maximum \<Longrightarrow> capped_write maximum count chunks =
     (if count + length (concat chunks) \<le> maximum then Some (count + length (concat chunks)) else None)"
  by (induction chunks arbitrary: count) (auto simp: add.assoc)

definition block_chunks :: "block \<Rightarrow> bytes list" where
  "block_chunks b = [enc_header (bk_header b), u64_le (bk_height b), enc_option enc_emission (bd_emission (bk_body b)),
     u32_le (of_nat (length (bd_operations (bk_body b))))] @ map enc_operation (bd_operations (bk_body b))"

definition validate_structure :: "(bytes \<Rightarrow> hash) \<Rightarrow> block \<Rightarrow> (unit, block_error) result" where
  "validate_structure sha3 b =
     (let ops = bd_operations (bk_body b); e = bd_emission (bk_body b); weight = unat (hd_block_weight (bk_header b)) in
      if length ops > MAX_BLOCK_OPERATIONS then Err InvalidOperation
      else if is_genesis b \<and> e \<noteq> None then Err UnexpectedEmission
      else if is_genesis b \<and> length ops \<noteq> 0 then Err InvalidOperation
      else if \<not> is_genesis b \<and> e = None then Err MissingEmission
      else if \<not> operations_are_structurally_valid ops then Err InvalidOperation
      else if weight > MAX_BLOCK_SIZE then Err BlockTooHeavy
      else rbind (if encodable_block b then ok_or (capped_write MAX_BLOCK_SIZE 0 (block_chunks b)) BlockTooHeavy else Err BlockTooHeavy) (\<lambda>size.
        if weight < size then Err InvalidBlockWeight
        else if list_ex (\<lambda>op. \<not> encodable_operation op \<or> length (enc_operation op) > MAX_OPERATION_SIZE) ops then Err InvalidOperation
        else rbind (map_err Serialization (has_duplicate_operations sha3 {} ops)) (\<lambda>dup.
          if dup then Err DuplicateOperation
          else rbind (map_err Serialization (calculate_merkle_root sha3 e ops)) (\<lambda>root.
            if hd_merkle_root (bk_header b) \<noteq> root then Err InvalidMerkleRoot else Ok ()))))"

definition decode_block :: "(bytes \<Rightarrow> hash) \<Rightarrow> bytes \<Rightarrow> (block, codec_error) result" where
  "decode_block sha3 bs =
     (if length bs > MAX_BLOCK_SIZE then Err InvalidBlock
      else rbind (ok_or (try_from_slice dec_block bs) InvalidBlock) (\<lambda>b.
        rbind (map_err (\<lambda>_. InvalidBlock) (validate_structure sha3 b)) (\<lambda>_. Ok b)))"


subsection \<open>Decoding is exact\<close>

definition ok_header :: "header \<Rightarrow> bool" where
  "ok_header h = (length (hd_previous_hash h) = HASH_SIZE \<and> length (hd_merkle_root h) = HASH_SIZE \<and> length (hd_state_root h) = HASH_SIZE)"

interpretation headerc: codec enc_header dec_header ok_header
  unfolding dec_header_def
  by (rule codec_struct [OF codec_pair [OF arrayc.codec_axioms codec_pair [OF arrayc.codec_axioms codec_pair [OF arrayc.codec_axioms
        codec_pair [OF u32c.codec_axioms codec_pair [OF u32c.codec_axioms u64c.codec_axioms]]]]],
        where g = "\<lambda>h. (hd_previous_hash h, hd_merkle_root h, hd_state_root h, hd_target_bits h, hd_block_weight h, hd_nonce h)"])
    (auto simp: enc_header_def enc_pair_def ok_header_def)

definition ok_emission :: "emission \<Rightarrow> bool" where "ok_emission e = (length (em_to e) = HASH_SIZE)"

interpretation emissionc: codec enc_emission dec_emission ok_emission
  unfolding dec_emission_def
  by (rule codec_struct [OF codec_pair [OF arrayc.codec_axioms u64c.codec_axioms], where g = "\<lambda>e. (em_to e, em_subsidy e)"])
    (auto simp: enc_emission_def enc_pair_def ok_emission_def)

definition ok_block :: "block \<Rightarrow> bool" where
  "ok_block b = (ok_header (bk_header b) \<and> pred_option ok_emission (bd_emission (bk_body b)) \<and>
     ok_vec MAX_BLOCK_OPERATIONS (\<lambda>op. ok_operation op \<and> length (enc_operation op) \<le> MAX_OPERATION_SIZE) (bd_operations (bk_body b)))"

interpretation blockc: codec enc_block dec_block ok_block
proof -
  have le: "MAX_BLOCK_OPERATIONS \<le> U32_MAX" by (simp add: MAX_BLOCK_OPERATIONS_def U32_MAX_def)
  show "codec enc_block dec_block ok_block"
    unfolding dec_block_def deserialize_block_operations_def
    by (rule codec_struct [OF codec_pair [OF headerc.codec_axioms codec_pair [OF u64c.codec_axioms codec_pair
          [OF codec_option [OF emissionc.codec_axioms] codec_vec [OF codec_limited [OF operationc.codec_axioms] le]]]],
          where g = "\<lambda>b. (bk_header b, bk_height b, bd_emission (bk_body b), bd_operations (bk_body b))"])
      (auto simp: enc_block_def enc_pair_def ok_block_def)
qed

lemma concat_block_chunks: "concat (block_chunks b) = enc_block b"
  by (simp add: block_chunks_def enc_block_def enc_vec_def enc_seq_def)

lemma validate_structure_Ok:
  assumes "validate_structure sha3 b = Ok ()"
  defines "ops \<equiv> bd_operations (bk_body b)"
  shows "length ops \<le> MAX_BLOCK_OPERATIONS" "list_all (\<lambda>op. operation_validate op = Ok ()) ops"
    "encodable_block b" "length (enc_block b) \<le> unat (hd_block_weight (bk_header b))" "unat (hd_block_weight (bk_header b)) \<le> MAX_BLOCK_SIZE"
    "list_all (\<lambda>op. encodable_operation op \<and> length (enc_operation op) \<le> MAX_OPERATION_SIZE) ops"
    "has_duplicate_operations sha3 {} ops = Ok False"
    "calculate_merkle_root sha3 (bd_emission (bk_body b)) ops = Ok (hd_merkle_root (bk_header b))"
    "bd_emission (bk_body b) = None \<longleftrightarrow> is_genesis b" "is_genesis b \<Longrightarrow> ops = []"
  using assms(1) unfolding ops_def
  by (auto simp: validate_structure_def Let_def result_simps operations_are_structurally_valid_def capped_write_iff concat_block_chunks
      list_ex_iff list_all_iff not_le not_less split: if_splits)


text \<open>
  The fixed-width arrays of the source are byte strings here; \<open>typed_block\<close> says they have their width.
\<close>

definition typed_transition :: "coin_transition \<Rightarrow> bool" where
  "typed_transition t = (length (ct_signer t) = HASH_SIZE \<and> list_all (\<lambda>h. length h = HASH_SIZE) (ct_inputs t) \<and>
     list_all ok_coin_output (ct_outputs t))"

fun typed_operation :: "block_operation \<Rightarrow> bool" where
  "typed_operation (DeployProgram d) = (length (dp_owner (ad_deploy d)) = HASH_SIZE \<and> typed_transition (ad_payment d) \<and>
     length (aa_salt (ad_authorization d)) = AUTHORIZATION_SALT_SIZE)"
| "typed_operation (ProgramCall v) = (length (pi_signer v) = HASH_SIZE \<and> typed_transition (pi_payment v) \<and>
     length (aa_salt (pi_authorization v)) = AUTHORIZATION_SALT_SIZE)"

definition typed_block :: "block \<Rightarrow> bool" where
  "typed_block b = (ok_header (bk_header b) \<and> pred_option ok_emission (bd_emission (bk_body b)) \<and>
     list_all typed_operation (bd_operations (bk_body b)))"

lemma asset_payload_size:
  assumes "asset_decode opc p = Ok c"
  shows "length p < 65536"
proof -
  have p: "p = enc_asset_call c" "ok_asset_call c" "length p \<le> max_payload_size (opcode_of c)"
    using assms by (simp_all add: asset_decode_iff asset_call_accepted_def)
  show ?thesis
  proof (cases c)
    case (Transfer t)
    have ins: "length (enc_seq enc_array xs) \<le> 32 * length xs" if "list_all (\<lambda>h. length h = HASH_SIZE) xs" for xs
      using that by (induction xs) (simp_all add: enc_seq_def enc_array_def HASH_SIZE_def)
    have outs: "length (enc_seq enc_asset_output xs) \<le> 49 * length xs" if "list_all ok_asset_output xs" for xs
      using that by (induction xs) (simp_all add: enc_seq_def enc_asset_output_def enc_owner_def enc_array_def ok_asset_output_def ok_owner_def HASH_SIZE_def)
    have "length (enc_seq enc_array (tf_inputs t)) \<le> 32 * 256" "length (enc_seq enc_asset_output (tf_outputs t)) \<le> 49 * 256"
      using ins [of "tf_inputs t"] outs [of "tf_outputs t"] p(2) by (simp_all add: Transfer ok_vec_def MAX_ASSET_INPUTS_def MAX_ASSET_OUTPUTS_def)
    then show ?thesis using p(1,2) by (simp add: Transfer enc_transfer_def enc_vec_def enc_array_def HASH_SIZE_def)
  qed (use p(3) in simp_all)
qed

lemma decode_program_payload: "decode_program c = Ok d \<Longrightarrow> ok_program_call c"
proof -
  assume d: "decode_program c = Ok d"
  have "length p \<le> 65536" if "monetary_decode opc p = Ok m" for opc p m
    using that by (auto simp: monetary_decode_def result_simps Suc_le_eq split: if_splits list.splits dest!: asset_payload_size)
  then show "ok_program_call c" using d
    by (fastforce simp: ok_program_call_def MAX_PROGRAM_PAYLOAD_SIZE_def MAX_DATA_BYTES_def decode_program_def call_input_def result_simps
        split: if_splits dest: asset_payload_size)
qed

lemma validated_transition: "coin_transition_validate t = Ok () \<Longrightarrow> typed_transition t \<Longrightarrow> ok_transition t"
  by (auto simp: coin_transition_validate_def typed_transition_def ok_transition_def ok_vec_def split: if_splits)

lemma validated_operation:
  "operation_validate op = Ok () \<Longrightarrow> encodable_operation op \<Longrightarrow> typed_operation op \<Longrightarrow> ok_operation op"
  by (cases op) (auto simp: deploy_validate_def invocation_validate_def result_simps ok_authorized_deploy_def ok_deploy_def ok_authorization_def
      ok_invocation_def validated_transition decode_program_payload split: if_splits)

lemma ok_operation_typed: "ok_operation op \<Longrightarrow> typed_operation op"
  by (cases op) (auto simp: ok_authorized_deploy_def ok_deploy_def ok_authorization_def ok_invocation_def ok_transition_def typed_transition_def ok_vec_def)

lemma ok_block_iff:
  assumes "validate_structure sha3 b = Ok ()"
  shows "ok_block b \<longleftrightarrow> typed_block b"
  using validate_structure_Ok(1,2,6) [OF assms]
  by (auto simp: ok_block_def typed_block_def ok_vec_def list_all_iff ok_operation_typed validated_operation)


subsection \<open>The Merkle root determines the body\<close>

text \<open>
  The hash tree behind a Merkle root, with the message of every leaf. Equal roots of two trees give
  equal trees, or a message of the one and a message of the other on which SHA3-256 collides.
\<close>

datatype hash_tree = Leaf bytes | Node hash_tree hash_tree

fun tree_hash :: "(bytes \<Rightarrow> hash) \<Rightarrow> hash_tree \<Rightarrow> hash" where
  "tree_hash sha3 (Leaf m) = sha3 m"
| "tree_hash sha3 (Node l r) = merkle_parent sha3 MerkleNode (tree_hash sha3 l) (tree_hash sha3 r)"

fun tree_messages :: "(bytes \<Rightarrow> hash) \<Rightarrow> hash_tree \<Rightarrow> bytes set" where
  "tree_messages sha3 (Leaf m) = {m}"
| "tree_messages sha3 (Node l r) =
     insert (frame MerkleNode (tree_hash sha3 l @ tree_hash sha3 r)) (tree_messages sha3 l \<union> tree_messages sha3 r)"

fun fringe :: "hash_tree \<Rightarrow> bytes list" where
  "fringe (Leaf m) = [m]"
| "fringe (Node l r) = fringe l @ fringe r"

fun tree_level :: "hash_tree list \<Rightarrow> hash_tree list" where
  "tree_level (l # r # rest) = Node l r # tree_level rest"
| "tree_level ts = ts"

lemma tree_level_hash: "map (tree_hash sha3) (tree_level ts) = merkle_parent_level sha3 MerkleNode (map (tree_hash sha3) ts)"
  by (induction ts rule: tree_level.induct) simp_all

lemma tree_level_fringe: "concat (map fringe (tree_level ts)) = concat (map fringe ts)"
  by (induction ts rule: tree_level.induct) simp_all

lemma length_tree_level: "length (tree_level ts) = (length ts + 1) div 2"
  by (induction ts rule: tree_level.induct) simp_all

function tree_top :: "hash_tree list \<Rightarrow> hash_tree list" where
  "tree_top ts = (if length ts > 1 then tree_top (tree_level ts) else ts)"
  by auto
termination
  by (relation "measure length") (auto simp: length_tree_level)

declare tree_top.simps [simp del]

lemma tree_of_root:
  "ts \<noteq> [] \<Longrightarrow> \<exists>t. tree_top ts = [t] \<and> merkle_top sha3 MerkleNode (map (tree_hash sha3) ts) = [tree_hash sha3 t] \<and>
     fringe t = concat (map fringe ts)"
proof (induction ts rule: tree_top.induct)
  case (1 ts)
  show ?case
  proof (cases "length ts > 1")
    case True
    then have "tree_level ts \<noteq> []" using length_tree_level [of ts] by auto
    from 1(1) [OF True this] show ?thesis
      using True by (subst merkle_top.simps, subst tree_top.simps) (simp add: tree_level_hash tree_level_fringe)
  next
    case False
    then obtain t where "ts = [t]" using 1(2) by (cases ts) auto
    then show ?thesis by (simp add: merkle_top.simps tree_top.simps)
  qed
qed

definition leaf_message :: "bytes \<Rightarrow> bool" where
  "leaf_message m \<longleftrightarrow> (\<exists>d payload. d \<noteq> MerkleNode \<and> length payload < 2 ^ 40 \<and> m = frame d payload)"

lemma leaf_not_node:
  assumes "leaf_message m" "length l = 32" "length r = 32"
  shows "m \<noteq> frame MerkleNode (l @ r)"
proof -
  obtain d p where "d \<noteq> MerkleNode" "length p < 2 ^ 40" "m = frame d p" using assms(1) unfolding leaf_message_def by blast
  then show ?thesis using frame_inj [of d p MerkleNode "l @ r"] assms(2,3) by auto
qed

lemma equal_roots:
  assumes sized: "\<And>m. length (sha3 m) = 32"
  shows "\<forall>m \<in> set (fringe t). leaf_message m \<Longrightarrow> \<forall>m \<in> set (fringe t'). leaf_message m \<Longrightarrow> tree_hash sha3 t = tree_hash sha3 t' \<Longrightarrow>
    t = t' \<or> (\<exists>x \<in> tree_messages sha3 t. \<exists>y \<in> tree_messages sha3 t'. collides sha3 x y)"
proof (induction t arbitrary: t')
  case (Leaf m)
  have len: "length (tree_hash sha3 u) = 32" for u by (cases u) (simp_all add: sized merkle_parent_def domain_def)
  show ?case using Leaf leaf_not_node [OF _ len len]
    by (cases t') (auto simp: collides_def merkle_parent_def domain_def)
next
  case (Node l r)
  have len: "length (tree_hash sha3 u) = 32" for u by (cases u) (simp_all add: sized merkle_parent_def domain_def)
  show ?case
  proof (cases t')
    case (Leaf m)
    then show ?thesis using Node.prems leaf_not_node [OF _ len len, of m l r]
      by (auto simp: collides_def merkle_parent_def domain_def)
  next
    case (Node l' r')
    let ?x = "frame MerkleNode (tree_hash sha3 l @ tree_hash sha3 r)" and ?y = "frame MerkleNode (tree_hash sha3 l' @ tree_hash sha3 r')"
    show ?thesis
    proof (cases "?x = ?y")
      case True
      then have "tree_hash sha3 l @ tree_hash sha3 r = tree_hash sha3 l' @ tree_hash sha3 r'"
        using frame_inj [of MerkleNode "tree_hash sha3 l @ tree_hash sha3 r" MerkleNode] by (simp add: len)
      then have "tree_hash sha3 l = tree_hash sha3 l'" "tree_hash sha3 r = tree_hash sha3 r'" by (simp_all add: len)
      moreover have "\<forall>m \<in> set (fringe l). leaf_message m" "\<forall>m \<in> set (fringe r). leaf_message m"
        "\<forall>m \<in> set (fringe l'). leaf_message m" "\<forall>m \<in> set (fringe r'). leaf_message m" using Node.prems(1,2) Node by auto
      ultimately show ?thesis using Node.IH(1) [of l'] Node.IH(2) [of r'] unfolding Node by (auto simp: Bex_def)
    next
      case False
      then have "collides sha3 ?x ?y" using Node.prems(3) Node by (simp add: collides_def merkle_parent_def domain_def)
      then show ?thesis unfolding Node by auto
    qed
  qed
qed


definition body_messages :: "body \<Rightarrow> bytes list" where
  "body_messages d = (case bd_emission d of None \<Rightarrow> [] | Some e \<Rightarrow> [frame Emission (enc_emission e)]) @
     map (\<lambda>op. frame Operation (enc_operation op)) (bd_operations d)"

definition body_tree :: "body \<Rightarrow> hash_tree" where
  "body_tree d = hd (tree_top (map Leaf (body_messages d)))"

lemma collect_ids:
  "list_all encodable_operation ops \<Longrightarrow> collect (map (operation_id sha3) ops) = Ok (map (\<lambda>op. sha3 (frame Operation (enc_operation op))) ops)"
  by (induction ops) (simp_all add: operation_id_def canonical_bytes_def domain_def)

lemma root_is_tree_hash:
  assumes "calculate_merkle_root sha3 (bd_emission d) (bd_operations d) = Ok root" "list_all encodable_operation (bd_operations d)"
    and "bd_emission d \<noteq> None"
  shows "root = tree_hash sha3 (body_tree d) \<and> fringe (body_tree d) = body_messages d"
proof -
  have leaves: "merkle_leaves sha3 (bd_emission d) (bd_operations d) = Ok (map (tree_hash sha3) (map Leaf (body_messages d)))"
    using assms(2) by (auto simp: merkle_leaves_def emission_hash_def canonical_bytes_def collect_ids domain_def body_messages_def split: option.splits)
  have ne: "map Leaf (body_messages d) \<noteq> []" using assms(3) by (auto simp: body_messages_def)
  obtain t where t: "tree_top (map Leaf (body_messages d)) = [t]" "fringe t = body_messages d"
    "merkle_top sha3 MerkleNode (map (tree_hash sha3) (map Leaf (body_messages d))) = [tree_hash sha3 t]"
    using tree_of_root [OF ne, of sha3] by (auto simp: comp_def)
  then show ?thesis using assms(1,3) leaves ne
    by (simp add: calculate_merkle_root_def merkle_root_def body_tree_def)
qed

lemma body_messages_inj:
  assumes "body_messages d = body_messages d'" "bd_emission d = Some e" "bd_emission d' = Some e'" "ok_emission e" "ok_emission e'"
    and "list_all (\<lambda>op. ok_operation op \<and> length (enc_operation op) < 2 ^ 40) (bd_operations d)"
    and "list_all (\<lambda>op. ok_operation op \<and> length (enc_operation op) < 2 ^ 40) (bd_operations d')"
  shows "d = d'"
proof -
  have len: "length (enc_emission x) < 2 ^ 40" if "ok_emission x" for x
    using that by (simp add: enc_emission_def enc_array_def ok_emission_def HASH_SIZE_def)
  have "frame Emission (enc_emission e) = frame Emission (enc_emission e')"
    and ops: "map (\<lambda>op. frame Operation (enc_operation op)) (bd_operations d) = map (\<lambda>op. frame Operation (enc_operation op)) (bd_operations d')"
    using assms(1-3) by (simp_all add: body_messages_def)
  then have "enc_emission e @ [] = enc_emission e' @ []" using frame_inj [OF _ len [OF assms(4)] len [OF assms(5)]] by simp
  then have "e = e'" using emissionc.enc_inj [OF assms(4,5)] by blast
  moreover have "bd_operations d = bd_operations d'"
  proof (rule map_inj_on [OF ops], rule inj_onI)
    fix x y
    assume "x \<in> set (bd_operations d) \<union> set (bd_operations d')" "y \<in> set (bd_operations d) \<union> set (bd_operations d')"
    then have ok: "ok_operation x" "ok_operation y" "length (enc_operation x) < 2 ^ 40" "length (enc_operation y) < 2 ^ 40"
      using assms(6,7) by (auto simp: list_all_iff)
    assume "frame Operation (enc_operation x) = frame Operation (enc_operation y)"
    then have "enc_operation x @ [] = enc_operation y @ []" using frame_inj [OF _ ok(3,4)] by simp
    then show "x = y" using operationc.enc_inj [OF ok(1,2)] by blast
  qed
  ultimately show ?thesis using assms(2,3) by (cases d; cases d') simp
qed


lemma body_commitment:
  assumes sized: "\<And>m. length (sha3 m) = 32"
    and v: "validate_structure sha3 b = Ok ()" "validate_structure sha3 b' = Ok ()" "typed_block b" "typed_block b'"
    and g: "\<not> is_genesis b" "\<not> is_genesis b'" and root: "hd_merkle_root (bk_header b) = hd_merkle_root (bk_header b')"
  shows "bk_body b = bk_body b' \<or>
    (\<exists>x \<in> tree_messages sha3 (body_tree (bk_body b)). \<exists>y \<in> tree_messages sha3 (body_tree (bk_body b')). collides sha3 x y)"
proof -
  have facts: "(\<exists>e. bd_emission (bk_body c) = Some e \<and> ok_emission e) \<and>
      list_all (\<lambda>op. ok_operation op \<and> length (enc_operation op) < 2 ^ 40) (bd_operations (bk_body c)) \<and>
      hd_merkle_root (bk_header c) = tree_hash sha3 (body_tree (bk_body c)) \<and> fringe (body_tree (bk_body c)) = body_messages (bk_body c)"
    if "validate_structure sha3 c = Ok ()" "typed_block c" "\<not> is_genesis c" for c
  proof -
    have "ok_block c" using that ok_block_iff by blast
    moreover have "bd_emission (bk_body c) \<noteq> None" using validate_structure_Ok(9) [OF that(1)] that(3) by simp
    moreover have "list_all encodable_operation (bd_operations (bk_body c))" using validate_structure_Ok(6) [OF that(1)] by (simp add: list_all_iff)
    ultimately show ?thesis using root_is_tree_hash [OF validate_structure_Ok(8) [OF that(1)]]
      by (auto simp: ok_block_def ok_vec_def list_all_iff MAX_OPERATION_SIZE_def MAX_BLOCK_SIZE_def)
  qed
  have leaf: "\<forall>m \<in> set (body_messages (bk_body c)). leaf_message m"
    if em: "\<exists>e. bd_emission (bk_body c) = Some e \<and> ok_emission e" and
      "list_all (\<lambda>op. ok_operation op \<and> length (enc_operation op) < 2 ^ 40) (bd_operations (bk_body c))" for c
  proof -
    obtain e where e: "bd_emission (bk_body c) = Some e" "ok_emission e" using em by blast
    then have "length (enc_emission e) < 2 ^ 40" by (simp add: enc_emission_def enc_array_def ok_emission_def HASH_SIZE_def)
    then have "leaf_message (frame Emission (enc_emission e))" unfolding leaf_message_def by blast
    moreover have "leaf_message (frame Operation (enc_operation op))" if "op \<in> set (bd_operations (bk_body c))" for op
      using \<open>list_all _ _\<close> that unfolding leaf_message_def list_all_iff by blast
    ultimately show ?thesis using e by (auto simp: body_messages_def)
  qed
  note f = facts [OF v(1,3) g(1)] and f' = facts [OF v(2,4) g(2)]
  have lf: "\<forall>m \<in> set (fringe (body_tree (bk_body b))). leaf_message m" using f leaf [of b] by simp
  have lf': "\<forall>m \<in> set (fringe (body_tree (bk_body b'))). leaf_message m" using f' leaf [of b'] by simp
  have "tree_hash sha3 (body_tree (bk_body b)) = tree_hash sha3 (body_tree (bk_body b'))" using f f' root by simp
  from equal_roots [OF sized lf lf' this]
  consider "body_tree (bk_body b) = body_tree (bk_body b')"
    | "\<exists>x \<in> tree_messages sha3 (body_tree (bk_body b)). \<exists>y \<in> tree_messages sha3 (body_tree (bk_body b')). collides sha3 x y" by blast
  then show ?thesis
  proof cases
    case 1
    then have "body_messages (bk_body b) = body_messages (bk_body b')" using f f' by simp
    then have "bk_body b = bk_body b'" using f f' body_messages_inj [of "bk_body b" "bk_body b'"] by blast
    then show ?thesis ..
  qed blast
qed

subsection \<open>The rules of a block\<close>

text \<open>What a payment, an operation and a block must satisfy on their own, stated without the validators.\<close>

definition payment_rules :: "coin_transition \<Rightarrow> bool" where
  "payment_rules t \<longleftrightarrow> ct_inputs t \<noteq> [] \<and> distinct (ct_inputs t) \<and> length (ct_inputs t) \<le> MAX_PROGRAM_ITEMS \<and>
     length (ct_outputs t) \<le> MAX_PROGRAM_ITEMS \<and> (\<forall>out \<in> set (ct_outputs t). co_amount out \<noteq> 0) \<and>
     (ct_outputs t \<noteq> [] \<or> ct_miner_fee t \<noteq> 0)"

definition authorization_rules :: "account_authorization \<Rightarrow> bool" where
  "authorization_rules a \<longleftrightarrow> public_key_valid (aa_public_key a) \<and> signature_valid (aa_signature a)"

fun operation_rules :: "block_operation \<Rightarrow> bool" where
  "operation_rules (DeployProgram d) \<longleftrightarrow> dp_code (ad_deploy d) \<noteq> [] \<and> length (dp_code (ad_deploy d)) \<le> MAX_PROGRAM_CODE_SIZE \<and>
     (\<exists>c. validate_code (dp_code (ad_deploy d)) = Ok c) \<and> payment_rules (ad_payment d) \<and> authorization_rules (ad_authorization d)"
| "operation_rules (ProgramCall v) \<longleftrightarrow> (\<exists>c. decode_program (pi_call v) = Ok c) \<and> payment_rules (pi_payment v) \<and>
     pi_signer v = ct_signer (pi_payment v) \<and> authorization_rules (pi_authorization v)"

definition operation_digest :: "(bytes \<Rightarrow> hash) \<Rightarrow> block_operation \<Rightarrow> hash" where
  "operation_digest sha3 op = domain sha3 Operation (enc_operation op)"

definition block_rules :: "(bytes \<Rightarrow> hash) \<Rightarrow> block \<Rightarrow> bool" where
  "block_rules sha3 b \<longleftrightarrow>
     (let ops = bd_operations (bk_body b); weight = unat (hd_block_weight (bk_header b)) in
      length ops \<le> MAX_BLOCK_OPERATIONS \<and>
      (\<forall>op \<in> set ops. operation_rules op \<and> length (enc_operation op) \<le> MAX_OPERATION_SIZE) \<and>
      distinct (map (operation_digest sha3) ops) \<and>
      length (enc_block b) \<le> weight \<and> weight \<le> MAX_BLOCK_SIZE \<and>
      (case bd_emission (bk_body b) of
         None \<Rightarrow> bk_height b = 0 \<and> ops = [] \<and> hd_merkle_root (bk_header b) = replicate 32 0
       | Some e \<Rightarrow> bk_height b \<noteq> 0 \<and>
           merkle_root sha3 (domain sha3 Emission (enc_emission e) # map (operation_digest sha3) ops) MerkleNode =
             Some (hd_merkle_root (bk_header b))))"

lemma coin_transition_validate_iff: "coin_transition_validate t = Ok () \<longleftrightarrow> payment_rules t"
  by (auto simp: coin_transition_validate_def payment_rules_def list_ex_iff split: if_splits)

lemma operation_rules_iff: "operation_rules op \<longleftrightarrow> operation_validate op = Ok () \<and> encodable_operation op"
proof -
  have p: "payment_rules t \<Longrightarrow> encodable_transition t" for t
    by (auto simp: payment_rules_def encodable_transition_def MAX_PROGRAM_ITEMS_def U32_MAX_def)
  have c: "decode_program c = Ok d \<Longrightarrow> length (pc_payload c) \<le> U32_MAX" for c d
    using decode_program_payload [of c d] by (simp add: ok_program_call_def MAX_PROGRAM_PAYLOAD_SIZE_def U32_MAX_def)
  have k: "n \<le> MAX_PROGRAM_CODE_SIZE \<Longrightarrow> n \<le> U32_MAX" for n by (simp add: MAX_PROGRAM_CODE_SIZE_def U32_MAX_def)
  show ?thesis
    by (cases op) (auto simp: deploy_validate_def invocation_validate_def result_simps coin_transition_validate_iff authorization_rules_def
        p c k split: if_splits)
qed

lemma has_duplicate_operations_iff:
  "list_all encodable_operation ops \<Longrightarrow> has_duplicate_operations sha3 seen ops =
     Ok (\<not> (distinct (map (operation_digest sha3) ops) \<and> operation_digest sha3 ` set ops \<inter> seen = {}))"
  by (induction ops arbitrary: seen)
    (auto simp: operation_id_def canonical_bytes_def operation_digest_def)

lemma calculate_merkle_root_iff:
  assumes "list_all encodable_operation ops"
  shows "calculate_merkle_root sha3 e ops = Ok root \<longleftrightarrow>
    (case e of
       None \<Rightarrow> if ops = [] then root = replicate 32 0 else merkle_root sha3 (map (operation_digest sha3) ops) MerkleNode = Some root
     | Some e \<Rightarrow> merkle_root sha3 (domain sha3 Emission (enc_emission e) # map (operation_digest sha3) ops) MerkleNode = Some root)"
proof -
  have "collect (map (operation_id sha3) ops) = Ok (map (operation_digest sha3) ops)"
    using collect_ids [OF assms] by (simp add: operation_digest_def domain_def)
  then show ?thesis
    by (auto simp: calculate_merkle_root_def merkle_leaves_def emission_hash_def canonical_bytes_def result_simps HASH_SIZE_def split: option.splits)
qed

lemma validate_structure_iff: "validate_structure sha3 b = Ok () \<longleftrightarrow> block_rules sha3 b"
proof -
  let ?ops = "bd_operations (bk_body b)"
  have le: "length ?ops \<le> MAX_BLOCK_OPERATIONS \<Longrightarrow> length ?ops \<le> U32_MAX" by (simp add: MAX_BLOCK_OPERATIONS_def U32_MAX_def)
  have empty: "calculate_merkle_root sha3 None [] = Ok (replicate 32 0)" by (simp add: calculate_merkle_root_def HASH_SIZE_def)
  show ?thesis
  proof (cases "list_all encodable_operation ?ops")
    case True
    then show ?thesis using le
      by (auto simp: validate_structure_def block_rules_def Let_def result_simps operations_are_structurally_valid_def capped_write_iff
          concat_block_chunks list_ex_iff list_all_iff not_le not_less operation_rules_iff encodable_block_def is_genesis_def
          has_duplicate_operations_iff [OF True] calculate_merkle_root_iff [OF True] empty split: if_splits option.splits)
  next
    case False
    then have "\<not> block_rules sha3 b" by (auto simp: block_rules_def Let_def operation_rules_iff list_all_iff)
    moreover have "validate_structure sha3 b \<noteq> Ok ()" using False validate_structure_Ok(3) by (auto simp: encodable_block_def)
    ultimately show ?thesis by blast
  qed
qed

subsection \<open>Properties\<close>

text \<open>
  C12. The block decoder accepts exactly the encodings of blocks that obey the block rules: a slice decodes
  to a block if and only if it is that block's encoding, its fixed-width fields have their width, and the block
  has an emission exactly above genesis, no operations at genesis, at most the maximal number of
  operations, each following the operation rules within its size limit and with its own identifier, a weight
  between its encoded size and the size limit, and the Merkle root of its emission and operations.
\<close>

theorem decode_block_exact:
  "decode_block sha3 bs = Ok b \<longleftrightarrow> typed_block b \<and> block_rules sha3 b \<and> bs = enc_block b"
proof -
  have "length (enc_block b) \<le> MAX_BLOCK_SIZE" if "validate_structure sha3 b = Ok ()"
    using validate_structure_Ok(4,5) [OF that] by linarith
  then have "decode_block sha3 bs = Ok b \<longleftrightarrow> typed_block b \<and> validate_structure sha3 b = Ok () \<and> bs = enc_block b"
    by (auto simp: decode_block_def result_simps blockc.try_from_slice_iff ok_block_iff split: if_splits)
  then show ?thesis by (simp add: validate_structure_iff)
qed

text \<open>
  C4. The Merkle root in a header commits to the whole body: two structurally valid blocks above
  genesis with the same root have the same emission and operations, or the hash trees of their
  bodies contain two messages on which SHA3-256 collides. SHA3-256 enters by its output size only.
\<close>

theorem merkle_root_commits:
  assumes "\<And>m. length (sha3 m) = 32"
    and "validate_structure sha3 b = Ok ()" and "validate_structure sha3 b' = Ok ()" and "typed_block b" and "typed_block b'"
    and "\<not> is_genesis b" and "\<not> is_genesis b'" and "hd_merkle_root (bk_header b) = hd_merkle_root (bk_header b')"
  shows "bk_body b = bk_body b' \<or>
    (\<exists>x \<in> tree_messages sha3 (body_tree (bk_body b)). \<exists>y \<in> tree_messages sha3 (body_tree (bk_body b')). collides sha3 x y)"
  using assms by (rule body_commitment)

definition sample_block :: "zeno \<Rightarrow> block" where
  "sample_block subsidy = \<lparr>bk_header = \<lparr>hd_previous_hash = replicate 32 0, hd_merkle_root = replicate 32 0, hd_state_root = replicate 32 0,
       hd_target_bits = 0, hd_block_weight = 200, hd_nonce = 0\<rparr>,
     bk_height = 1, bk_body = \<lparr>bd_emission = Some \<lparr>em_to = replicate 32 9, em_subsidy = subsidy\<rparr>, bd_operations = []\<rparr>\<rparr>"

lemma sample_block_valid:
  "validate_structure (\<lambda>_. replicate 32 0) (sample_block subsidy) = Ok ()" "typed_block (sample_block subsidy)" "\<not> is_genesis (sample_block subsidy)"
  by (simp_all add: validate_structure_def sample_block_def MAX_BLOCK_OPERATIONS_def is_genesis_def operations_are_structurally_valid_def
      MAX_BLOCK_SIZE_def encodable_block_def U32_MAX_def capped_write_iff concat_block_chunks enc_block_def enc_header_def enc_array_def
      enc_emission_def enc_vec_def enc_seq_def calculate_merkle_root_def merkle_leaves_def emission_hash_def canonical_bytes_def domain_def
      merkle_root_def merkle_top.simps typed_block_def ok_header_def ok_emission_def HASH_SIZE_def)

theorem merkle_root_commits_witness:
  "\<exists>x \<in> tree_messages (\<lambda>_. replicate 32 0) (body_tree (bk_body (sample_block 1))).
   \<exists>y \<in> tree_messages (\<lambda>_. replicate 32 0) (body_tree (bk_body (sample_block 2))). collides (\<lambda>_. replicate 32 0 :: hash) x y"
proof -
  have "bk_body (sample_block 1) \<noteq> bk_body (sample_block 2)" "hd_merkle_root (bk_header (sample_block 1)) = hd_merkle_root (bk_header (sample_block 2))"
    by (simp_all add: sample_block_def)
  then show ?thesis
    using merkle_root_commits [OF _ sample_block_valid(1) sample_block_valid(1) sample_block_valid(2) sample_block_valid(2)
        sample_block_valid(3) sample_block_valid(3), of 1 2] by simp
qed

end
