(* ===== verification/Target.thy ===== *)
theory Target
  imports Prelude
begin

unbundle bit_operations_syntax

section \<open>Proof-of-work targets (\<^verbatim>\<open>kernel/src/consensus/target.rs\<close>)\<close>

text \<open>
  A target is a 256-bit number, kept as 32 big-endian bytes; a block header carries it in
  the compact form of 32 bits (8 bits of exponent, a sign bit, 23 bits of mantissa). The
  definitions follow the byte loops of the code: \<open>from_compact\<close> and \<open>to_compact\<close> place and
  read bytes by index, \<open>scale_ratio\<close> multiplies and divides byte by byte with a \<open>u32\<close>
  carry. The lemmas relate them to arithmetic on \<open>be_val\<close>, the number a target stands for.
\<close>

definition POW_HASH_SIZE :: nat where "POW_HASH_SIZE = 32"
definition COMPACT_MANTISSA_MASK :: u32 where "COMPACT_MANTISSA_MASK = 0x007fffff"
definition COMPACT_SIGN_MASK :: u32 where "COMPACT_SIGN_MASK = 0x00800000"
definition POW_LIMIT_BITS :: u32 where "POW_LIMIT_BITS = 0x201fffff"

lemmas target_consts = POW_HASH_SIZE_def COMPACT_MANTISSA_MASK_def COMPACT_SIGN_MASK_def POW_LIMIT_BITS_def

type_synonym pow_target = bytes

definition target_is_zero :: "bytes \<Rightarrow> bool" where
  "target_is_zero bs = list_all (\<lambda>b. b = 0) bs"

definition from_bytes :: "bytes \<Rightarrow> pow_target option" where
  "from_bytes bs = (if target_is_zero bs then None else Some bs)"

text \<open>\<open>hash <= target\<close> on byte arrays is the lexicographic order.\<close>

definition meets :: "pow_target \<Rightarrow> bytes \<Rightarrow> bool" where
  "meets target hash = (hash \<le> target)"

subsection \<open>Scaling\<close>

text \<open>
  The multiplication loop runs from the last byte to the first; the result is the product's
  low bytes and the carry out of the first byte.
\<close>

fun mul_bytes :: "bytes \<Rightarrow> u32 \<Rightarrow> (bytes \<times> u32) option" where
  "mul_bytes [] numerator = Some ([], 0)"
| "mul_bytes (b # bs) numerator =
     Option.bind (mul_bytes bs numerator) (\<lambda>(wide, carry).
     Option.bind (checked_mul (ucast b) numerator) (\<lambda>product.
     Option.bind (checked_add product carry) (\<lambda>product.
       Some (ucast (product AND 0xff) # wide, drop_bit 8 product))))"

fun div_bytes :: "u32 \<Rightarrow> bytes \<Rightarrow> u32 \<Rightarrow> bytes" where
  "div_bytes remainder [] denominator = []"
| "div_bytes remainder (b # bs) denominator =
     (let value = push_bit 8 remainder OR ucast b
      in ucast (value div denominator) # div_bytes (value mod denominator) bs denominator)"

definition scale_ratio :: "pow_target \<Rightarrow> u32 \<Rightarrow> u32 \<Rightarrow> pow_target option" where
  "scale_ratio t numerator denominator =
     (if numerator = 0 \<or> denominator = 0 \<or> numerator > 255 \<or> denominator > 255 then None
      else Option.bind (mul_bytes t numerator) (\<lambda>(low, carry).
        if carry > 255 then None
        else
          let wide = div_bytes 0 (ucast carry # low) denominator
          in if hd wide \<noteq> 0 then None
             else
               let result = tl wide
               in if list_all (\<lambda>b. b = 0) result then Some (result[POW_HASH_SIZE - 1 := 1])
                  else Some result))"

subsection \<open>Compact form\<close>

text \<open>
  \<open>from_compact\<close> writes the mantissa bytes into a zero array: the loop over
  \<open>0..size\<close> for exponents up to three, otherwise the loop over the three mantissa bytes
  whose index may fall outside the array on either side.
\<close>

fun place_mantissa :: "int \<Rightarrow> bytes \<Rightarrow> bytes \<Rightarrow> bytes option" where
  "place_mantissa index [] bs = Some bs"
| "place_mantissa index (b # rest) bs =
     (if index < 0 then (if b \<noteq> 0 then None else place_mantissa (index + 1) rest bs)
      else if index \<ge> int POW_HASH_SIZE then place_mantissa (index + 1) rest bs
      else place_mantissa (index + 1) rest (bs[nat index := b]))"

definition compact_overflow :: "u32 \<Rightarrow> nat \<Rightarrow> bool" where
  "compact_overflow mantissa sz =
     (sz > 34 \<or> (mantissa > 0xff \<and> sz > 33) \<or> (mantissa > 0xffff \<and> sz > 32))"

definition mantissa_bytes :: "u32 \<Rightarrow> bytes" where
  "mantissa_bytes mantissa =
     [ucast (drop_bit 16 mantissa AND 0xff), ucast (drop_bit 8 mantissa AND 0xff), ucast (mantissa AND 0xff)]"

definition place_small :: "u32 \<Rightarrow> nat \<Rightarrow> bytes" where
  "place_small mantissa sz =
     (let value = drop_bit (8 * (3 - sz)) mantissa
      in foldl (\<lambda>bs index. bs[POW_HASH_SIZE - sz + index :=
             ucast (drop_bit (8 * (sz - 1 - index)) value AND 0xff)])
           (replicate POW_HASH_SIZE 0) [0..<sz])"

definition from_compact :: "u32 \<Rightarrow> pow_target option" where
  "from_compact compact =
     (let sz = unat (drop_bit 24 compact);
          mantissa = compact AND COMPACT_MANTISSA_MASK
      in if compact AND COMPACT_SIGN_MASK \<noteq> 0 then None
         else if sz = 0 \<or> mantissa = 0 then None
         else if compact_overflow mantissa sz then None
         else if sz \<le> 3 then from_bytes (place_small mantissa sz)
         else Option.bind
                (place_mantissa (int POW_HASH_SIZE - int sz) (mantissa_bytes mantissa)
                   (replicate POW_HASH_SIZE 0))
                from_bytes)"

text \<open>\<open>to_compact\<close> finds the first nonzero byte and reads up to three bytes from there.\<close>

fun position_nonzero :: "bytes \<Rightarrow> nat option" where
  "position_nonzero [] = None"
| "position_nonzero (b # bs) = (if b \<noteq> 0 then Some 0 else map_option Suc (position_nonzero bs))"

definition byte_at :: "bytes \<Rightarrow> nat \<Rightarrow> u32" where
  "byte_at bs i = (if i < length bs then ucast (bs ! i) else 0)"

definition raw_mantissa :: "pow_target \<Rightarrow> nat \<Rightarrow> u32 \<Rightarrow> u32" where
  "raw_mantissa t first sz =
     (if sz \<le> 3 then
        push_bit (8 * (3 - unat sz)) (foldl (\<lambda>value b. push_bit 8 value OR ucast b) 0 (drop first t))
      else push_bit 16 (byte_at t first) OR push_bit 8 (byte_at t (first + 1)) OR byte_at t (first + 2))"

definition to_compact :: "pow_target \<Rightarrow> u32" where
  "to_compact t =
     (case position_nonzero t of
        None \<Rightarrow> 0
      | Some first \<Rightarrow>
          let sz = of_nat (POW_HASH_SIZE - first) :: u32;
              mantissa = raw_mantissa t first sz;
              (mantissa, sz) = (if mantissa AND COMPACT_SIGN_MASK \<noteq> 0
                                then (drop_bit 8 mantissa, sz + 1) else (mantissa, sz))
          in push_bit 24 sz OR (mantissa AND COMPACT_MANTISSA_MASK))"

text \<open>\<open>pow_limit\<close> decodes a constant; the \<open>expect\<close> on it is \<open>None\<close> here.\<close>

definition pow_limit :: "pow_target option" where
  "pow_limit = from_compact POW_LIMIT_BITS"

definition scale_ratio_consensus :: "pow_target \<Rightarrow> u32 \<Rightarrow> u32 \<Rightarrow> pow_target option" where
  "scale_ratio_consensus t numerator denominator =
     (if numerator = 0 \<or> denominator = 0 \<or> numerator > 255 \<or> denominator > 255 then None
      else Option.bind pow_limit (\<lambda>limit.
        case scale_ratio t numerator denominator of
          Some target \<Rightarrow> Some (min target limit)
        | None \<Rightarrow> if numerator > denominator then Some limit else None))"

definition from_consensus_compact :: "u32 \<Rightarrow> pow_target option" where
  "from_consensus_compact compact =
     Option.bind (from_compact compact) (\<lambda>target.
       if to_compact target \<noteq> compact then None
       else Option.bind pow_limit (\<lambda>limit. if target > limit then None else Some target))"

definition hash_meets_target :: "bytes \<Rightarrow> pow_target \<Rightarrow> bool" where
  "hash_meets_target hash target = meets target hash"

subsection \<open>Scaling is multiplication and floor division\<close>

lemma mul_bytes_correct:
  assumes n: "unat numerator \<le> 255" "0 < unat numerator"
  shows "\<exists>low carry. mul_bytes bs numerator = Some (low, carry) \<and> length low = length bs \<and>
    unat carry * 2 ^ (8 * length bs) + be_val low = be_val bs * unat numerator \<and>
    unat carry < unat numerator"
proof (induction bs)
  case Nil
  then show ?case using n by simp
next
  case (Cons b bs)
  obtain low carry where IH: "mul_bytes bs numerator = Some (low, carry)" "length low = length bs"
    "unat carry * 2 ^ (8 * length bs) + be_val low = be_val bs * unat numerator"
    "unat carry < unat numerator"
    using Cons by blast
  let ?n = "unat numerator" and ?P = "unat b * unat numerator + unat carry"
  have b: "unat (ucast b :: u32) = unat b" "unat b \<le> 255"
    using unat_bound [of b] by (auto simp: unat_ucast_up simp del: unsigned_less)
  have "unat b * ?n \<le> 255 * ?n" using b(2) by (intro mult_right_mono) auto
  then have P: "?P < 256 * ?n" using IH(4) by linarith
  then have P32: "?P < 2 ^ 32" using n(1) by simp
  have "unat b * ?n < 2 ^ 32" using P32 by linarith
  then obtain p where p: "checked_mul (ucast b) numerator = Some p" "unat p = unat b * ?n"
    using b(1) by (cases "checked_mul (ucast b) numerator") (auto simp: checked_simps)
  obtain q where q: "checked_add p carry = Some q" "unat q = ?P"
    using P32 p(2) by (cases "checked_add p carry") (auto simp: checked_simps)
  have "unat (ucast (q AND 0xff) :: u8) = ?P mod 256"
    by (simp add: unat_ucast unat_and_255 q(2))
  moreover have "unat (drop_bit 8 q) = ?P div 256" by (simp add: unat_drop_bit q(2))
  moreover have "?P div 256 < ?n" using P by (simp add: less_mult_imp_div_less mult.commute)
  moreover have "(?P div 256) * 2 ^ (8 * length (b # bs)) + ((?P mod 256) * 2 ^ (8 * length bs) + be_val low) =
      be_val (b # bs) * ?n"
  proof -
    define B :: nat where "B = 2 ^ (8 * length bs)"
    have "?P div 256 * (256 * B) + ?P mod 256 * B = ?P * B" by (rule div_mod_scale)
    moreover have "2 ^ (8 * length (b # bs)) = 256 * B" "be_val (b # bs) = unat b * B + be_val bs"
      by (simp_all add: B_def power_add)
    ultimately show ?thesis
      using IH(3) unfolding B_def [symmetric] by (simp add: algebra_simps del: be_val.simps)
  qed
  ultimately show ?case using IH p q by simp
qed

lemma div_bytes_correct:
  assumes "0 < unat d" and "unat d \<le> 255"
  shows "unat r < unat d \<Longrightarrow>
    be_val (div_bytes r bs d) = (unat r * 2 ^ (8 * length bs) + be_val bs) div unat d \<and>
    length (div_bytes r bs d) = length bs"
proof (induction bs arbitrary: r)
  case (Cons b bs)
  let ?v = "push_bit 8 r OR ucast b :: u32" and ?V = "unat r * 256 + unat b" and ?B = "2 ^ (8 * length bs) :: nat"
  have "push_bit 8 r AND (ucast b :: u32) = 0"
    by (rule bit_word_eqI) (auto simp: bit_simps dest: bit_imp_le_length)
  moreover have "unat (push_bit 8 r) = unat r * 256"
    using Cons.prems assms by (simp add: unat_push_bit)
  ultimately have v: "unat ?v = ?V" by (simp add: unat_or_disjoint unat_ucast_up)
  have b: "unat b < 256" using unat_bound [of b] by simp
  have V: "?V < unat d * 256" using Cons.prems b by (simp add: algebra_simps)
  then have q: "unat (ucast (?v div d) :: u8) = ?V div unat d"
    by (simp add: unat_ucast unat_div v less_mult_imp_div_less)
  have r: "unat (?v mod d) = ?V mod unat d" by (simp add: unat_mod v)
  have IH: "be_val (div_bytes (?v mod d) bs d) = (?V mod unat d * ?B + be_val bs) div unat d"
    "length (div_bytes (?v mod d) bs d) = length bs"
    using Cons.IH [of "?v mod d"] r assms by simp_all
  have "?V * ?B = (?V div unat d) * ?B * unat d + ?V mod unat d * ?B"
    using div_mod_scale [of ?V "unat d" ?B] by (simp only: mult_ac)
  then have eq: "unat r * 2 ^ (8 * length (b # bs)) + be_val (b # bs) =
      (?V div unat d) * ?B * unat d + (?V mod unat d * ?B + be_val bs)"
    by (simp add: power_add distrib_right)
  have "(unat r * 2 ^ (8 * length (b # bs)) + be_val (b # bs)) div unat d =
      (?V div unat d) * ?B + (?V mod unat d * ?B + be_val bs) div unat d"
    unfolding eq by (rule div_mult_self3) (use assms(1) in simp)
  then show ?case using q IH by (simp add: Let_def)
qed simp

lemma be_val_hd:
  assumes "xs \<noteq> []"
  shows "hd xs = (0 :: u8) \<longleftrightarrow> be_val xs < 2 ^ (8 * (length xs - 1))"
proof -
  obtain y ys where xs: "xs = y # ys" using assms by (cases xs) auto
  have "unat y \<noteq> 0 \<Longrightarrow> 2 ^ (8 * length ys) \<le> unat y * 2 ^ (8 * length ys) + be_val ys"
    by (cases "unat y") simp_all
  then show ?thesis using be_val_bound [of ys] xs by (auto simp: unat_eq_zero not_less [symmetric])
qed

lemma all_zero_iff: "list_all (\<lambda>b. b = 0) bs \<longleftrightarrow> be_val bs = 0"
  by (simp add: be_val_eq_0 list_all_iff)

lemma be_val_set_last:
  assumes "length bs = Suc k" and "be_val bs = 0"
  shows "be_val (bs[k := 1 :: u8]) = 1"
proof -
  have "bs = replicate (Suc k) 0"
    using assms by (simp add: be_val_eq_0 replicate_eqI del: replicate_Suc)
  also have "\<dots> = replicate k 0 @ [0]" by (simp add: replicate_append_same)
  finally have "bs[k := 1] = replicate k 0 @ [1]" by (simp add: list_update_append)
  then show ?thesis by (simp add: be_val_append)
qed

lemma scale_ratio_correct:
  assumes len: "length t = 32"
    and n: "0 < unat n" "unat n \<le> 255" and d: "0 < unat d" "unat d \<le> 255"
  defines "q \<equiv> be_val t * unat n div unat d"
  shows "2 ^ 256 \<le> q \<Longrightarrow> scale_ratio t n d = None"
    and "q < 2 ^ 256 \<Longrightarrow> \<exists>t'. scale_ratio t n d = Some t' \<and> length t' = 32 \<and> be_val t' = max 1 q"
proof -
  obtain low carry where m: "mul_bytes t n = Some (low, carry)" "length low = 32"
    "unat carry * 2 ^ 256 + be_val low = be_val t * unat n" "unat carry < unat n"
    using mul_bytes_correct [OF n(2,1), of t] len by auto
  let ?w = "div_bytes 0 (ucast carry # low) d"
  have "unat (ucast carry :: u8) = unat carry" using m(4) n by (simp add: unat_ucast)
  then have w: "be_val ?w = q" "length ?w = 33"
    using div_bytes_correct [OF d, of 0 "ucast carry # low"] m(2,3) d(1) by (simp_all add: q_def)
  then have hd: "hd ?w = 0 \<longleftrightarrow> q < 2 ^ 256" using be_val_hd [of ?w] by force
  obtain h r where hr: "?w = h # r" using w(2) by (cases ?w) auto
  have guard: "\<not> (n = 0 \<or> d = 0 \<or> n > 255 \<or> d > 255)" "\<not> carry > 255"
    using n d m(4) by (auto simp: word_less_nat_alt)
  have unf: "scale_ratio t n d =
      (if h \<noteq> 0 then None else if list_all (\<lambda>b. b = 0) r then Some (r[31 := 1]) else Some r)"
    using guard m(1) hr by (simp add: scale_ratio_def Let_def POW_HASH_SIZE_def del: div_bytes.simps)
  show "2 ^ 256 \<le> q \<Longrightarrow> scale_ratio t n d = None" using unf hd hr by auto
  assume q: "q < 2 ^ 256"
  then have r: "be_val r = q" "length r = 32" using hd hr w by auto
  then show "\<exists>t'. scale_ratio t n d = Some t' \<and> length t' = 32 \<and> be_val t' = max 1 q"
    using unf hd hr q be_val_set_last [of r 31] by (auto simp: all_zero_iff)
qed

lemma scale_ratio_guard:
  "unat n = 0 \<or> unat d = 0 \<or> 255 < unat n \<or> 255 < unat d \<Longrightarrow> scale_ratio t n d = None"
  by (auto simp: scale_ratio_def word_less_nat_alt unat_eq_zero)

subsection \<open>Decoding is exponent times mantissa\<close>

lemma be_val_update:
  "i < length bs \<Longrightarrow> bs ! i = 0 \<Longrightarrow>
   be_val (bs[i := x :: 'a::len word]) = be_val bs + unat x * 2 ^ (LENGTH('a) * (length bs - Suc i))"
proof (induction bs arbitrary: i)
  case (Cons b bs)
  then show ?case by (cases i) auto
qed simp

text \<open>The fields of a compact number, as arithmetic.\<close>

definition compact_size :: "u32 \<Rightarrow> nat" where "compact_size c = unat c div 2 ^ 24"
definition compact_mantissa :: "u32 \<Rightarrow> nat" where "compact_mantissa c = unat c mod 2 ^ 23"
definition compact_negative :: "u32 \<Rightarrow> bool" where "compact_negative c = odd (unat c div 2 ^ 23)"

definition compact_value :: "u32 \<Rightarrow> nat" where
  "compact_value c = compact_mantissa c * 256 ^ compact_size c div 256 ^ 3"

lemma compact_mantissa_bound: "compact_mantissa c < 2 ^ 23"
  by (simp add: compact_mantissa_def)

lemma unat_mantissa_mask: "unat (c AND COMPACT_MANTISSA_MASK) = unat c mod 2 ^ 23"
  using unat_and_mask [of c 23] by (simp add: COMPACT_MANTISSA_MASK_def mask_eq_exp_minus_1)

lemma sign_mask_iff: "c AND COMPACT_SIGN_MASK \<noteq> 0 \<longleftrightarrow> odd (unat c div 2 ^ 23)"
proof -
  have "COMPACT_SIGN_MASK = 2 ^ 23" by (simp add: COMPACT_SIGN_MASK_def)
  then have "c AND COMPACT_SIGN_MASK \<noteq> 0 \<longleftrightarrow> bit c 23"
    by (metis and_exp_eq_0_iff_not_bit)
  also have "\<dots> \<longleftrightarrow> odd (unat c div 2 ^ 23)" by (metis bit_iff_odd bit_unsigned_iff bit_imp_possible_bit possible_bit_nat)
  finally show ?thesis .
qed

lemma two_bytes: "m < 65536 \<Longrightarrow> m div 256 mod 256 * 256 + m mod 256 = (m :: nat)"
  by (simp add: div_less_iff_less_mult)

lemma three_bytes:
  "m < 2 ^ 24 \<Longrightarrow> m div 65536 mod 256 * 65536 + (m div 256 mod 256 * 256 + m mod 256) = (m :: nat)"
proof -
  assume "m < 2 ^ 24"
  then have "m div 65536 mod 256 = m div 65536" by (simp add: div_less_iff_less_mult)
  moreover have "m = m div 65536 * 65536 + m mod 65536" by simp
  moreover have "m mod 65536 = m mod 65536 div 256 * 256 + m mod 65536 mod 256" by simp
  moreover have "m mod 65536 div 256 = m div 256 mod 256" using mod_mult2_eq [of m 256 256]
    by (simp add: mod_mult2_eq)
  moreover have "m mod 65536 mod 256 = m mod 256" by (simp add: mod_mod_cancel)
  ultimately show ?thesis by metis
qed

lemma unat_byte_of: "unat (ucast (drop_bit k x AND 0xff :: u32) :: u8) = unat x div 2 ^ k mod 256"
  by (simp add: unat_ucast unat_and_255 unat_drop_bit)

lemma unat_low_byte: "unat (ucast (x AND 0xff :: u32) :: u8) = unat x mod 256"
  by (simp add: unat_ucast unat_and_255)

lemma place_small_correct:
  assumes "sz = 1 \<or> sz = 2 \<or> sz = 3" and "unat m < 2 ^ 24"
  shows "length (place_small m sz) = 32" and "be_val (place_small m sz) = unat m div 256 ^ (3 - sz)"
proof -
  have upt: "[0..<Suc 0] = [0]" "[0..<2] = [0, 1]" "[0..<3] = [0, 1, 2]" by (simp_all add: upt_rec)
  show "length (place_small m sz) = 32"
    using assms(1) by (auto simp: place_small_def Let_def upt POW_HASH_SIZE_def)
  have v: "unat m div 65536 < 256" "unat m div 256 < 65536" using assms(2) by (simp_all add: div_less_iff_less_mult)
  consider "sz = 1" | "sz = 2" | "sz = 3" using assms(1) by blast
  then show "be_val (place_small m sz) = unat m div 256 ^ (3 - sz)"
  proof cases
    case 1
    then show ?thesis using v
      by (simp add: place_small_def Let_def upt POW_HASH_SIZE_def be_val_update unat_low_byte unat_drop_bit)
  next
    case 2
    then have "be_val (place_small m sz) = unat m div 256 div 256 mod 256 * 256 + unat m div 256 mod 256"
      by (simp add: place_small_def Let_def upt POW_HASH_SIZE_def be_val_update unat_low_byte unat_byte_of unat_drop_bit
          flip: div_mult2_eq)
    also have "\<dots> = unat m div 256" using v(2) by (rule two_bytes)
    finally show ?thesis using 2 by simp
  next
    case 3
    then have "be_val (place_small m sz) = unat m div 65536 mod 256 * 65536 + (unat m div 256 mod 256 * 256 + unat m mod 256)"
      by (simp add: place_small_def Let_def upt POW_HASH_SIZE_def be_val_update unat_low_byte unat_byte_of unat_drop_bit)
    also have "\<dots> = unat m" using assms(2) by (rule three_bytes)
    finally show ?thesis using 3 by simp
  qed
qed

lemma place_mantissa_in_range:
  assumes "i \<le> 29"
  shows "\<exists>t. place_mantissa (int i) [a, b, c] (replicate 32 0) = Some t \<and> length t = 32 \<and>
    be_val t = (unat a * 65536 + (unat b * 256 + unat c)) * 256 ^ (29 - i)"
proof -
  let ?z = "replicate 32 (0 :: u8)"
  have step: "place_mantissa (int i) [a, b, c] ?z = Some (?z[i := a, Suc i := b, Suc (Suc i) := c])"
    using assms by (simp add: POW_HASH_SIZE_def nat_add_distrib)
  have j: "32 - Suc i = Suc (Suc (29 - i))" "32 - Suc (Suc i) = Suc (29 - i)" "32 - Suc (Suc (Suc i)) = 29 - i"
    using assms by simp_all
  have "be_val (?z[i := a, Suc i := b, Suc (Suc i) := c]) =
      unat a * 2 ^ (8 * (32 - Suc i)) + unat b * 2 ^ (8 * (32 - Suc (Suc i))) +
      unat c * 2 ^ (8 * (32 - Suc (Suc (Suc i))))"
    using assms by (simp add: be_val_update)
  then show ?thesis using step unfolding j power_mult by (simp add: algebra_simps)
qed

lemma place_mantissa_cut1:
  "\<exists>t. place_mantissa (- 1) [0, b, c] (replicate 32 0) = Some t \<and> length t = 32 \<and>
     be_val t = (unat b * 256 + unat c) * 256 ^ 30"
  by (simp add: POW_HASH_SIZE_def be_val_update)

lemma place_mantissa_cut2:
  "\<exists>t. place_mantissa (- 2) [0, 0, c] (replicate 32 0) = Some t \<and> length t = 32 \<and>
     be_val t = unat c * 256 ^ 31"
  by (simp add: POW_HASH_SIZE_def be_val_update)

lemma from_bytes_correct:
  "from_bytes bs = (if be_val bs = 0 then None else Some bs)"
  by (simp add: from_bytes_def target_is_zero_def all_zero_iff)

lemma unat_compact_mantissa: "unat (c AND COMPACT_MANTISSA_MASK) = compact_mantissa c"
  by (simp add: unat_mantissa_mask compact_mantissa_def)

lemma unat_compact_mantissa_bound: "unat (c AND COMPACT_MANTISSA_MASK) < 2 ^ 24"
  unfolding unat_compact_mantissa by (rule less_trans [OF compact_mantissa_bound]) simp

lemma from_compact_unfold:
  "from_compact c =
     (if compact_negative c \<or> compact_size c = 0 \<or> compact_mantissa c = 0 then None
      else if compact_size c > 34 \<or> compact_mantissa c > 255 \<and> compact_size c > 33 \<or>
        compact_mantissa c > 65535 \<and> compact_size c > 32 then None
      else if compact_size c \<le> 3 then from_bytes (place_small (c AND COMPACT_MANTISSA_MASK) (compact_size c))
      else Option.bind (place_mantissa (32 - int (compact_size c)) (mantissa_bytes (c AND COMPACT_MANTISSA_MASK))
        (replicate 32 0)) from_bytes)"
proof -
  have sz: "unat (drop_bit 24 c) = compact_size c" by (simp add: compact_size_def unat_drop_bit)
  have w0: "c AND COMPACT_MANTISSA_MASK = 0 \<longleftrightarrow> compact_mantissa c = 0"
    by (simp add: unat_compact_mantissa [symmetric] unat_eq_zero)
  show ?thesis
    unfolding from_compact_def Let_def sz sign_mask_iff compact_negative_def [symmetric] w0
      compact_overflow_def word_less_nat_alt POW_HASH_SIZE_def unat_compact_mantissa
    by simp
qed

lemma mantissa_bytes_sum:
  assumes "unat w < 2 ^ 24"
  obtains a b c where "mantissa_bytes w = [a, b, c]" "unat a * 65536 + (unat b * 256 + unat c) = unat w"
    "unat w < 65536 \<Longrightarrow> a = 0" "unat w < 256 \<Longrightarrow> b = 0"
proof
  let ?a = "ucast (drop_bit 16 w AND 0xff) :: u8" and ?b = "ucast (drop_bit 8 w AND 0xff) :: u8"
    and ?c = "ucast (w AND 0xff) :: u8"
  have p: "(2 :: nat) ^ 16 = 65536" "(2 :: nat) ^ 8 = 256" by simp_all
  show "mantissa_bytes w = [?a, ?b, ?c]" by (simp add: mantissa_bytes_def)
  show "unat ?a * 65536 + (unat ?b * 256 + unat ?c) = unat w"
    by (simp only: unat_low_byte unat_drop_bit p three_bytes [OF assms])
  show "unat w < 65536 \<Longrightarrow> ?a = 0" "unat w < 256 \<Longrightarrow> ?b = 0"
    by (simp_all only: unat_eq_zero [symmetric] unat_byte_of) simp_all
qed

lemma compact_value_le3: "compact_size c \<le> 3 \<Longrightarrow> compact_value c = compact_mantissa c div 256 ^ (3 - compact_size c)"
proof -
  assume sz: "compact_size c \<le> 3"
  have "(256::nat) ^ 3 = 256 ^ (3 - compact_size c) * 256 ^ compact_size c"
    using sz by (simp flip: power_add)
  then show ?thesis unfolding compact_value_def by (simp only: div_mult_mult2 power_not_zero zero_neq_numeral not_False_eq_True)
qed

lemma compact_value_ge3: "3 \<le> compact_size c \<Longrightarrow> compact_value c = compact_mantissa c * 256 ^ (compact_size c - 3)"
proof -
  assume sz: "3 \<le> compact_size c"
  have "(256::nat) ^ compact_size c = 256 ^ (compact_size c - 3) * 256 ^ 3"
    unfolding power_add [symmetric] using sz by simp
  then have "compact_mantissa c * 256 ^ compact_size c = compact_mantissa c * 256 ^ (compact_size c - 3) * 256 ^ 3"
    by (simp only: mult.assoc)
  then show ?thesis unfolding compact_value_def by (simp only: nonzero_mult_div_cancel_right power_not_zero zero_neq_numeral not_False_eq_True)
qed


lemma mantissa_times_bound:
  fixes m k :: nat
  assumes "m < 2 ^ 8 * 2 ^ (8 * j)" and "j + k \<le> 31"
  shows "m * 256 ^ k < 2 ^ 256"
proof -
  have "m * 256 ^ k < (2 ^ 8 * 2 ^ (8 * j)) * 256 ^ k" using assms(1) by simp
  also have "\<dots> = 2 ^ (8 * (Suc (j + k)))" by (simp add: power_mult power_add)
  also have "\<dots> \<le> 2 ^ 256" using assms(2) by (intro power_increasing) auto
  finally show ?thesis .
qed

lemma from_bytes_Some:
  "length t = 32 \<Longrightarrow> be_val t = v \<Longrightarrow> 0 < v \<Longrightarrow>
    \<exists>u. from_bytes t = Some u \<and> length u = 32 \<and> be_val u = v"
  by (simp add: from_bytes_correct)

lemma from_compact_le3:
  assumes "\<not> compact_negative c" and "compact_size c \<le> 3"
  shows "if compact_value c = 0 then from_compact c = None
    else compact_value c < 2 ^ 256 \<and> (\<exists>t. from_compact c = Some t \<and> length t = 32 \<and> be_val t = compact_value c)"
proof (cases "compact_size c = 0")
  case True
  then show ?thesis using compact_mantissa_bound [of c] assms
    by (simp add: compact_value_le3 from_compact_unfold)
next
  case False
  let ?w = "c AND COMPACT_MANTISSA_MASK"
  note w = unat_compact_mantissa_bound [of c]
  have sz: "compact_size c = 1 \<or> compact_size c = 2 \<or> compact_size c = 3" using False assms by auto
  have v: "be_val (place_small ?w (compact_size c)) = compact_value c"
    using place_small_correct(2) [OF sz w] assms(2) by (simp add: unat_compact_mantissa compact_value_le3)
  have f: "from_compact c = (if compact_value c = 0 then None else Some (place_small ?w (compact_size c)))"
    using assms False v by (auto simp: from_compact_unfold from_bytes_correct compact_value_le3)
  have "compact_value c \<le> compact_mantissa c" using assms(2) by (simp add: compact_value_le3)
  then have "compact_value c < 2 ^ 256" using compact_mantissa_bound [of c] by simp
  then show ?thesis using f v place_small_correct(1) [OF sz w] by simp
qed

lemma from_compact_gt3:
  assumes "\<not> compact_negative c" and "3 < compact_size c" and "compact_mantissa c \<noteq> 0"
  shows "if 2 ^ 256 \<le> compact_value c then from_compact c = None
    else (\<exists>t. from_compact c = Some t \<and> length t = 32 \<and> be_val t = compact_value c)"
proof -
  define m where "m = compact_mantissa c"
  define sz where "sz = compact_size c"
  let ?w = "c AND COMPACT_MANTISSA_MASK"
  have m: "m < 2 ^ 23" unfolding m_def by (rule compact_mantissa_bound)
  obtain a b d where abd: "mantissa_bytes ?w = [a, b, d]" "unat a * 65536 + (unat b * 256 + unat d) = m"
    "m < 65536 \<Longrightarrow> a = 0" "m < 256 \<Longrightarrow> b = 0"
    using mantissa_bytes_sum [OF unat_compact_mantissa_bound [of c]] unfolding unat_compact_mantissa m_def by blast
  have v: "compact_value c = m * 256 ^ (sz - 3)" using assms(2) by (simp add: compact_value_ge3 m_def sz_def)
  have unf: "from_compact c = (if sz > 34 \<or> m > 255 \<and> sz > 33 \<or> m > 65535 \<and> sz > 32 then None
      else Option.bind (place_mantissa (32 - int sz) [a, b, d] (replicate 32 0)) from_bytes)"
    using assms abd(1) by (simp add: from_compact_unfold m_def sz_def)
  have pos: "0 < compact_value c" using assms(3) v by (simp add: m_def)
  have placed: ?thesis if "place_mantissa (32 - int sz) [a, b, d] (replicate 32 0) = Some t" "length t = 32"
    "be_val t = compact_value c" "compact_value c < 2 ^ 256"
    "\<not> (sz > 34 \<or> m > 255 \<and> sz > 33 \<or> m > 65535 \<and> sz > 32)" for t
    using that unf pos by (simp add: from_bytes_correct not_le del: place_mantissa.simps)
  consider "sz \<le> 32" | "sz = 33" "m < 65536" | "sz = 34" "m < 256"
    | "sz = 33" "65536 \<le> m" | "sz = 34" "256 \<le> m" | "34 < sz" by linarith
  then show ?thesis
  proof cases
    case 1
    then have b: "compact_value c < 2 ^ 256"
      unfolding v using m by (intro mantissa_times_bound [of _ 2]) auto
    have "32 - int sz = int (32 - sz)" "29 - (32 - sz) = sz - 3" "32 - sz \<le> 29"
      using 1 assms(2) by (auto simp: sz_def)
    then obtain t where "place_mantissa (32 - int sz) [a, b, d] (replicate 32 0) = Some t" "length t = 32"
      "be_val t = compact_value c"
      using place_mantissa_in_range [of "32 - sz" a b d] unfolding abd(2) v by metis
    then show ?thesis by (rule placed) (use b 1 in auto)
  next
    case 2
    then have v2: "compact_value c < 2 ^ 256" unfolding v by (intro mantissa_times_bound [of _ 1]) auto
    have cut: "32 - int sz = - 1" "sz - 3 = 30" "a = 0" "unat b * 256 + unat d = m" using 2 abd by auto
    obtain t where "place_mantissa (32 - int sz) [a, b, d] (replicate 32 0) = Some t" "length t = 32"
      "be_val t = compact_value c"
      using place_mantissa_cut1 [of b d] unfolding cut v by blast
    then show ?thesis by (rule placed) (use v2 2 in auto)
  next
    case 3
    then have v3: "compact_value c < 2 ^ 256" unfolding v by (intro mantissa_times_bound [of _ 0]) auto
    have cut: "32 - int sz = - 2" "sz - 3 = 31" "a = 0" "b = 0" "unat d = m" using 3 abd by auto
    obtain t where "place_mantissa (32 - int sz) [a, b, d] (replicate 32 0) = Some t" "length t = 32"
      "be_val t = compact_value c"
      using place_mantissa_cut2 [of d] unfolding cut v by blast
    then show ?thesis by (rule placed) (use v3 3 in auto)
  next
    case 6
    then have "(256 :: nat) ^ 32 \<le> 256 ^ (sz - 3)" by (intro power_increasing) auto
    also have "\<dots> \<le> m * 256 ^ (sz - 3)" using assms(3) by (simp add: m_def)
    finally show ?thesis using 6 unf v by simp
  qed (use unf v in simp_all)
qed

lemma from_compact_correct:
  "if compact_negative c \<or> compact_value c = 0 \<or> 2 ^ 256 \<le> compact_value c then from_compact c = None
   else (\<exists>t. from_compact c = Some t \<and> length t = 32 \<and> be_val t = compact_value c)"
proof -
  consider "compact_negative c" | "\<not> compact_negative c" "compact_size c \<le> 3"
    | "\<not> compact_negative c" "3 < compact_size c" "compact_mantissa c = 0"
    | "\<not> compact_negative c" "3 < compact_size c" "compact_mantissa c \<noteq> 0" by linarith
  then show ?thesis
  proof cases
    case 2
    with from_compact_le3 [OF 2] show ?thesis by (auto split: if_splits)
  next
    case 4
    then have "0 < compact_value c" by (simp add: compact_value_ge3)
    with from_compact_gt3 [OF 4] 4 show ?thesis by (auto split: if_splits)
  qed (auto simp: from_compact_unfold compact_value_ge3)
qed


subsection \<open>Encoding keeps the leading bytes\<close>

lemma foldl_push_byte:
  fixes bs :: bytes
  shows "unat acc * 2 ^ (8 * length bs) + be_val bs < 2 ^ 32 \<Longrightarrow>
    unat (foldl (\<lambda>value b. push_bit 8 value OR ucast b) acc bs :: u32) = unat acc * 2 ^ (8 * length bs) + be_val bs"
proof (induction bs arbitrary: acc)
  case (Cons b bs)
  let ?v = "push_bit 8 acc OR ucast b :: u32" and ?B = "2 ^ (8 * length bs) :: nat"
  have e: "unat acc * 2 ^ (8 * length (b # bs)) + be_val (b # bs) = (unat acc * 256 + unat b) * ?B + be_val bs"
    by (simp add: power_add distrib_right)
  have "unat acc * 256 * 1 \<le> (unat acc * 256 + unat b) * ?B + be_val bs"
    by (intro trans_le_add1 mult_mono) auto
  then have "unat acc * 256 < 2 ^ 32" using Cons.prems unfolding e by linarith
  moreover have "push_bit 8 acc AND (ucast b :: u32) = 0"
    by (rule bit_word_eqI) (auto simp: bit_simps dest: bit_imp_le_length)
  ultimately have v: "unat ?v = unat acc * 256 + unat b"
    by (simp add: unat_or_disjoint unat_ucast_up unat_push_bit)
  show ?case using Cons.IH [of ?v] Cons.prems unfolding e v by simp
qed simp

lemma position_nonzero_Some:
  "position_nonzero bs = Some k \<Longrightarrow> k < length bs \<and> bs ! k \<noteq> 0 \<and> bs = replicate k 0 @ drop k bs"
  by (induction bs arbitrary: k) (auto split: if_splits)

lemma position_nonzero_None: "position_nonzero bs = None \<longleftrightarrow> be_val bs = 0"
  by (induction bs) (auto simp: unat_eq_zero)

lemma be_val_position:
  assumes "position_nonzero t = Some k"
  shows "be_val t = be_val (drop k t)" and "2 ^ (8 * (length t - Suc k)) \<le> be_val t"
    and "be_val t < 2 ^ (8 * (length t - k))"
proof -
  note k = position_nonzero_Some [OF assms]
  show v: "be_val t = be_val (drop k t)" using k be_val_append [of "replicate k 0" "drop k t"] by simp
  show "be_val t < 2 ^ (8 * (length t - k))" unfolding v using be_val_bound [of "drop k t"] by simp
  have "drop k t = t ! k # drop (Suc k) t" using k by (simp add: Cons_nth_drop_Suc)
  moreover have "0 < unat (t ! k)" using k by (simp add: unat_eq_zero zero_less_iff_neq_zero)
  ultimately show "2 ^ (8 * (length t - Suc k)) \<le> be_val t" unfolding v by (simp add: trans_le_add1)
qed

lemma three_bytes_word:
  "unat (push_bit 16 (ucast a) OR push_bit 8 (ucast b) OR ucast c :: u32) =
    unat (a :: u8) * 65536 + unat (b :: u8) * 256 + unat (c :: u8)"
proof -
  have "(push_bit 16 (ucast a) OR push_bit 8 (ucast b) OR ucast c :: u32) =
      foldl (\<lambda>value b. push_bit 8 value OR ucast b) 0 [a, b, c]"
    by (simp only: foldl_Cons foldl_Nil push_bit_of_0 or.left_neutral push_bit_or push_bit_push_bit or.assoc) simp
  moreover have "unat (0 :: u32) * 2 ^ (8 * length [a, b, c]) + be_val [a, b, c] < 2 ^ 32"
    using be_val_bound [of "[a, b, c]"] by simp
  ultimately show ?thesis by (simp only: foldl_push_byte) simp
qed


lemma raw_mantissa_correct:
  assumes len: "length t = 32" and k: "position_nonzero t = Some k"
  defines "s \<equiv> 32 - k"
  shows "unat (raw_mantissa t k (of_nat s)) = be_val t * 256 ^ 3 div 256 ^ s"
proof -
  let ?d = "drop k t"
  note kt = position_nonzero_Some [OF k]
  have s: "0 < s" "s \<le> 32" "length ?d = s" using kt len by (auto simp: s_def)
  have us: "unat (of_nat s :: u32) = s" using s by (simp add: unat_of_nat)
  note v = be_val_position [OF k]
  show ?thesis
  proof (cases "s \<le> 3")
    case True
    have b: "be_val ?d < 256 ^ s" using v(1,3) len by (simp add: s_def power_mult)
    have "256 ^ s * 256 ^ (3 - s) = (2 :: nat) ^ 24" unfolding power_add [symmetric] using True by simp
    then have lt: "be_val ?d * 256 ^ (3 - s) < 2 ^ 24"
      using b by (metis mult_less_cancel2 zero_less_numeral zero_less_power)
    have "be_val ?d * 1 \<le> be_val ?d * 256 ^ (3 - s)" by (intro mult_le_mono) auto
    then have "be_val ?d < 2 ^ 24" using lt by linarith
    then have "be_val ?d < 2 ^ 32" by (rule less_trans) simp
    then have "unat (foldl (\<lambda>value b. push_bit 8 value OR ucast b) 0 ?d :: u32) = be_val ?d"
      using foldl_push_byte [of 0 ?d] by simp
    then have "unat (raw_mantissa t k (of_nat s)) = be_val t * 256 ^ (3 - s)"
      using True us lt v(1) by (simp add: raw_mantissa_def word_le_nat_alt unat_push_bit power_mult)
    moreover have "256 ^ 3 = 256 ^ (3 - s) * (256 :: nat) ^ s" unfolding power_add [symmetric] using True by simp
    ultimately show ?thesis
      by (simp only: mult.assoc [symmetric] nonzero_mult_div_cancel_right power_not_zero zero_neq_numeral not_False_eq_True)
  next
    case False
    then obtain a b c r where d: "?d = a # b # c # r"
      using s(3) by (cases ?d; cases "tl ?d"; cases "tl (tl ?d)") auto
    then have nth: "t ! k = a" "t ! (k + 1) = b" "t ! (k + 2) = c" and r: "length r = s - 3"
      using kt s(3) nth_drop [of k t 0] nth_drop [of k t 1] nth_drop [of k t 2] len by (auto simp: s_def)
    have in_t: "k < length t" "k + 1 < length t" "k + 2 < length t" using False len by (auto simp: s_def)
    define M where "M = unat a * 65536 + unat b * 256 + unat c"
    have "unat (raw_mantissa t k (of_nat s)) = M"
      using False us in_t nth by (simp add: raw_mantissa_def word_le_nat_alt byte_at_def three_bytes_word M_def)
    moreover have "be_val t = M * 256 ^ (s - 3) + be_val r"
      unfolding v(1) d using r by (simp add: power_add power_mult M_def distrib_right)
    moreover have "be_val r < 256 ^ (s - 3)" using be_val_bound [of r] r by (simp add: power_mult)
    moreover have "(256 :: nat) ^ s = 256 ^ (s - 3) * 256 ^ 3" unfolding power_add [symmetric] using False by simp
    ultimately show ?thesis
      by (simp only: div_mult_mult2 power_not_zero zero_neq_numeral not_False_eq_True) simp
  qed
qed

text \<open>
  The encoding on numbers: a nonzero number of \<open>s\<close> bytes keeps its three leading bytes, or
  its two leading bytes when the third would set the sign bit.
\<close>

fun byte_len :: "nat \<Rightarrow> nat" where
  "byte_len n = (if n = 0 then 0 else Suc (byte_len (n div 256)))"

declare byte_len.simps [simp del]

definition encode_size :: "nat \<Rightarrow> nat" where
  "encode_size n = (if n * 256 ^ 3 div 256 ^ byte_len n < 2 ^ 23 then byte_len n else Suc (byte_len n))"

definition encode_mantissa :: "nat \<Rightarrow> nat" where
  "encode_mantissa n = n * 256 ^ 3 div 256 ^ encode_size n"

lemma byte_len_bounds: "0 < n \<Longrightarrow> 256 ^ (byte_len n - 1) \<le> n \<and> n < 256 ^ byte_len n \<and> 0 < byte_len n"
proof (induction n rule: byte_len.induct)
  case (1 n)
  show ?case
  proof (cases "n div 256 = 0")
    case True
    then have "byte_len n = 1" using 1 by (simp add: byte_len.simps [of n] byte_len.simps [of 0])
    moreover have "n < 256" using True by (simp add: div_eq_0_iff)
    ultimately show ?thesis using 1 by simp
  next
    case False
    then have IH: "256 ^ (byte_len (n div 256) - 1) \<le> n div 256" "n div 256 < 256 ^ byte_len (n div 256)"
      "0 < byte_len (n div 256)" using 1 by auto
    have eq: "byte_len n = Suc (byte_len (n div 256))" using 1 by (simp add: byte_len.simps [of n])
    have "256 ^ byte_len (n div 256) = 256 * (256 :: nat) ^ (byte_len (n div 256) - 1)"
      using IH(3) by (simp flip: power_Suc)
    then have "256 ^ byte_len (n div 256) \<le> n" using IH(1) by linarith
    moreover have "n < 256 ^ Suc (byte_len (n div 256))" using IH(2) by (simp add: div_less_iff_less_mult mult.commute)
    ultimately show ?thesis by (simp add: eq)
  qed
qed

lemma byte_len_unique: "256 ^ k \<le> n \<Longrightarrow> n < 256 ^ Suc k \<Longrightarrow> byte_len n = Suc k"
proof -
  assume n: "256 ^ k \<le> n" "n < 256 ^ Suc k"
  then have b: "256 ^ (byte_len n - 1) \<le> n" "n < 256 ^ byte_len n" "0 < byte_len n"
    using byte_len_bounds [of n] by (auto intro: less_le_trans [OF _ n(1)])
  have "(256 :: nat) ^ k < 256 ^ byte_len n" "(256 :: nat) ^ (byte_len n - 1) < 256 ^ Suc k" using n b by linarith+
  then show ?thesis by (simp add: power_strict_increasing_iff del: power_Suc)
qed

lemma sign_mask_of_24:
  assumes "unat (w :: u32) < 2 ^ 24"
  shows "w AND COMPACT_SIGN_MASK \<noteq> 0 \<longleftrightarrow> \<not> unat w < 2 ^ 23"
proof -
  have "unat w div 2 ^ 23 = (if unat w < 2 ^ 23 then 0 else 1)"
    using assms by (simp add: div_if) linarith
  then show ?thesis using sign_mask_iff [of w] by simp
qed

lemma compact_parts:
  assumes "m < 2 ^ 23" and "unat c = sz * 2 ^ 24 + m"
  shows "compact_size c = sz" and "compact_mantissa c = m" and "\<not> compact_negative c"
proof -
  have e: "unat c = 2 * sz * 2 ^ 23 + m" using assms(2) by simp
  have "unat c mod 2 ^ 23 = m" unfolding e using assms(1) by (simp only: mod_mult_self3 mod_less)
  moreover have "unat c div 2 ^ 23 = 2 * sz" unfolding e using assms(1) by simp
  ultimately show "compact_size c = sz" "compact_mantissa c = m" "\<not> compact_negative c"
    using assms by (simp_all add: compact_size_def compact_mantissa_def compact_negative_def)
qed


lemma encode_mantissa_bounds:
  assumes "0 < n"
  shows "n * 256 ^ 3 div 256 ^ byte_len n < 2 ^ 24" and "2 ^ 15 \<le> encode_mantissa n"
    and "encode_mantissa n < 2 ^ 23"
proof -
  define k where "k = byte_len n - 1"
  have b: "256 ^ k \<le> n" "n < 256 ^ Suc k" "byte_len n = Suc k" using byte_len_bounds [OF assms] by (auto simp: k_def)
  let ?m = "n * 256 ^ 3 div 256 ^ byte_len n"
  have "256 ^ k * 256 ^ 3 \<le> n * 256 ^ 3" using b(1) by (rule mult_le_mono1)
  then have lo: "2 ^ 16 \<le> ?m" unfolding b(3) by (simp add: less_eq_div_iff_mult_less_eq mult.commute)
  have "n * 256 ^ 3 < 256 ^ Suc k * 256 ^ 3" using b(2) by simp
  then show hi: "?m < 2 ^ 24" unfolding b(3) by (simp add: div_less_iff_less_mult mult.commute)
  have sh: "n * 256 ^ 3 div 256 ^ Suc (byte_len n) = ?m div 256"
    by (simp add: div_mult2_eq [symmetric] mult.commute)
  have "2 ^ 23 \<le> ?m \<Longrightarrow> 2 ^ 15 \<le> ?m div 256" using div_le_mono [of "2 ^ 23" ?m 256] by simp
  moreover have "?m div 256 < 2 ^ 16" using hi by (simp add: div_less_iff_less_mult)
  ultimately show "2 ^ 15 \<le> encode_mantissa n" "encode_mantissa n < 2 ^ 23"
    using lo sh by (auto simp: encode_mantissa_def encode_size_def)
qed

lemma compact_unat_eqI:
  assumes "compact_size c = compact_size d" and "compact_mantissa c = compact_mantissa d"
    and "\<not> compact_negative c" and "\<not> compact_negative d"
  shows "unat c = unat d"
proof -
  have "unat c = compact_size c * 2 ^ 24 + compact_mantissa c" if "\<not> compact_negative c" for c
  proof -
    have "unat c = unat c div 2 ^ 23 * 2 ^ 23 + unat c mod 2 ^ 23" by (rule div_mult_mod_eq [symmetric])
    moreover have "unat c div 2 ^ 23 = 2 * (unat c div 2 ^ 24)"
      using that by (simp add: compact_negative_def) (metis div_mult2_eq even_two_times_div_two mult_2_right numeral_Bit0 numeral_times_numeral semiring_norm(13))
    moreover have "2 * a * 2 ^ 23 = a * 2 ^ 24" for a :: nat by simp
    ultimately show ?thesis unfolding compact_size_def compact_mantissa_def by metis
  qed
  then show ?thesis using assms by metis
qed

lemma to_compact_correct:
  assumes len: "length t = 32" and n: "0 < be_val t"
  shows "compact_size (to_compact t) = encode_size (be_val t)"
    and "compact_mantissa (to_compact t) = encode_mantissa (be_val t)"
    and "\<not> compact_negative (to_compact t)"
proof -
  obtain k where k: "position_nonzero t = Some k" using n position_nonzero_None [of t] by auto
  define s where "s = 32 - k"
  have ks: "k < 32" "s \<le> 32" using position_nonzero_Some [OF k] len by (auto simp: s_def)
  have e: "32 - k = Suc (31 - k)" using ks by simp
  have s: "byte_len (be_val t) = s" unfolding s_def e
    by (rule byte_len_unique) (use be_val_position(2,3) [OF k] len e in \<open>simp_all add: power_mult power_add\<close>)
  let ?m = "raw_mantissa t k (of_nat s)"
  have m: "unat ?m = be_val t * 256 ^ 3 div 256 ^ byte_len (be_val t)"
    unfolding s unfolding s_def by (rule raw_mantissa_correct [OF len k])
  note sign = sign_mask_of_24 [of ?m, unfolded m, OF encode_mantissa_bounds(1) [OF n]]
  define M where "M = (if unat ?m < 2 ^ 23 then ?m else drop_bit 8 ?m)"
  define S :: u32 where "S = (if unat ?m < 2 ^ 23 then of_nat s else of_nat s + 1)"
  have us: "unat (of_nat s :: u32) = s" "unat (of_nat s + 1 :: u32) = Suc s"
    using ks by (simp_all add: unat_of_nat unat_word_ariths)
  have S: "unat S = encode_size (be_val t)" by (simp add: S_def us encode_size_def m s)
  have M: "unat M = encode_mantissa (be_val t)"
    using m by (simp add: M_def encode_mantissa_def encode_size_def unat_drop_bit s div_mult2_eq [symmetric] mult.commute)
  have eq: "to_compact t = push_bit 24 S OR (M AND COMPACT_MANTISSA_MASK)"
    using k sign m by (simp add: to_compact_def POW_HASH_SIZE_def Let_def s_def [symmetric] M_def S_def)
  have M23: "unat M < 2 ^ 23" using encode_mantissa_bounds(3) [OF n] by (simp add: M)
  have "unat (M AND COMPACT_MANTISSA_MASK) < 2 ^ 24" unfolding unat_mantissa_mask using M23 by simp
  then have "push_bit 24 S AND (M AND COMPACT_MANTISSA_MASK) = 0" by (rule push_bit_and_small)
  moreover have "unat S * 2 ^ 24 < 2 ^ 32" using ks by (simp add: S encode_size_def s)
  ultimately have "unat (to_compact t) = unat S * 2 ^ 24 + unat M"
    unfolding eq using M23 by (simp add: unat_or_disjoint unat_push_bit unat_mantissa_mask)
  from compact_parts [OF M23 this] show "compact_size (to_compact t) = encode_size (be_val t)"
    "compact_mantissa (to_compact t) = encode_mantissa (be_val t)" "\<not> compact_negative (to_compact t)"
    by (simp_all add: S M)
qed


lemma power_256_split: "3 \<le> k \<Longrightarrow> (256 :: nat) ^ k = 256 ^ (k - 3) * 256 ^ 3"
  by (simp only: power_add [symmetric]) simp

lemma div_scale3: "n * 256 ^ 3 div 256 ^ k = (if 3 \<le> k then n div 256 ^ (k - 3) else n * 256 ^ (3 - k))" for n :: nat
proof (cases "3 \<le> k")
  case True
  then show ?thesis by (simp only: power_256_split [OF True] div_mult_mult2 power_not_zero zero_neq_numeral not_False_eq_True if_True)
next
  case False
  then have "(256 :: nat) ^ 3 = 256 ^ (3 - k) * 256 ^ k" by (simp only: power_add [symmetric]) simp
  then show ?thesis using False
    by (simp only: mult.assoc [symmetric] nonzero_mult_div_cancel_right power_not_zero zero_neq_numeral not_False_eq_True if_False)
qed

lemma encode_mantissa_div:
  "encode_mantissa n = (if 3 \<le> encode_size n then n div 256 ^ (encode_size n - 3) else n * 256 ^ (3 - encode_size n))"
  unfolding encode_mantissa_def by (rule div_scale3)

lemma compact_value_encode:
  assumes "length t = 32" and "0 < be_val t"
  shows "compact_value (to_compact t) = be_val t - be_val t mod 256 ^ (encode_size (be_val t) - 3)"
proof (cases "3 \<le> encode_size (be_val t)")
  case True
  then show ?thesis using to_compact_correct [OF assms]
    by (simp add: compact_value_ge3 encode_mantissa_div minus_mod_eq_div_mult)
next
  case False
  then show ?thesis using to_compact_correct [OF assms]
    by (simp add: compact_value_le3 encode_mantissa_div)
qed

lemma encode_stable:
  assumes "256 ^ (byte_len n - 1) \<le> v" and "v \<le> n" and "0 < n"
    and "v * 256 ^ 3 div 256 ^ byte_len n < 2 ^ 23 \<longleftrightarrow> n * 256 ^ 3 div 256 ^ byte_len n < 2 ^ 23"
    and "3 \<le> encode_size n" and "v div 256 ^ (encode_size n - 3) = n div 256 ^ (encode_size n - 3)"
  shows "0 < v \<and> encode_size v = encode_size n \<and> encode_mantissa v = encode_mantissa n"
proof -
  note b = byte_len_bounds [OF assms(3)]
  have "v < 256 ^ Suc (byte_len n - 1)" using b assms(2) by simp
  then have "byte_len v = byte_len n" using byte_len_unique [OF assms(1)] b by simp
  then have "encode_size v = encode_size n" unfolding encode_size_def using assms(4) by presburger
  moreover have "0 < v" using assms(1) by (rule less_le_trans [rotated]) simp
  ultimately show ?thesis using assms(5,6) by (simp add: encode_mantissa_div)
qed

lemma truncate_multiple:
  fixes n C :: nat
  assumes "0 < C"
  shows "n - n mod C = n div C * C" and "(n - n mod C) div C = n div C" and "n - n mod C \<le> n"
  using assms by (simp_all add: minus_mod_eq_div_mult)

lemma encode_truncated_short:
  assumes "0 < n" and "3 < byte_len n" and "n * 256 ^ 3 div 256 ^ byte_len n < 2 ^ 23"
  defines "v \<equiv> n - n mod 256 ^ (encode_size n - 3)"
  shows "0 < v \<and> encode_size v = encode_size n \<and> encode_mantissa v = encode_mantissa n"
proof (rule encode_stable)
  have S: "encode_size n = byte_len n" using assms(3) by (simp add: encode_size_def)
  define C :: nat where "C = 256 ^ (byte_len n - 3)"
  have C: "0 < C" by (simp add: C_def)
  have v: "v = n div C * C" "v div C = n div C" "v \<le> n"
    using truncate_multiple [OF C, of n] by (simp_all add: v_def S C_def)
  have "byte_len n - 1 = 2 + (byte_len n - 3)" using assms(2) by simp
  then have p: "(256 :: nat) ^ (byte_len n - 1) = 256 ^ 2 * C" unfolding C_def by (simp only: power_add)
  then have "256 ^ 2 * C \<le> n" using byte_len_bounds [OF assms(1)] by simp
  then have "256 ^ 2 \<le> n div C" using C by (simp only: less_eq_div_iff_mult_less_eq)
  then show "256 ^ (byte_len n - 1) \<le> v" unfolding p v(1) by (rule mult_le_mono1)
  show "v * 256 ^ 3 div 256 ^ byte_len n < 2 ^ 23 \<longleftrightarrow> n * 256 ^ 3 div 256 ^ byte_len n < 2 ^ 23"
    unfolding div_scale3 using v(2) assms(2) by (simp add: C_def)
  show "v \<le> n" by fact
  show "v div 256 ^ (encode_size n - 3) = n div 256 ^ (encode_size n - 3)" using v(2) by (simp only: S C_def)
qed (use assms(1,2) in \<open>simp_all add: encode_size_def\<close>)

lemma encode_truncated_long:
  assumes "0 < n" and "2 < byte_len n" and "\<not> n * 256 ^ 3 div 256 ^ byte_len n < 2 ^ 23"
  defines "v \<equiv> n - n mod 256 ^ (encode_size n - 3)"
  shows "0 < v \<and> encode_size v = encode_size n \<and> encode_mantissa v = encode_mantissa n"
proof (rule encode_stable)
  have S: "encode_size n = Suc (byte_len n)" "encode_size n - 3 = byte_len n - 2" "3 \<le> encode_size n"
    using assms(2,3) by (simp_all add: encode_size_def)
  define C :: nat where "C = 256 ^ (byte_len n - 2)"
  define D :: nat where "D = 256 ^ (byte_len n - 3)"
  have CD: "C = 256 * D" using assms(2) by (simp add: C_def D_def flip: power_Suc)
  have D: "0 < D" by (simp add: D_def)
  have C: "0 < C" using CD D by simp
  have v: "v = n div C * C" "v div C = n div C" "v \<le> n"
    using truncate_multiple [OF C, of n] by (simp_all add: v_def S(2) C_def)
  have m: "2 ^ 15 \<le> n div C"
    using encode_mantissa_bounds(2) [OF assms(1)] S by (simp add: encode_mantissa_div C_def)
  have "byte_len n - 1 = 1 + (byte_len n - 2)" using assms(2) by simp
  then have p: "(256 :: nat) ^ (byte_len n - 1) = 256 * C" unfolding C_def by simp
  have "256 \<le> n div C" using m by simp
  then show "256 ^ (byte_len n - 1) \<le> v" unfolding p v(1) by (rule mult_le_mono1)
  have "v div D = n div C * 256" unfolding v(1) CD using D by (simp only: mult.assoc [symmetric] nonzero_mult_div_cancel_right neq0_conv)
  then have "\<not> v div D < 2 ^ 23" using m by simp
  then show "v * 256 ^ 3 div 256 ^ byte_len n < 2 ^ 23 \<longleftrightarrow> n * 256 ^ 3 div 256 ^ byte_len n < 2 ^ 23"
    using assms(2,3) unfolding div_scale3 by (simp add: D_def)
  show "v \<le> n" "3 \<le> encode_size n" by fact+
  show "v div 256 ^ (encode_size n - 3) = n div 256 ^ (encode_size n - 3)" using v(2) by (simp only: S(2) C_def)
qed (rule assms(1))

lemma encode_truncated:
  assumes "0 < n"
  defines "v \<equiv> n - n mod 256 ^ (encode_size n - 3)"
  shows "0 < v \<and> encode_size v = encode_size n \<and> encode_mantissa v = encode_mantissa n"
proof (cases "encode_size n \<le> 3")
  case True
  then show ?thesis using assms(1) by (simp add: v_def)
next
  case False
  then show ?thesis
    using encode_truncated_short [OF assms(1)] encode_truncated_long [OF assms(1)] unfolding v_def
    by (cases "n * 256 ^ 3 div 256 ^ byte_len n < 2 ^ 23") (simp_all add: encode_size_def)
qed


subsection \<open>Properties\<close>

lemma from_compact_Some_iff:
  "from_compact c = Some t \<longleftrightarrow>
     \<not> compact_negative c \<and> 0 < compact_value c \<and> compact_value c < 2 ^ 256 \<and>
     length t = 32 \<and> be_val t = compact_value c"
proof -
  have inj: "t = u" if "length t = 32" "length u = 32" "be_val t = be_val u" for u
    using be_val_inj [of t u] that by simp
  show ?thesis
  proof (cases "compact_negative c \<or> compact_value c = 0 \<or> 2 ^ 256 \<le> compact_value c")
    case True
    then have "from_compact c = None" using from_compact_correct [of c] by (simp only: if_True)
    then show ?thesis using True by (auto simp only: not_le [symmetric])
  next
    case False
    then obtain u where "from_compact c = Some u" "length u = 32" "be_val u = compact_value c"
      using from_compact_correct [of c] by (auto simp only: if_False)
    then show ?thesis using False inj [of u] by (auto simp only: not_le option.inject)
  qed
qed

lemma from_compact_to_compact:
  assumes "length t = 32" and "0 < be_val t"
  obtains t' where "from_compact (to_compact t) = Some t'" "length t' = 32"
    "be_val t' = be_val t - be_val t mod 256 ^ (encode_size (be_val t) - 3)" "to_compact t' = to_compact t"
proof -
  let ?v = "be_val t - be_val t mod 256 ^ (encode_size (be_val t) - 3)"
  note tc = to_compact_correct [OF assms] and val = compact_value_encode [OF assms]
  note v = encode_truncated [OF assms(2)]
  have "be_val t < 2 ^ 256" using be_val_bound [of t] assms(1) by simp
  then obtain t' where t': "from_compact (to_compact t) = Some t'" "length t' = 32" "be_val t' = ?v"
    using from_compact_correct [of "to_compact t"] tc(3) v unfolding val by (auto split: if_splits)
  note tc' = to_compact_correct [OF t'(2)]
  have "unat (to_compact t') = unat (to_compact t)"
    by (rule compact_unat_eqI) (use tc' tc v t'(3) in simp_all)
  then show ?thesis using t' that by (simp only: word_unat_eq_iff)
qed

lemma truncation_loss:
  assumes "0 < n"
  shows "(n mod 256 ^ (encode_size n - 3)) * 2 ^ 15 \<le> n"
proof (cases "encode_size n \<le> 3")
  case False
  define C :: nat where "C = 256 ^ (encode_size n - 3)"
  have C: "0 < C" by (simp add: C_def)
  have "2 ^ 15 \<le> n div C"
    using encode_mantissa_bounds(2) [OF assms] False by (simp add: encode_mantissa_div C_def)
  then have "2 ^ 15 * C \<le> n" using C by (simp only: less_eq_div_iff_mult_less_eq)
  moreover have "n mod C * 2 ^ 15 \<le> C * 2 ^ 15" using C by (intro mult_le_mono1) (simp add: less_imp_le)
  ultimately show ?thesis unfolding C_def [symmetric] by (simp only: mult.commute [of C])
qed simp

lemma pow_limit_value: "\<exists>limit. pow_limit = Some limit \<and> length limit = 32 \<and> be_val limit = 0x1fffff * 256 ^ 29"
proof -
  have "compact_size POW_LIMIT_BITS = 32" "compact_mantissa POW_LIMIT_BITS = 0x1fffff" "\<not> compact_negative POW_LIMIT_BITS"
    by (simp_all add: compact_size_def compact_mantissa_def compact_negative_def POW_LIMIT_BITS_def)
  then show ?thesis using from_compact_correct [of POW_LIMIT_BITS]
    by (simp add: pow_limit_def compact_value_ge3 split: if_splits)
qed

lemma target_le_iff: "length s = 32 \<Longrightarrow> length t = 32 \<Longrightarrow> (s :: pow_target) \<le> t \<longleftrightarrow> be_val s \<le> be_val t"
  by (rule be_val_le_iff [symmetric]) simp

text \<open>C31. Decoding a compact target is exact: the header bits are rejected when the sign bit
  is set, when the number they stand for is zero, or when it does not fit 256 bits; otherwise
  the 32 bytes returned are the big-endian form of mantissa times 256 to the exponent less three.\<close>

theorem from_compact_exact:
  "case from_compact c of
     None \<Rightarrow> compact_negative c \<or> compact_value c = 0 \<or> 2 ^ 256 \<le> compact_value c
   | Some t \<Rightarrow> \<not> compact_negative c \<and> 0 < compact_value c \<and> compact_value c < 2 ^ 256 \<and>
       length t = 32 \<and> be_val t = compact_value c"
  using from_compact_correct [of c] by (auto split: option.split if_splits)

text \<open>Encoding and decoding a target: the bits written for any nonzero target always decode,
  to the target rounded down to the bytes the mantissa keeps; the loss is at most one part in
  32768, and the decoded target encodes to the same bits, so the bits in a header are canonical.\<close>

theorem to_compact_roundtrip:
  assumes "length t = 32" and "0 < be_val t"
  shows "\<exists>t'. from_compact (to_compact t) = Some t' \<and> length t' = 32 \<and> to_compact t' = to_compact t \<and>
    be_val t' = be_val t - be_val t mod 256 ^ (encode_size (be_val t) - 3) \<and>
    (be_val t - be_val t') * 2 ^ 15 \<le> be_val t"
proof -
  obtain t' where t': "from_compact (to_compact t) = Some t'" "length t' = 32"
    "be_val t' = be_val t - be_val t mod 256 ^ (encode_size (be_val t) - 3)" "to_compact t' = to_compact t"
    using from_compact_to_compact [OF assms] .
  moreover have "be_val t - be_val t' = be_val t mod 256 ^ (encode_size (be_val t) - 3)"
    unfolding t'(3) by simp
  ultimately show ?thesis using truncation_loss [OF assms(2)] by auto
qed

theorem to_compact_roundtrip_witness:
  "\<exists>t'. from_compact (to_compact (replicate 31 0 @ [7])) = Some t' \<and> length t' = 32 \<and> be_val t' = 7"
proof -
  have v: "be_val (replicate 31 0 @ [7 :: u8]) = 7" by (simp add: be_val_append)
  have "encode_size 7 \<le> 3"
    by (simp add: encode_size_def byte_len.simps)
  then show ?thesis using to_compact_roundtrip [of "replicate 31 0 @ [7]"] unfolding v by auto
qed

text \<open>C32. A header's bits are accepted exactly when they are the canonical encoding of a target
  not above the proof-of-work limit: every target the code encodes below the limit is accepted,
  whatever is accepted is at most the limit, and no two bit patterns stand for one target.\<close>

theorem from_consensus_compact_canonical:
  assumes "length t = 32" and "0 < be_val t" and "be_val t \<le> 0x1fffff * 256 ^ 29"
    and "from_consensus_compact c = Some u" and "from_consensus_compact d = Some u"
  shows "from_consensus_compact (to_compact t) = from_compact (to_compact t) \<and>
    from_consensus_compact (to_compact t) \<noteq> None \<and>
    0 < be_val u \<and> be_val u \<le> 0x1fffff * 256 ^ 29 \<and> c = to_compact u \<and> d = c"
proof -
  obtain limit where limit: "pow_limit = Some limit" "length limit = 32" "be_val limit = 0x1fffff * 256 ^ 29"
    using pow_limit_value by blast
  obtain t' where t': "from_compact (to_compact t) = Some t'" "length t' = 32"
    "be_val t' = be_val t - be_val t mod 256 ^ (encode_size (be_val t) - 3)" "to_compact t' = to_compact t"
    using from_compact_to_compact [OF assms(1,2)] .
  have "be_val t' \<le> be_val limit" using t'(3) assms(3) limit(3) by linarith
  then have "\<not> t' > limit" using target_le_iff [OF t'(2) limit(2)] by simp
  then have 1: "from_consensus_compact (to_compact t) = Some t'"
    using t'(1,4) by (simp add: from_consensus_compact_def limit(1))
  have u: "from_compact c = Some u" "to_compact u = c" "\<not> u > limit" "to_compact u = d"
    using assms(4,5) by (auto simp: from_consensus_compact_def limit(1) bind_eq_Some_conv split: if_splits)
  then have lu: "length u = 32" "0 < be_val u" by (simp_all only: from_compact_Some_iff)
  have "u \<le> limit" using u(3) by (rule leI)
  then have "be_val u \<le> be_val limit" by (simp only: target_le_iff [OF lu(1) limit(2)])
  then show ?thesis using 1 t'(1) u(2,4) lu(2) limit(3) by simp
qed


theorem from_consensus_compact_canonical_witness:
  "\<exists>t. from_consensus_compact POW_LIMIT_BITS = Some t \<and> to_compact t = POW_LIMIT_BITS"
proof -
  let ?t = "0x1f # 0xff # 0xff # replicate 29 0 :: pow_target"
  have c: "from_consensus_compact POW_LIMIT_BITS = Some ?t" by code_simp
  have v: "be_val ?t = 0x1fffff * 256 ^ 29" by simp
  have "POW_LIMIT_BITS = to_compact ?t"
    using from_consensus_compact_canonical [of ?t, OF _ _ _ c c] unfolding v by simp
  then show ?thesis using c by metis
qed

text \<open>C33. Retargeting by a ratio of small integers is exact: for a numerator and a denominator
  from 1 to 255 the scaled target is the floor of the product over the denominator, raised to one
  when it would vanish, and \<open>None\<close> exactly when it would not fit 256 bits. The consensus variant
  clamps to the proof-of-work limit and fails only for a ratio out of range.\<close>

theorem scale_ratio_exact:
  assumes "length t = 32" and "0 < unat n" "unat n \<le> 255" and "0 < unat d" "unat d \<le> 255"
  shows "map_option be_val (scale_ratio t n d) =
      (if be_val t * unat n div unat d < 2 ^ 256 then Some (max 1 (be_val t * unat n div unat d)) else None) \<and>
    map_option be_val (scale_ratio_consensus t n d) =
      Some (min (max 1 (be_val t * unat n div unat d)) (0x1fffff * 256 ^ 29))"
proof -
  let ?q = "be_val t * unat n div unat d" and ?L = "0x1fffff * 256 ^ 29 :: nat"
  note sr = scale_ratio_correct [OF assms(1-5)]
  obtain limit where limit: "pow_limit = Some limit" "length limit = 32" "be_val limit = ?L"
    using pow_limit_value by blast
  have guard: "\<not> (n = 0 \<or> d = 0 \<or> n > 255 \<or> d > 255)"
    using assms(2-5) by (auto simp: word_less_nat_alt)
  show ?thesis
  proof (cases "?q < 2 ^ 256")
    case True
    obtain t' where t': "scale_ratio t n d = Some t'" "length t' = 32" "be_val t' = max 1 ?q"
      using sr(2) [OF True] by blast
    have "be_val (min t' limit) = min (max 1 ?q) ?L"
      using target_le_iff [OF t'(2) limit(2)] t'(3) limit(3) by (auto simp: min_def)
    then show ?thesis using True t'(1,3) guard by (simp add: scale_ratio_consensus_def limit(1) del: power_numeral)
  next
    case False
    have "unat n > unat d"
    proof (rule ccontr)
      assume "\<not> unat n > unat d"
      then have "be_val t * unat n \<le> be_val t * unat d" by simp
      then have "?q \<le> be_val t" using div_le_mono [of _ "be_val t * unat d" "unat d"] assms(4) by simp
      then show False using False be_val_bound [of t] assms(1) by simp
    qed
    then show ?thesis using False sr(1) guard
      by (simp add: scale_ratio_consensus_def limit(1,3) word_less_nat_alt not_less min_def max_def)
  qed
qed

theorem scale_ratio_exact_witness:
  "map_option be_val (scale_ratio_consensus (replicate 31 0 @ [200]) 3 2) = Some 300"
proof -
  have v: "be_val (replicate 31 0 @ [200 :: u8]) = 200" by (simp add: be_val_append)
  show ?thesis using scale_ratio_exact [of "replicate 31 0 @ [200]" 3 2] unfolding v by simp
qed

end
