(* ===== verification/Policy.thy ===== *)
theory Policy
  imports Blocks Target
begin

section \<open>Difficulty, emission and burn policies\<close>

text \<open>
  \<^verbatim>\<open>kernel/src/consensus/policy\<close>: \<^verbatim>\<open>difficulty.rs\<close> (the weight-based difficulty adjustment every 2500 blocks),
  \<^verbatim>\<open>emission.rs\<close> (the subsidy schedule, its offset by fees in the tail, and the authorization of a block's
  emission) and \<^verbatim>\<open>burn.rs\<close> (the burn for archived bytes and state growth). Weights are \<open>usize\<close>, here
  natural numbers. The lemmas give the adjusted target as a number, bound it by the limit, and show
  that every scheduled subsidy covers the protocol burn.
\<close>

subsection \<open>Weight-based difficulty adjustment\<close>

definition TARGET_BITS_START :: u32 where "TARGET_BITS_START = 0x201fffff"
definition WBDA_WINDOW :: nat where "WBDA_WINDOW = 2500"
definition WBDA_TARGET_BLOCK_WEIGHT :: nat where "WBDA_TARGET_BLOCK_WEIGHT = 1048576"
definition WBDA_LOW_UTILIZATION_PPM :: u64 where "WBDA_LOW_UTILIZATION_PPM = 800000"
definition WBDA_HIGH_UTILIZATION_PPM :: u64 where "WBDA_HIGH_UTILIZATION_PPM = 1200000"
definition WBDA_HARDER_PERCENT :: u32 where "WBDA_HARDER_PERCENT = 80"
definition WBDA_EASIER_PERCENT :: u32 where "WBDA_EASIER_PERCENT = 120"

lemmas wbda_consts = WBDA_WINDOW_def WBDA_TARGET_BLOCK_WEIGHT_def WBDA_LOW_UTILIZATION_PPM_def WBDA_HIGH_UTILIZATION_PPM_def
  WBDA_HARDER_PERCENT_def WBDA_EASIER_PERCENT_def

datatype wbda_adjustment = Decrease | Keep | Increase

definition is_wbda_epoch_boundary :: "u64 \<Rightarrow> bool" where
  "is_wbda_epoch_boundary height = (height > 1 \<and> (height - 1) mod of_nat WBDA_WINDOW = 0)"

definition average_block_weight :: "nat list \<Rightarrow> u64 option" where
  "average_block_weight block_weights =
     (if length block_weights \<noteq> WBDA_WINDOW then None
      else case try_fold (\<lambda>acc weight. ok_or (checked_add acc (of_nat weight)) ()) (0 :: u64) block_weights of
        Inl _ \<Rightarrow> None
      | Inr weight_sum \<Rightarrow> Some (weight_sum div of_nat WBDA_WINDOW))"

definition utilization_ppm :: "nat list \<Rightarrow> u64 option" where
  "utilization_ppm block_weights = Option.bind (average_block_weight block_weights) (\<lambda>average.
     let target = of_nat WBDA_TARGET_BLOCK_WEIGHT in
     if target = 0 then None else Some (saturating_mul average 1000000 div target))"

definition adjustment_for_utilization_ppm :: "u64 \<Rightarrow> wbda_adjustment" where
  "adjustment_for_utilization_ppm utilization =
     (if utilization < WBDA_LOW_UTILIZATION_PPM then Increase
      else if utilization > WBDA_HIGH_UTILIZATION_PPM then Decrease else Keep)"

definition adjustment_for_window :: "nat list \<Rightarrow> wbda_adjustment option" where
  "adjustment_for_window block_weights = map_option adjustment_for_utilization_ppm (utilization_ppm block_weights)"

definition next_difficulty_from_window :: "u32 \<Rightarrow> nat list \<Rightarrow> u32 option" where
  "next_difficulty_from_window previous_target_bits block_weights =
     Option.bind (adjustment_for_window block_weights) (\<lambda>adjustment.
     Option.bind (from_compact previous_target_bits) (\<lambda>previous.
     Option.bind (from_compact TARGET_BITS_START) (\<lambda>pow_limit.
     Option.bind (case adjustment of
         Decrease \<Rightarrow> scale_ratio previous WBDA_EASIER_PERCENT 100
       | Keep \<Rightarrow> Some previous
       | Increase \<Rightarrow> scale_ratio previous WBDA_HARDER_PERCENT 100) (\<lambda>nxt.
     Some (to_compact (if nxt > pow_limit then pow_limit else nxt))))))"

definition expected_difficulty_from_window :: "u64 \<Rightarrow> u32 \<Rightarrow> nat list \<Rightarrow> u32 option" where
  "expected_difficulty_from_window next_height parent_difficulty current_window =
     (if next_height = 1 then Some TARGET_BITS_START
      else if \<not> is_wbda_epoch_boundary next_height then Some parent_difficulty
      else next_difficulty_from_window parent_difficulty current_window)"

definition height_range :: "u64 \<Rightarrow> nat \<Rightarrow> u64 list" where
  "height_range start n = map (\<lambda>k. start + of_nat k) [0..<n]"

definition expected_difficulty_for_height ::
    "u64 \<Rightarrow> u32 \<Rightarrow> (u64 \<Rightarrow> (nat, 'e) result) \<Rightarrow> (u32 option, 'e) result" where
  "expected_difficulty_for_height next_height parent_difficulty weight_at =
     (if next_height = 1 then Ok (Some TARGET_BITS_START)
      else if \<not> is_wbda_epoch_boundary next_height then Ok (Some parent_difficulty)
      else let start = next_height - of_nat WBDA_WINDOW in
        rbind (collect (map weight_at (height_range start (unat (next_height - start))))) (\<lambda>weights.
          Ok (expected_difficulty_from_window next_height parent_difficulty weights)))"

subsection \<open>Burn\<close>

definition STATE_BURN_RATE_ZENO_PER_BYTE :: u64 where "STATE_BURN_RATE_ZENO_PER_BYTE = 1"

definition EMPTY_BLOCK_ARCHIVAL_BYTES :: u64 where
  "EMPTY_BLOCK_ARCHIVAL_BYTES = of_nat ((3 * HASH_SIZE + 2 * 4 + 8) + 8 + (1 + HASH_SIZE + 8) + 4)"

definition COIN_UTXO_STATE_WEIGHT :: u64 where
  "COIN_UTXO_STATE_WEIGHT = of_nat (HASH_SIZE + 8 + 1 + HASH_SIZE)"

definition MINER_PROTOCOL_BURN :: zeno where
  "MINER_PROTOCOL_BURN = (EMPTY_BLOCK_ARCHIVAL_BYTES + COIN_UTXO_STATE_WEIGHT) * STATE_BURN_RATE_ZENO_PER_BYTE"

record transition_weight =
  tw_created_coin_utxos :: u64
  tw_consumed_coin_utxos :: u64
  tw_created_state_weight :: u64

datatype burn_error = WeightOverflow | ZenoOverflow | IncorrectBurn u64 u64

definition state_growth_burn :: "transition_weight \<Rightarrow> (zeno, burn_error) result" where
  "state_growth_burn w =
     (let net_coin_utxos = saturating_sub (tw_created_coin_utxos w) (tw_consumed_coin_utxos w) in
      rbind (ok_or (Option.bind (checked_mul net_coin_utxos COIN_UTXO_STATE_WEIGHT) (\<lambda>weight.
        checked_add weight (tw_created_state_weight w))) WeightOverflow) (\<lambda>created.
      ok_or (checked_mul created STATE_BURN_RATE_ZENO_PER_BYTE) ZenoOverflow))"

record protocol_burn =
  pb_archival :: zeno
  pb_state_growth :: zeno

definition burn_for_program_call :: "transition_weight \<Rightarrow> u64 \<Rightarrow> (protocol_burn, burn_error) result" where
  "burn_for_program_call w canonical_transaction_bytes =
     rbind (ok_or (checked_mul canonical_transaction_bytes STATE_BURN_RATE_ZENO_PER_BYTE) ZenoOverflow) (\<lambda>archival.
     rbind (state_growth_burn w) (\<lambda>growth. Ok \<lparr>pb_archival = archival, pb_state_growth = growth\<rparr>))"

definition burn_total :: "protocol_burn \<Rightarrow> (zeno, burn_error) result" where
  "burn_total b = ok_or (checked_add (pb_archival b) (pb_state_growth b)) ZenoOverflow"

definition created_coin_output_count :: "coin_output list \<Rightarrow> (u64, burn_error) result" where
  "created_coin_output_count outputs = ok_or (try_from_nat (length outputs)) WeightOverflow"

definition validate_exact_burn :: "zeno \<Rightarrow> zeno \<Rightarrow> (unit, burn_error) result" where
  "validate_exact_burn actual required = (if actual \<noteq> required then Err (IncorrectBurn required actual) else Ok ())"

subsection \<open>Emission\<close>

definition BLOCK_EMISSION_START :: u64 where "BLOCK_EMISSION_START = 156250000"
definition MAX_BLOCK_EMISSION :: u64 where "MAX_BLOCK_EMISSION = 5000000000"
definition TAIL_BLOCK_EMISSION :: u64 where "TAIL_BLOCK_EMISSION = 78125000"
definition EMISSION_RISING_STEPS :: u64 where "EMISSION_RISING_STEPS = 5"
definition EMISSION_HALVINGS_TO_TAIL :: u64 where "EMISSION_HALVINGS_TO_TAIL = 6"
definition EMISSION_INTERVAL :: u64 where "EMISSION_INTERVAL = 100000"

definition FOTE_ACTIVATION_HEIGHT :: u64 where
  "FOTE_ACTIVATION_HEIGHT = (EMISSION_RISING_STEPS + EMISSION_HALVINGS_TO_TAIL) * EMISSION_INTERVAL + 1"

lemmas emission_consts = BLOCK_EMISSION_START_def MAX_BLOCK_EMISSION_def TAIL_BLOCK_EMISSION_def EMISSION_RISING_STEPS_def
  EMISSION_HALVINGS_TO_TAIL_def EMISSION_INTERVAL_def FOTE_ACTIVATION_HEIGHT_def

definition is_emission_epoch_boundary :: "u64 \<Rightarrow> bool" where
  "is_emission_epoch_boundary height = (height > 1 \<and> (height - 1) mod EMISSION_INTERVAL = 0)"

definition block_emission_for_height :: "height \<Rightarrow> zeno" where
  "block_emission_for_height height =
     (let completed_intervals = saturating_sub height 1 div EMISSION_INTERVAL in
      if completed_intervals \<le> EMISSION_RISING_STEPS then
        min (saturating_mul BLOCK_EMISSION_START (push_bit (unat completed_intervals) 1)) MAX_BLOCK_EMISSION
      else let halvings = completed_intervals - EMISSION_RISING_STEPS in
        if halvings \<ge> EMISSION_HALVINGS_TO_TAIL then TAIL_BLOCK_EMISSION
        else max (drop_bit (unat halvings) MAX_BLOCK_EMISSION) TAIL_BLOCK_EMISSION)"

datatype emission_error = MissingEmission | InvalidSubsidy | ArithmeticOverflow | EmissionSerialization

record validated_emission =
  ve_recipient :: program_id
  ve_subsidy :: zeno
  ve_miner_emission :: zeno
  ve_protocol_burn :: zeno
  ve_origin :: hash

definition emission_origin :: "(bytes \<Rightarrow> hash) \<Rightarrow> block \<Rightarrow> (hash, emission_error) result" where
  "emission_origin sha3 b =
     rbind (ok_or (bd_emission (bk_body b)) MissingEmission) (\<lambda>e.
       Ok (domain sha3 Emission (ascii ''emission'' @ hd_previous_hash (bk_header b) @ u64_le (bk_height b) @ em_to e @ u64_le (em_subsidy e))))"

definition operations_fees :: "block_operation list \<Rightarrow> (zeno, emission_error) result" where
  "operations_fees ops = try_fold (\<lambda>acc op. ok_or (checked_add acc (operation_fee op)) ArithmeticOverflow) 0 ops"

definition expected_emission_for_operations :: "height \<Rightarrow> block_operation list \<Rightarrow> (zeno, emission_error) result" where
  "expected_emission_for_operations height ops =
     (let scheduled = block_emission_for_height height in
      if height < FOTE_ACTIVATION_HEIGHT then Ok scheduled
      else rbind (operations_fees ops) (\<lambda>fees.
        rbind (ok_or (checked_sub scheduled MINER_PROTOCOL_BURN) InvalidSubsidy) (\<lambda>net_tail.
          let net_issuance = (case checked_sub net_tail fees of Some n \<Rightarrow> n | None \<Rightarrow> 0) in
          ok_or (checked_add MINER_PROTOCOL_BURN net_issuance) ArithmeticOverflow)))"

definition authorize_emission :: "(bytes \<Rightarrow> hash) \<Rightarrow> block \<Rightarrow> (validated_emission, emission_error) result" where
  "authorize_emission sha3 b =
     rbind (ok_or (bd_emission (bk_body b)) MissingEmission) (\<lambda>e.
     rbind (expected_emission_for_operations (bk_height b) (bd_operations (bk_body b))) (\<lambda>expected.
       if em_subsidy e \<noteq> expected then Err InvalidSubsidy
       else rbind (ok_or (checked_sub (em_subsidy e) MINER_PROTOCOL_BURN) InvalidSubsidy) (\<lambda>miner_emission.
         rbind (emission_origin sha3 b) (\<lambda>origin.
           Ok \<lparr>ve_recipient = em_to e, ve_subsidy = em_subsidy e, ve_miner_emission = miner_emission,
               ve_protocol_burn = MINER_PROTOCOL_BURN, ve_origin = origin\<rparr>))))"


subsection \<open>The schedule\<close>

lemma miner_burn: "MINER_PROTOCOL_BURN = 238"
  by (simp add: MINER_PROTOCOL_BURN_def EMPTY_BLOCK_ARCHIVAL_BYTES_def COIN_UTXO_STATE_WEIGHT_def STATE_BURN_RATE_ZENO_PER_BYTE_def HASH_SIZE_def)

definition schedule :: "nat \<Rightarrow> nat" where
  "schedule c = (if c \<le> 5 then 156250000 * 2 ^ c else if c < 11 then 5000000000 div 2 ^ (c - 5) else 78125000)"

lemma small_cases: "n \<le> 5 \<Longrightarrow> n \<in> {0, 1, 2, 3, 4, 5 :: nat}"
  by auto

lemma rising_value:
  assumes "unat c \<le> 5"
  shows "unat (min (saturating_mul (156250000 :: u64) (push_bit (unat c) 1)) 5000000000) = 156250000 * 2 ^ unat (c :: u64)"
proof -
  have p: "unat (2 ^ unat c :: u64) = 2 ^ unat c"
    using assms small_cases [OF assms] by auto
  have "156250000 * 2 ^ unat c \<le> (5000000000 :: nat)" using small_cases [OF assms] by auto
  then show ?thesis by (simp add: min_def word_le_nat_alt unat_saturating_mul p)
qed

lemma halving_value:
  assumes "0 < unat h" "unat h < 6"
  shows "unat (max (drop_bit (unat h) (5000000000 :: u64)) 78125000) = 5000000000 div 2 ^ unat (h :: u64)"
proof -
  have "78125000 \<le> 5000000000 div (2 :: nat) ^ unat h" using small_cases [of "unat h"] assms by auto
  then show ?thesis by (simp add: max_def word_le_nat_alt unat_drop_bit)
qed

lemma block_emission_value: "unat (block_emission_for_height h) = schedule ((unat h - 1) div 100000)"
proof -
  let ?c = "saturating_sub h 1 div EMISSION_INTERVAL"
  have c: "unat ?c = (unat h - 1) div 100000" by (simp add: unat_div unat_saturating_sub EMISSION_INTERVAL_def)
  consider "unat ?c \<le> 5" | "5 < unat ?c" "unat ?c < 11" | "11 \<le> unat ?c" by linarith
  then show ?thesis
  proof cases
    case 1
    then show ?thesis
      using rising_value [of ?c] by (simp add: block_emission_for_height_def Let_def emission_consts word_le_nat_alt c [unfolded EMISSION_INTERVAL_def] schedule_def)
  next
    case 2
    then have "unat (?c - 5) = unat ?c - 5" by (simp add: unat_sub word_le_nat_alt)
    moreover from 2 have "unat ?c - 5 < 6" "0 < unat ?c - 5" by linarith+
    ultimately show ?thesis using 2 halving_value [of "?c - 5"]
      by (simp add: block_emission_for_height_def Let_def emission_consts word_le_nat_alt c [unfolded EMISSION_INTERVAL_def] schedule_def)
  next
    case 3
    then have "unat (?c - 5) = unat ?c - 5" by (simp add: unat_sub word_le_nat_alt)
    moreover from 3 have "6 \<le> unat ?c - 5" by linarith
    ultimately show ?thesis using 3
      by (simp add: block_emission_for_height_def Let_def emission_consts word_le_nat_alt c [unfolded EMISSION_INTERVAL_def] schedule_def)
  qed
qed


lemma schedule_bounds: "78125000 \<le> schedule c" "schedule c \<le> 5000000000"
proof -
  consider "c \<le> 5" | "5 < c" "c < 11" | "11 \<le> c" by linarith
  then have "78125000 \<le> schedule c \<and> schedule c \<le> 5000000000"
  proof cases
    case 1
    then show ?thesis using small_cases [of c] by (auto simp: schedule_def)
  next
    case 2
    then have "c - 5 \<le> 5" "0 < c - 5" by linarith+
    then show ?thesis using 2 small_cases [of "c - 5"] by (auto simp: schedule_def)
  qed (simp add: schedule_def)
  then show "78125000 \<le> schedule c" "schedule c \<le> 5000000000" by simp_all
qed

lemma tail_schedule: "\<not> h < FOTE_ACTIVATION_HEIGHT \<Longrightarrow> schedule ((unat h - 1) div 100000) = 78125000"
proof -
  assume "\<not> h < FOTE_ACTIVATION_HEIGHT"
  then have "1100001 \<le> unat h" by (simp add: emission_consts word_less_nat_alt not_less)
  then have "11 \<le> (unat h - 1) div 100000" by linarith
  then show ?thesis by (simp add: schedule_def)
qed

lemma tail_emission:
  assumes "unat tail = 78125000"
  shows "\<exists>net s. checked_sub tail MINER_PROTOCOL_BURN = Some net \<and>
     checked_add MINER_PROTOCOL_BURN (case checked_sub net fees of Some n \<Rightarrow> n | None \<Rightarrow> 0) = Some s \<and>
     unat s = 238 + (78125000 - 238 - unat (fees :: u64))"
proof -
  have "tail = 78125000" using assms by (simp add: word_unat_eq_iff)
  then have "checked_sub tail MINER_PROTOCOL_BURN = Some 78124762" by (simp add: checked_simps miner_burn)
  moreover have "\<exists>n. (case checked_sub 78124762 fees of Some n \<Rightarrow> n | None \<Rightarrow> 0) = n \<and> unat n = 78124762 - unat fees"
    by (auto simp: checked_sub_def unat_sub word_le_nat_alt)
  then obtain n where n: "(case checked_sub 78124762 fees of Some n \<Rightarrow> n | None \<Rightarrow> 0) = n" "unat n = 78124762 - unat fees" by blast
  moreover have "checked_add MINER_PROTOCOL_BURN n = Some (MINER_PROTOCOL_BURN + n)" "unat (MINER_PROTOCOL_BURN + n) = 238 + unat n"
    using n(2) by (simp_all add: miner_burn checked_add_def unat_word_ariths)
  ultimately show ?thesis by auto
qed

subsection \<open>The adjusted target\<close>

definition window_utilization :: "nat list \<Rightarrow> nat" where
  "window_utilization ws = (sum_list ws div 2500) * 1000000 div 1048576"

definition adjusted_target :: "nat \<Rightarrow> nat list \<Rightarrow> nat" where
  "adjusted_target p ws = (if window_utilization ws < 800000 then max 1 (p * 80 div 100)
     else if window_utilization ws > 1200000 then max 1 (p * 120 div 100) else p)"

definition pow_limit_number :: nat where "pow_limit_number = 0x1fffff * 256 ^ 29"

lemma utilization_value:
  assumes len: "length ws = WBDA_WINDOW" and small: "\<forall>w \<in> set ws. w \<le> MAX_BLOCK_SIZE"
  shows "\<exists>u. utilization_ppm ws = Some u \<and> unat u = window_utilization ws"
proof -
  have "sum_list ws \<le> length ws * MAX_BLOCK_SIZE" using small by (induction ws) auto
  then have le: "sum_list ws \<le> 5242880000" by (simp add: len WBDA_WINDOW_def MAX_BLOCK_SIZE_def)
  have w: "unat (of_nat w :: u64) = w" if "w \<in> set ws" for w
  proof -
    have "w \<le> 2097152" using that small by (simp add: MAX_BLOCK_SIZE_def)
    then show ?thesis by (simp add: unat_of_nat)
  qed
  have m: "(\<Sum>w\<leftarrow>ws. unat (of_nat w :: u64)) = sum_list ws" using w by (simp add: map_idI cong: map_cong)
  have "\<exists>t. try_fold (\<lambda>acc weight. ok_or (checked_add acc (of_nat weight)) ()) (0 :: u64) ws = Ok t \<and>
      unat t = unat (0 :: u64) + (\<Sum>w\<leftarrow>ws. unat (of_nat w :: u64))"
    by (rule checked_sum_Ok [where e = "()"]) (use le m in simp_all)
  then obtain t :: u64 where t: "try_fold (\<lambda>acc weight. ok_or (checked_add acc (of_nat weight)) ()) (0 :: u64) ws = Ok t" "unat t = sum_list ws"
    using m by auto
  let ?a = "t div of_nat WBDA_WINDOW"
  have a: "average_block_weight ws = Some ?a" "unat ?a = sum_list ws div 2500"
    using t len by (simp_all add: average_block_weight_def WBDA_WINDOW_def unat_div)
  have "sum_list ws div 2500 \<le> 2097152" using le by linarith
  then have "unat (saturating_mul ?a 1000000) = (sum_list ws div 2500) * 1000000" by (simp add: unat_saturating_mul a(2))
  then show ?thesis using a by (simp add: utilization_ppm_def WBDA_TARGET_BLOCK_WEIGHT_def unat_div window_utilization_def)
qed

lemma start_target: "\<exists>limit. from_compact TARGET_BITS_START = Some limit \<and> length limit = 32 \<and> be_val limit = pow_limit_number"
  using pow_limit_value unfolding pow_limit_def POW_LIMIT_BITS_def TARGET_BITS_START_def pow_limit_number_def .

lemma scaled_target:
  assumes "length p = 32" "0 < be_val p" "be_val p \<le> pow_limit_number" and n: "n = 80 \<or> n = 120"
  shows "\<exists>t. scale_ratio p n 100 = Some t \<and> length t = 32 \<and> be_val t = max 1 (be_val p * unat n div 100)"
proof -
  have "be_val p * unat n \<le> pow_limit_number * 120" using assms(3) n by (intro mult_le_mono) auto
  moreover have "pow_limit_number * 120 div 100 < 2 ^ 256" by (simp add: pow_limit_number_def)
  ultimately have "be_val p * unat n div 100 < 2 ^ 256" by (meson div_le_mono le_less_trans)
  then show ?thesis using scale_ratio_correct(2) [OF assms(1), of n 100] n by (auto simp del: be_val.simps)
qed

lemma next_target:
  assumes bits: "from_compact bits = Some p" "be_val p \<le> pow_limit_number"
    and len: "length ws = WBDA_WINDOW" and small: "\<forall>w \<in> set ws. w \<le> MAX_BLOCK_SIZE"
  shows "\<exists>t. next_difficulty_from_window bits ws = Some (to_compact t) \<and> length t = 32 \<and> 0 < be_val t \<and>
    be_val t = min (adjusted_target (be_val p) ws) pow_limit_number"
proof -
  have p: "length p = 32" "0 < be_val p" using bits(1) by (simp_all add: from_compact_Some_iff)
  obtain u where u: "utilization_ppm ws = Some u" "unat u = window_utilization ws" using utilization_value [OF len small] by blast
  obtain limit where limit: "from_compact TARGET_BITS_START = Some limit" "length limit = 32" "be_val limit = pow_limit_number"
    using start_target by blast
  have "\<exists>t. (case adjustment_for_utilization_ppm u of Decrease \<Rightarrow> scale_ratio p WBDA_EASIER_PERCENT 100 | Keep \<Rightarrow> Some p
      | Increase \<Rightarrow> scale_ratio p WBDA_HARDER_PERCENT 100) = Some t \<and> length t = 32 \<and> be_val t = adjusted_target (be_val p) ws"
    using scaled_target [OF p bits(2), of 80] scaled_target [OF p bits(2), of 120] p u(2)
    by (auto simp: adjustment_for_utilization_ppm_def adjusted_target_def wbda_consts word_less_nat_alt)
  then obtain t where t: "(case adjustment_for_utilization_ppm u of Decrease \<Rightarrow> scale_ratio p WBDA_EASIER_PERCENT 100 | Keep \<Rightarrow> Some p
      | Increase \<Rightarrow> scale_ratio p WBDA_HARDER_PERCENT 100) = Some t" "length t = 32" "be_val t = adjusted_target (be_val p) ws" by blast
  let ?n = "if t > limit then limit else t"
  have "next_difficulty_from_window bits ws = Some (to_compact ?n)"
    using u(1) bits(1) limit(1) t(1) by (simp add: next_difficulty_from_window_def adjustment_for_window_def)
  moreover have "be_val ?n = min (adjusted_target (be_val p) ws) pow_limit_number"
    using t(2,3) limit(2,3) target_le_iff [of t limit] by (auto simp: min_def)
  moreover have pos: "0 < max 1 x" for x :: nat by simp
  then have "0 < adjusted_target (be_val p) ws" using p(2) unfolding adjusted_target_def by (simp only: if_split) blast
  moreover have "0 < pow_limit_number" by (simp add: pow_limit_number_def)
  ultimately show ?thesis using t(2) limit(2) by (intro exI [of _ ?n]) auto
qed

subsection \<open>Authorized emissions\<close>

definition total_fees :: "block_operation list \<Rightarrow> nat" where
  "total_fees ops = (\<Sum>op\<leftarrow>ops. unat (operation_fee op))"

lemma operations_fees_total:
  assumes "total_fees ops < 2 ^ 64"
  shows "\<exists>fees. operations_fees ops = Ok fees \<and> unat fees = total_fees ops"
proof -
  have "unat acc + total_fees ops < 2 ^ 64 \<Longrightarrow>
      \<exists>fees. try_fold (\<lambda>acc op. ok_or (checked_add acc (operation_fee op)) ArithmeticOverflow) acc ops = Ok fees \<and>
        unat fees = unat acc + total_fees ops" for acc :: zeno
  proof (induction ops arbitrary: acc)
    case (Cons op ops)
    then have "unat acc + unat (operation_fee op) < 2 ^ 64" by (simp add: total_fees_def)
    then obtain acc' where a: "checked_add acc (operation_fee op) = Some acc'" "unat acc' = unat acc + unat (operation_fee op)"
      by (auto simp: checked_add_def unat_add_lem [symmetric] unat_plus_if')
    then show ?case using Cons.IH [of acc'] Cons.prems by (auto simp: total_fees_def)
  qed (simp add: total_fees_def)
  from this [of 0] assms show ?thesis by (simp add: operations_fees_def)
qed

lemma expected_subsidy:
  assumes "total_fees ops < 2 ^ 64"
  shows "\<exists>s. expected_emission_for_operations h ops = Ok s \<and> 238 \<le> unat s \<and>
    unat s \<le> schedule ((unat h - 1) div 100000) \<and> schedule ((unat h - 1) div 100000) \<le> 5000000000 \<and>
    (if h < FOTE_ACTIVATION_HEIGHT then unat s = schedule ((unat h - 1) div 100000)
     else total_fees ops + (unat s - 238) = max (total_fees ops) (78125000 - 238))"
proof (cases "h < FOTE_ACTIVATION_HEIGHT")
  case True
  then show ?thesis
    using schedule_bounds [of "(unat h - 1) div 100000"] by (auto simp: expected_emission_for_operations_def block_emission_value)
next
  case False
  obtain fees where fees: "operations_fees ops = Ok fees" "unat fees = total_fees ops" using operations_fees_total [OF assms] by blast
  have "unat (block_emission_for_height h) = 78125000" using tail_schedule [OF False] by (simp add: block_emission_value)
  from tail_emission [OF this, of fees] obtain net s where "checked_sub (block_emission_for_height h) MINER_PROTOCOL_BURN = Some net"
    "checked_add MINER_PROTOCOL_BURN (case checked_sub net fees of Some n \<Rightarrow> n | None \<Rightarrow> 0) = Some s"
    "unat s = 238 + (78125000 - 238 - unat fees)" by blast
  then show ?thesis
    using False fees tail_schedule [OF False] by (simp add: expected_emission_for_operations_def Let_def max_def)
qed

lemma authorize_emission_iff:
  assumes s: "expected_emission_for_operations (bk_height b) (bd_operations (bk_body b)) = Ok s" and "238 \<le> unat s"
  shows "authorize_emission sha3 b = Ok v \<longleftrightarrow>
    (\<exists>e. bd_emission (bk_body b) = Some e \<and> em_subsidy e = s \<and> ve_recipient v = em_to e \<and> ve_subsidy v = s \<and>
      unat (ve_miner_emission v) + 238 = unat s \<and> unat (ve_protocol_burn v) = 238 \<and>
      ve_origin v = domain sha3 Emission
        (ascii ''emission'' @ hd_previous_hash (bk_header b) @ u64_le (bk_height b) @ em_to e @ u64_le (em_subsidy e)))"
proof -
  have sub: "checked_sub s 238 = Some m \<longleftrightarrow> unat m + 238 = unat s" for m by (auto simp: checked_simps)
  have burn: "unat x = 238 \<longleftrightarrow> x = 238" for x :: zeno by (simp add: word_unat_eq_iff)
  show ?thesis
    by (cases v; cases "bd_emission (bk_body b)")
      (auto simp: authorize_emission_def emission_origin_def s result_simps miner_burn sub [symmetric] burn)
qed

subsection \<open>Properties\<close>

text \<open>
  C13. When the fees of a block's operations add up to a 64-bit amount, its subsidy is determined: the
  schedule before the tail phase; in the tail phase the amount with which fees and net issuance together
  pay the miner the net tail amount or the fees, whichever is more; never below the protocol burn of 238 nor
  above the schedule. The emission of the block is authorized exactly when it is present with that
  subsidy, and the authorized emission names its recipient, splits the subsidy into the miner's part and the
  protocol burn without remainder, and derives its origin from parent, height, recipient and subsidy.
\<close>

theorem emission_balanced:
  assumes "total_fees (bd_operations (bk_body b)) < 2 ^ 64"
  shows "\<exists>s. expected_emission_for_operations (bk_height b) (bd_operations (bk_body b)) = Ok s \<and> 238 \<le> unat s \<and>
    unat s \<le> schedule ((unat (bk_height b) - 1) div 100000) \<and> schedule ((unat (bk_height b) - 1) div 100000) \<le> 5000000000 \<and>
    (if bk_height b < FOTE_ACTIVATION_HEIGHT then unat s = schedule ((unat (bk_height b) - 1) div 100000)
     else total_fees (bd_operations (bk_body b)) + (unat s - 238) = max (total_fees (bd_operations (bk_body b))) (78125000 - 238)) \<and>
    (\<forall>v. authorize_emission sha3 b = Ok v \<longleftrightarrow>
      (\<exists>e. bd_emission (bk_body b) = Some e \<and> em_subsidy e = s \<and> ve_recipient v = em_to e \<and> ve_subsidy v = s \<and>
        unat (ve_miner_emission v) + 238 = unat s \<and> unat (ve_protocol_burn v) = 238 \<and>
        ve_origin v = domain sha3 Emission
          (ascii ''emission'' @ hd_previous_hash (bk_header b) @ u64_le (bk_height b) @ em_to e @ u64_le (em_subsidy e))))"
proof -
  obtain s where s: "expected_emission_for_operations (bk_height b) (bd_operations (bk_body b)) = Ok s" "238 \<le> unat s"
    "unat s \<le> schedule ((unat (bk_height b) - 1) div 100000)" "schedule ((unat (bk_height b) - 1) div 100000) \<le> 5000000000"
    "if bk_height b < FOTE_ACTIVATION_HEIGHT then unat s = schedule ((unat (bk_height b) - 1) div 100000)
     else total_fees (bd_operations (bk_body b)) + (unat s - 238) = max (total_fees (bd_operations (bk_body b))) (78125000 - 238)"
    using expected_subsidy [OF assms] by blast
  show ?thesis using s authorize_emission_iff [OF s(1,2)] by blast
qed

definition sample_tail_block :: "zeno \<Rightarrow> block" where
  "sample_tail_block subsidy = \<lparr>bk_header = bk_header (sample_block 0), bk_height = 1100001,
     bk_body = \<lparr>bd_emission = Some \<lparr>em_to = replicate 32 9, em_subsidy = subsidy\<rparr>, bd_operations = [ProgramCall sample_invocation]\<rparr>\<rparr>"

lemma sample_tail: "\<not> bk_height (sample_tail_block subsidy) < FOTE_ACTIVATION_HEIGHT"
  by (simp add: sample_tail_block_def FOTE_ACTIVATION_HEIGHT_def EMISSION_RISING_STEPS_def EMISSION_HALVINGS_TO_TAIL_def EMISSION_INTERVAL_def)

theorem emission_balanced_witness:
  "\<exists>v. authorize_emission (\<lambda>_. []) (sample_tail_block 78124999) = Ok v \<and> unat (ve_miner_emission v) = 78124761"
proof -
  let ?b = "sample_tail_block 78124999"
  let ?v = "\<lparr>ve_recipient = replicate 32 9, ve_subsidy = 78124999, ve_miner_emission = 78124761, ve_protocol_burn = 238, ve_origin = []\<rparr>"
  have "total_fees (bd_operations (bk_body ?b)) = 1" by (simp add: total_fees_def sample_tail_block_def sample_invocation_def)
  then obtain s where low: "238 \<le> unat s" and tail: "1 + (unat s - 238) = 78124762"
    and iff: "\<forall>v. authorize_emission (\<lambda>_. []) ?b = Ok v \<longleftrightarrow>
      (\<exists>e. bd_emission (bk_body ?b) = Some e \<and> em_subsidy e = s \<and> ve_recipient v = em_to e \<and> ve_subsidy v = s \<and>
        unat (ve_miner_emission v) + 238 = unat s \<and> unat (ve_protocol_burn v) = 238 \<and> ve_origin v = [])"
    using emission_balanced [of ?b "\<lambda>_. []"] sample_tail unfolding domain_def by auto
  have "s = 78124999" using low tail by (simp add: word_unat_eq_iff)
  then have "authorize_emission (\<lambda>_. []) ?b = Ok ?v" using iff by (simp add: sample_tail_block_def)
  then show ?thesis by (intro exI [of _ ?v]) simp
qed

text \<open>
  C14. Retargeting is exact and bounded: after a full window of blocks within the size limit, the
  next target is the previous one scaled by 4/5, 1 or 6/5 according to the utilization of the window
  and capped at the limit, rounded down by at most one part in 32768 by the header encoding; the bits
  always decode, to a nonzero target not above the limit.
\<close>

theorem retarget_exact:
  assumes "from_compact bits = Some p" and "be_val p \<le> pow_limit_number"
    and "length ws = WBDA_WINDOW" and "\<forall>w \<in> set ws. w \<le> MAX_BLOCK_SIZE"
  shows "\<exists>bits' t. next_difficulty_from_window bits ws = Some bits' \<and> from_compact bits' = Some t \<and> 0 < be_val t \<and>
    be_val t \<le> min (adjusted_target (be_val p) ws) pow_limit_number \<and>
    (min (adjusted_target (be_val p) ws) pow_limit_number - be_val t) * 2 ^ 15 \<le> min (adjusted_target (be_val p) ws) pow_limit_number"
proof -
  obtain n where n: "next_difficulty_from_window bits ws = Some (to_compact n)" "length n = 32" "0 < be_val n"
    "be_val n = min (adjusted_target (be_val p) ws) pow_limit_number" using next_target [OF assms] by blast
  obtain t where t: "from_compact (to_compact n) = Some t" "length t = 32"
    "be_val t = be_val n - be_val n mod 256 ^ (encode_size (be_val n) - 3)" using from_compact_to_compact [OF n(2,3)] .
  have "be_val n - be_val t = be_val n mod 256 ^ (encode_size (be_val n) - 3)" unfolding t(3) by simp
  then have "(be_val n - be_val t) * 2 ^ 15 \<le> be_val n" using truncation_loss [OF n(3)] by simp
  moreover have "be_val t \<le> be_val n" unfolding t(3) by simp
  moreover have "0 < be_val t" using t(1) by (simp add: from_compact_Some_iff)
  ultimately show ?thesis using n(1) t(1) unfolding n(4) by blast
qed

theorem retarget_exact_witness:
  "\<exists>bits' t. next_difficulty_from_window TARGET_BITS_START (replicate 2500 0) = Some bits' \<and> from_compact bits' = Some t \<and>
     be_val t \<le> pow_limit_number * 80 div 100"
proof -
  obtain limit where l: "from_compact TARGET_BITS_START = Some limit" "be_val limit = pow_limit_number" using start_target by blast
  have a: "adjusted_target pow_limit_number (replicate 2500 0) = max 1 (pow_limit_number * 80 div 100)"
    by (simp add: adjusted_target_def window_utilization_def sum_list_replicate)
  have "1 \<le> pow_limit_number * 80 div 100" by (simp add: pow_limit_number_def)
  then have "min (adjusted_target pow_limit_number (replicate 2500 0)) pow_limit_number \<le> pow_limit_number * 80 div 100"
    unfolding a by (simp only: max_absorb2 min.cobounded1)
  then show ?thesis
    using retarget_exact [OF l(1), of "replicate 2500 0"] unfolding l(2) by (fastforce simp: WBDA_WINDOW_def)
qed

end
