(* ===== verification/Work.thy ===== *)
theory Work
  imports Target
begin

unbundle bit_operations_syntax

section \<open>Chain work (\<^verbatim>\<open>kernel/src/consensus/fork/work.rs\<close>)\<close>

text \<open>
  \<open>Work\<close> is a 512-bit number of eight big-endian \<open>u64\<close> limbs, and its derived order is the
  lexicographic order of the limbs. \<open>block_work\<close> divides \<open>2 ^ 256\<close> by the target plus one with a
  binary long division on five limbs. The loops that run from the last limb to the first recurse
  to the end of the list first. The \<open>debug_assert\<close>s of the division are branches to \<open>None\<close>, so a
  result shows that they hold. The lemmas say what each loop computes on \<open>be_val\<close>.
\<close>

type_synonym work = "u64 list"

definition WORK_ZERO :: work where "WORK_ZERO = replicate 8 0"
definition WORK_MAX :: work where "WORK_MAX = replicate 8 (- 1)"

definition pow2 :: "u32 \<Rightarrow> work" where
  "pow2 exponent =
     (if exponent \<ge> 512 then WORK_MAX
      else (replicate 8 0)[7 - unat (exponent div 64) := push_bit (unat (exponent mod 64)) 1])"

fun add_limbs :: "u64 list \<Rightarrow> u64 list \<Rightarrow> u64 list \<times> u128" where
  "add_limbs (a # as) (b # bs) =
     (let (result, carry) = add_limbs as bs;
          sum = ucast a + ucast b + carry :: u128
      in (ucast sum # result, drop_bit 64 sum))"
| "add_limbs _ _ = ([], 0)"

definition work_saturating_add :: "work \<Rightarrow> work \<Rightarrow> work" where
  "work_saturating_add a b =
     (let (result, carry) = add_limbs a b in if carry > 0 then WORK_MAX else result)"

fun add_one_limbs :: "u64 list \<Rightarrow> u64 list \<times> bool" where
  "add_one_limbs [] = ([], True)"
| "add_one_limbs (x # xs) =
     (let (rest, overflow) = add_one_limbs xs
      in if overflow then ((x + 1) # rest, x + 1 = 0) else (x # rest, False))"

definition add_one_u320 :: "u64 list \<Rightarrow> u64 list" where
  "add_one_u320 v = fst (add_one_limbs v)"

fun shift_left_one :: "u64 list \<Rightarrow> u64 list \<times> u64" where
  "shift_left_one [] = ([], 0)"
| "shift_left_one (x # xs) =
     (let (rest, carry) = shift_left_one xs in ((push_bit 1 x OR carry) # rest, drop_bit 63 x))"

definition shift_left_one_u320 :: "u64 list \<Rightarrow> u64 list option" where
  "shift_left_one_u320 v = (let (r, carry) = shift_left_one v in if carry = 0 then Some r else None)"

definition bit_u320 :: "u64 list \<Rightarrow> nat \<Rightarrow> bool" where
  "bit_u320 v bit_index =
     (drop_bit (63 - bit_index mod 64) (v ! (bit_index div 64)) AND 1 \<noteq> 0)"

definition set_bit_u320 :: "u64 list \<Rightarrow> nat \<Rightarrow> u64 list" where
  "set_bit_u320 v bit_index =
     v[bit_index div 64 := v ! (bit_index div 64) OR push_bit (63 - bit_index mod 64) 1]"

fun sub_limbs :: "u64 list \<Rightarrow> u64 list \<Rightarrow> u64 list \<times> bool" where
  "sub_limbs (a # as) (b # bs) =
     (let (rest, borrow) = sub_limbs as bs;
          first = a - b; first_borrow = a < b;
          sub = (if borrow then 1 else 0);
          second = first - sub; second_borrow = first < sub
      in (second # rest, first_borrow \<or> second_borrow))"
| "sub_limbs _ _ = ([], False)"

definition subtract_u320 :: "u64 list \<Rightarrow> u64 list \<Rightarrow> u64 list option" where
  "subtract_u320 left right =
     (if \<not> right \<le> left then None
      else let (r, borrow) = sub_limbs left right in if borrow then None else Some r)"

definition divide_step :: "u64 list \<Rightarrow> u64 list \<Rightarrow> u64 list \<times> u64 list \<Rightarrow> nat \<Rightarrow> (u64 list \<times> u64 list) option" where
  "divide_step numerator denominator s bit_index =
     (case s of (quot, remainder) \<Rightarrow>
        Option.bind (shift_left_one_u320 remainder) (\<lambda>remainder.
          let remainder = (if bit_u320 numerator bit_index then remainder[4 := remainder ! 4 OR 1] else remainder)
          in if remainder \<ge> denominator then
               Option.bind (subtract_u320 remainder denominator) (\<lambda>remainder.
                 Some (set_bit_u320 quot bit_index, remainder))
             else Some (quot, remainder)))"

fun divide_loop :: "u64 list \<Rightarrow> u64 list \<Rightarrow> u64 list \<times> u64 list \<Rightarrow> nat list \<Rightarrow> (u64 list \<times> u64 list) option" where
  "divide_loop numerator denominator s [] = Some s"
| "divide_loop numerator denominator s (i # is) =
     Option.bind (divide_step numerator denominator s i) (\<lambda>s. divide_loop numerator denominator s is)"

definition divide_u320 :: "u64 list \<Rightarrow> u64 list \<Rightarrow> u64 list option" where
  "divide_u320 numerator denominator =
     (if list_all (\<lambda>limb. limb = 0) denominator then None
      else map_option fst
        (divide_loop numerator denominator (replicate 5 0, replicate 5 0) [0..<320]))"

text \<open>\<open>u64::from_be_bytes\<close> and the chunks of eight bytes of a target.\<close>

definition u64_from_be_bytes :: "bytes \<Rightarrow> u64" where
  "u64_from_be_bytes bs = of_nat (be_val bs)"

fun limbs_of :: "nat \<Rightarrow> bytes \<Rightarrow> u64 list" where
  "limbs_of 0 bs = []"
| "limbs_of (Suc n) bs = u64_from_be_bytes (take 8 bs) # limbs_of n (drop 8 bs)"

definition block_work :: "u32 \<Rightarrow> work option" where
  "block_work target_bits =
     Option.bind (from_compact target_bits) (\<lambda>target.
       let denominator = add_one_u320 (0 # limbs_of 4 target)
       in Option.bind (divide_u320 [1, 0, 0, 0, 0] denominator) (\<lambda>quot.
            Some (0 # 0 # 0 # quot)))"

subsection \<open>The limb loops compute on numbers\<close>

lemma unat_u64_bound: "unat (x :: u64) < 2 ^ 64"
  by (rule unat_bound_le) simp

lemma add_limbs_correct:
  "length as = length bs \<Longrightarrow>
    (case add_limbs as bs of (result, carry) \<Rightarrow>
       length result = length as \<and> unat carry \<le> 1 \<and>
       unat carry * 2 ^ (64 * length as) + be_val result = be_val as + be_val bs)"
proof (induction as bs rule: list_induct2)
  case (Cons a as b bs)
  obtain result carry where r: "add_limbs as bs = (result, carry)" by fastforce
  let ?sum = "ucast a + ucast b + carry :: u128" and ?S = "unat a + unat b + unat carry"
  define B :: nat where "B = 2 ^ (64 * length bs)"
  have IH: "length result = length as" "unat carry \<le> 1" "unat carry * B + be_val result = be_val as + be_val bs"
    using Cons.IH Cons.hyps by (simp_all add: r B_def)
  have "?S < 2 ^ 65" using unat_bound_le [of 64 a] unat_bound_le [of 64 b] IH(2) by simp
  then have s: "unat ?sum = ?S" by (simp add: unat_word_ariths unat_ucast_up)
  have "unat (ucast ?sum :: u64) = ?S mod 2 ^ 64" "unat (drop_bit 64 ?sum) = ?S div 2 ^ 64"
    by (simp_all only: unat_ucast unat_drop_bit s) simp
  moreover have "?S div 2 ^ 64 \<le> 1" using \<open>?S < 2 ^ 65\<close> by (simp add: div_le_dividend less_mult_imp_div_less flip: less_Suc_eq_le)
  moreover have "?S div 2 ^ 64 * (2 ^ 64 * B) + ?S mod 2 ^ 64 * B = ?S * B" by (rule div_mod_scale)
  moreover have "2 ^ (64 * length (a # as)) = 2 ^ 64 * B" by (simp add: B_def power_add Cons.hyps)
  ultimately show ?case
    using IH Cons.hyps r by (simp add: Let_def B_def [symmetric] distrib_right)
qed simp


lemma unat_add_one:
  fixes x :: u64
  shows "unat (x + 1) = (if x + 1 = 0 then 0 else unat x + 1)" and "x + 1 = 0 \<Longrightarrow> unat x + 1 = 2 ^ 64"
proof -
  have "unat (x + 1) = (unat x + 1) mod 2 ^ 64" "unat x + 1 \<le> 2 ^ 64"
    using unat_bound_le [of 64 x] by (simp_all add: unat_word_ariths Suc_leI)
  then have "unat (x + 1) = (if unat x + 1 = 2 ^ 64 then 0 else unat x + 1)" by auto
  then show "unat (x + 1) = (if x + 1 = 0 then 0 else unat x + 1)" "x + 1 = 0 \<Longrightarrow> unat x + 1 = 2 ^ 64"
    by (auto simp: unat_eq_zero [symmetric] split: if_splits)
qed

lemma add_one_limbs_correct:
  "case add_one_limbs xs of (result, overflow) \<Rightarrow>
     length result = length xs \<and>
     of_bool overflow * 2 ^ (64 * length xs) + be_val result = be_val xs + 1"
proof (induction xs)
  case (Cons x xs)
  obtain r ov where r: "add_one_limbs xs = (r, ov)" by fastforce
  define B :: nat where "B = 2 ^ (64 * length xs)"
  have IH: "length r = length xs" "of_bool ov * B + be_val r = be_val xs + 1" using Cons by (simp_all add: r B_def)
  have "unat (x + 1) = (if x + 1 = 0 then 0 else unat x + 1)" "x + 1 = 0 \<Longrightarrow> unat x + 1 = 2 ^ 64"
    by (rule unat_add_one)+
  moreover have "2 ^ (64 * length (x # xs)) = 2 ^ 64 * B" by (simp add: B_def power_add)
  ultimately show ?case using IH r by (auto simp: Let_def B_def [symmetric] distrib_right)
qed simp

lemma shift_left_one_correct:
  "case shift_left_one xs of (result, carry) \<Rightarrow>
     length result = length xs \<and> unat carry \<le> 1 \<and>
     unat carry * 2 ^ (64 * length xs) + be_val result = 2 * be_val xs"
proof (induction xs)
  case (Cons x xs)
  obtain r c where r: "shift_left_one xs = (r, c)" by fastforce
  define B :: nat where "B = 2 ^ (64 * length xs)"
  have IH: "length r = length xs" "unat c \<le> 1" "unat c * B + be_val r = 2 * be_val xs" using Cons by (simp_all add: r B_def)
  have "push_bit 1 x AND c = 0" by (rule push_bit_and_small) (use IH(2) in simp)
  then have v: "unat (push_bit 1 x OR c) = unat x * 2 mod 2 ^ 64 + unat c"
    by (simp only: unat_or_disjoint unat_push_bit) simp
  have d: "unat (drop_bit 63 x) = unat x * 2 div 2 ^ 64" by (simp add: unat_drop_bit)
  have "unat x * 2 div 2 ^ 64 * (2 ^ 64 * B) + unat x * 2 mod 2 ^ 64 * B = unat x * 2 * B" by (rule div_mod_scale)
  moreover have "2 ^ (64 * length (x # xs)) = 2 ^ 64 * B" by (simp add: B_def power_add)
  moreover have "unat x * 2 div 2 ^ 64 \<le> 1"
    using unat_bound_le [of 64 x] by (simp add: less_mult_imp_div_less flip: less_Suc_eq_le)
  ultimately show ?case using IH r v d by (simp add: Let_def B_def [symmetric] distrib_right)
qed simp

lemma sub_limbs_correct:
  "length as = length bs \<Longrightarrow>
    (case sub_limbs as bs of (result, borrow) \<Rightarrow>
       length result = length as \<and>
       be_val result + be_val bs = be_val as + of_bool borrow * 2 ^ (64 * length as))"
proof (induction as bs rule: list_induct2)
  case (Cons a as b bs)
  obtain r br where r: "sub_limbs as bs = (r, br)" by fastforce
  define B :: nat where "B = 2 ^ (64 * length bs)"
  have IH: "length r = length as" "be_val r + be_val bs = be_val as + of_bool br * B"
    using Cons.IH Cons.hyps by (simp_all add: r B_def)
  let ?s = "if br then 1 else 0 :: u64"
  have wrap: "unat (x - y) + unat y = unat x + of_bool (x < y) * 2 ^ 64" for x y :: u64
  proof (cases "x < y")
    case True
    have "unat y \<le> unat x + 2 ^ 64" using unat_u64_bound [of y] by linarith
    with True show ?thesis by (simp add: unat_sub_if' word_less_nat_alt)
  qed (simp add: unat_sub_if' word_less_nat_alt)
  have s: "unat ?s = of_bool br" by simp
  have "unat (a - b - ?s) + unat b + of_bool br = unat a + of_bool (a < b \<or> a - b < ?s) * 2 ^ 64"
  proof -
    have "\<not> (a < b \<and> a - b < ?s)"
    proof
      assume "a < b \<and> a - b < ?s"
      then have "a < b" "unat (a - b) = 0" using s by (auto simp: word_less_nat_alt split: if_splits)
      then show False by (simp add: unat_eq_zero)
    qed
    then show ?thesis using wrap [of a b] wrap [of "a - b" ?s] s by (auto simp del: unsigned_less)
  qed
  moreover obtain d nb where "d = a - b - ?s" "nb = (a < b \<or> a - b < ?s)" by simp
  ultimately have d: "unat d + unat b + of_bool br = unat a + of_bool nb * 2 ^ 64"
    and sub: "sub_limbs (a # as) (b # bs) = (d # r, nb)"
    using r by (simp_all add: Let_def)
  have "unat d * B + unat b * B + of_bool br * B = unat a * B + of_bool nb * (2 ^ 64 * B)"
    using arg_cong [OF d, of "\<lambda>x. x * B"] by (simp only: distrib_right mult.assoc)
  moreover have "be_val (d # r) = unat d * B + be_val r" "be_val (b # bs) = unat b * B + be_val bs"
    "be_val (a # as) = unat a * B + be_val as" and p: "2 ^ (64 * length (a # as)) = 2 ^ 64 * B"
    using IH(1) Cons.hyps by (simp_all add: B_def power_add)
  ultimately have "be_val (d # r) + be_val (b # bs) = be_val (a # as) + of_bool nb * 2 ^ (64 * length (a # as))"
    using IH(2) unfolding p by linarith
  then show ?case unfolding sub using IH(1) by simp
qed simp


subsection \<open>Bits of a limb array\<close>

lemma be_val_set_limb:
  "l < length xs \<Longrightarrow>
    be_val (xs[l := y]) + unat (xs ! l) * 2 ^ (64 * (length xs - Suc l)) =
    be_val xs + unat (y :: u64) * 2 ^ (64 * (length xs - Suc l))"
proof (induction xs arbitrary: l)
  case (Cons x xs)
  then show ?case by (cases l) auto
qed simp

lemma bit_be_val:
  assumes "l < length xs" and "k < 64"
  shows "bit (be_val (xs :: u64 list)) (64 * (length xs - Suc l) + k) \<longleftrightarrow> bit (xs ! l) k"
proof -
  let ?e = "64 * (length xs - Suc l)"
  have xs: "xs = take l xs @ xs ! l # drop (Suc l) xs" using assms(1) by (rule id_take_nth_drop)
  have "be_val xs = (be_val (take l xs) * 2 ^ 64 + unat (xs ! l)) * 2 ^ ?e + be_val (drop (Suc l) xs)"
    by (subst xs) (simp add: be_val_append power_add distrib_right)
  moreover have "be_val (drop (Suc l) xs) < 2 ^ ?e" using be_val_bound [of "drop (Suc l) xs"] by simp
  ultimately have "be_val xs div 2 ^ ?e = be_val (take l xs) * 2 ^ 64 + unat (xs ! l)" by simp
  then have "be_val xs div 2 ^ (?e + k) = (be_val (take l xs) * 2 ^ 64 + unat (xs ! l)) div 2 ^ k"
    by (simp add: power_add div_mult2_eq)
  also have "\<dots> = be_val (take l xs) * 2 ^ (64 - k) + unat (xs ! l) div 2 ^ k"
  proof -
    have "(2 :: nat) ^ 64 = 2 ^ (64 - k) * 2 ^ k" using assms(2) by (simp flip: power_add)
    then show ?thesis by (simp only: mult.assoc [symmetric]) simp
  qed
  finally have "odd (be_val xs div 2 ^ (?e + k)) \<longleftrightarrow> odd (unat (xs ! l) div 2 ^ k)"
    using assms(2) by simp
  moreover have "bit (xs ! l) k \<longleftrightarrow> bit (unat (xs ! l)) k" by (simp add: bit_unsigned_iff)
  ultimately show ?thesis by (simp only: bit_iff_odd)
qed

lemma u320_index:
  assumes "i < 320"
  shows "319 - i = 64 * (5 - Suc (i div 64)) + (63 - i mod 64)" and "i div 64 < 5"
proof -
  show d: "i div 64 < 5" using assms by (simp add: less_mult_imp_div_less)
  have "i = 64 * (i div 64) + i mod 64" "i mod 64 < 64" by simp_all
  then show "319 - i = 64 * (5 - Suc (i div 64)) + (63 - i mod 64)" using d by linarith
qed

lemma bit_u320_correct:
  assumes "length v = 5" and "i < 320"
  shows "bit_u320 v i \<longleftrightarrow> odd (be_val v div 2 ^ (319 - i))"
proof -
  have "bit_u320 v i \<longleftrightarrow> bit (v ! (i div 64)) (63 - i mod 64)"
    by (simp add: bit_u320_def bit_iff_odd_drop_bit and_one_eq mod_2_eq_odd)
  also have "\<dots> \<longleftrightarrow> bit (be_val v) (319 - i)"
    using bit_be_val [of "i div 64" v "63 - i mod 64"] u320_index [OF assms(2)] assms(1) by simp
  finally show ?thesis by (simp add: bit_iff_odd)
qed

lemma unat_push_bit_one:
  assumes "k < 64"
  shows "unat (push_bit k 1 :: u64) = 2 ^ k"
proof -
  have "(2 :: nat) ^ k < 2 ^ LENGTH(64)" using assms by (intro power_strict_increasing) auto
  then show ?thesis by (simp only: unat_push_bit unsigned_1 mult_1 mod_less)
qed

lemma set_bit_u320_correct:
  assumes "length v = 5" and "i < 320" and "even (be_val v div 2 ^ (319 - i))"
  shows "be_val (set_bit_u320 v i) = be_val v + 2 ^ (319 - i)" and "length (set_bit_u320 v i) = 5"
proof -
  let ?l = "i div 64" and ?k = "63 - i mod 64"
  note ix = u320_index [OF assms(2)]
  have "\<not> bit (v ! ?l) ?k"
    using bit_be_val [of ?l v ?k] ix assms by (simp add: bit_iff_odd)
  then have "v ! ?l AND push_bit ?k 1 = 0"
    by (auto simp: push_bit_eq_mult and_exp_eq_0_iff_not_bit)
  moreover have "unat (push_bit ?k 1 :: u64) = 2 ^ ?k" by (rule unat_push_bit_one) simp
  ultimately have "unat (v ! ?l OR push_bit ?k 1) = unat (v ! ?l) + 2 ^ ?k" by (simp only: unat_or_disjoint)
  then show "be_val (set_bit_u320 v i) = be_val v + 2 ^ (319 - i)"
    using be_val_set_limb [of ?l v "v ! ?l OR push_bit ?k 1"] ix assms(1)
    by (simp add: set_bit_u320_def distrib_right distrib_left power_add mult.commute)
  show "length (set_bit_u320 v i) = 5" using assms(1) by (simp add: set_bit_u320_def)
qed


subsection \<open>Long division\<close>

lemma set_low_bit:
  fixes v :: "u64 list"
  assumes "length v = 5" and "even (be_val v)"
  shows "be_val (v[4 := v ! 4 OR 1]) = be_val v + 1" and "length (v[4 := v ! 4 OR 1]) = 5"
  using set_bit_u320_correct [of v 319] assms by (simp_all add: set_bit_u320_def)

lemma subtract_u320_correct:
  assumes "length a = 5" and "length b = 5" and "be_val b \<le> be_val a"
  shows "\<exists>r. subtract_u320 a b = Some r \<and> length r = 5 \<and> be_val r = be_val a - be_val b"
proof -
  obtain r br where r: "sub_limbs a b = (r, br)" by fastforce
  have c: "length r = 5" "be_val r + be_val b = be_val a + of_bool br * 2 ^ 320"
    using sub_limbs_correct [of a b] assms(1,2) by (simp_all add: r)
  have "be_val r < 2 ^ 320" using be_val_bound [of r] c(1) by simp
  then have "\<not> br" using c(2) assms(3) by (cases br) simp_all
  moreover have "b \<le> a" using assms be_val_le_iff [of b a] by simp
  ultimately show ?thesis using c r by (simp add: subtract_u320_def)
qed

lemma shift_left_one_u320_correct:
  assumes "length v = 5" and "be_val v < 2 ^ 319"
  shows "\<exists>r. shift_left_one_u320 v = Some r \<and> length r = 5 \<and> be_val r = 2 * be_val v"
proof -
  obtain r c where r: "shift_left_one v = (r, c)" by fastforce
  have c: "length r = 5" "unat c * 2 ^ 320 + be_val r = 2 * be_val v"
    using shift_left_one_correct [of v] assms(1) by (simp_all add: r)
  have "unat c = 0" using c(2) assms(2) by (cases "unat c") simp_all
  then show ?thesis using c r by (simp add: shift_left_one_u320_def unat_eq_zero)
qed

text \<open>
  After \<open>i\<close> bits the remainder is the remainder of the leading \<open>i\<close> bits of the numerator, and the
  quotient holds their quotient in its leading bits.
\<close>

definition divide_inv :: "nat \<Rightarrow> nat \<Rightarrow> nat \<Rightarrow> u64 list \<times> u64 list \<Rightarrow> bool" where
  "divide_inv N D i s =
     (length (fst s) = 5 \<and> length (snd s) = 5 \<and>
      be_val (fst s) = N div 2 ^ (320 - i) div D * 2 ^ (320 - i) \<and>
      be_val (snd s) = N div 2 ^ (320 - i) mod D)"

lemma shifted_div_mod:
  fixes P D x :: nat
  assumes "0 < D" and "x \<le> 1"
  shows "(if D \<le> 2 * (P mod D) + x then (2 * P + x) div D = 2 * (P div D) + 1 \<and> (2 * P + x) mod D = 2 * (P mod D) + x - D
    else (2 * P + x) div D = 2 * (P div D) \<and> (2 * P + x) mod D = 2 * (P mod D) + x)"
proof -
  define q where "q = P div D"
  define y where "y = 2 * (P mod D) + x"
  have P: "P = D * q + P mod D" by (simp add: q_def)
  have e: "2 * P + x = D * (2 * q) + y" by (subst P) (simp add: y_def algebra_simps)
  have "P mod D < D" using assms by simp
  then have lt: "y < 2 * D" using assms(2) by (simp add: y_def)
  show ?thesis
  proof (cases "D \<le> y")
    case True
    then have "2 * P + x = D * (2 * q + 1) + (y - D)" "y - D < D" using e lt by simp_all
    then have "(2 * P + x) div D = 2 * q + 1" "(2 * P + x) mod D = y - D" using assms(1) by (simp_all del: mult_Suc_right)
    then show ?thesis using True by (simp add: q_def y_def)
  next
    case False
    then have "(2 * P + x) div D = 2 * q" "(2 * P + x) mod D = y" using e assms(1) by simp_all
    then show ?thesis using False by (simp add: q_def y_def)
  qed
qed

lemma leading_bit:
  fixes N :: nat
  assumes "i < 320"
  shows "N div 2 ^ (320 - Suc i) = 2 * (N div 2 ^ (320 - i)) + of_bool (odd (N div 2 ^ (319 - i)))"
proof -
  have "320 - i = Suc (319 - i)" using assms by simp
  then have "N div 2 ^ (320 - i) = N div 2 ^ (319 - i) div 2" by (simp add: div_mult2_eq [symmetric] mult.commute)
  then show ?thesis by (cases "even (N div 2 ^ (319 - i))") simp_all
qed

lemma divide_step_correct:
  assumes inv: "divide_inv (be_val n) (be_val d) i s" and len: "length n = 5" "length d = 5"
    and D: "0 < be_val d" "be_val d \<le> 2 ^ 319" and i: "i < 320"
  shows "\<exists>s'. divide_step n d s i = Some s' \<and> divide_inv (be_val n) (be_val d) (Suc i) s'"
proof -
  obtain q r where s: "s = (q, r)" by fastforce
  define P where "P = be_val n div 2 ^ (320 - i)"
  define x :: nat where "x = of_bool (bit_u320 n i)"
  define E :: nat where "E = 2 ^ (319 - i)"
  have E: "2 ^ (320 - i) = 2 * E" using i by (simp add: E_def flip: power_Suc)
  have q: "length q = 5" "be_val q = P div be_val d * (2 * E)" and r: "length r = 5" "be_val r = P mod be_val d"
    using inv by (simp_all add: divide_inv_def s P_def E)
  have "be_val r < be_val d" using r(2) D(1) by simp
  then have "be_val r < 2 ^ 319" using D(2) by (rule less_le_trans)
  then obtain r1 where r1: "shift_left_one_u320 r = Some r1" "length r1 = 5" "be_val r1 = 2 * be_val r"
    using shift_left_one_u320_correct r(1) by blast
  define r2 where "r2 = (if bit_u320 n i then r1[4 := r1 ! 4 OR 1] else r1)"
  have r2: "length r2 = 5" "be_val r2 = 2 * (P mod be_val d) + x"
    using set_low_bit [OF r1(2)] r1 r(2) by (auto simp: r2_def x_def)
  have next_P: "be_val n div 2 ^ (320 - Suc i) = 2 * P + x"
    using leading_bit [OF i, of "be_val n"] bit_u320_correct [OF len(1) i] by (simp add: P_def x_def)
  note dm = shifted_div_mod [OF D(1), of x P]
  have x1: "x \<le> 1" by (simp add: x_def)
  have step: "divide_step n d s i = (if be_val d \<le> be_val r2
      then Option.bind (subtract_u320 r2 d) (\<lambda>r. Some (set_bit_u320 q i, r)) else Some (q, r2))"
    using r1(1) be_val_le_iff [of d r2] len(2) r2(1) by (simp add: divide_step_def s r2_def Let_def)
  show ?thesis
  proof (cases "be_val d \<le> be_val r2")
    case True
    obtain r3 where r3: "subtract_u320 r2 d = Some r3" "length r3 = 5" "be_val r3 = be_val r2 - be_val d"
      using subtract_u320_correct [OF r2(1) len(2) True] by blast
    have "even (be_val q div E)" by (simp add: q(2) E_def)
    then have "be_val (set_bit_u320 q i) = be_val q + E" "length (set_bit_u320 q i) = 5"
      using set_bit_u320_correct [OF q(1) i] by (simp_all add: E_def)
    then show ?thesis using True step r3 dm [OF x1] r2(2) q(2) next_P
      by (simp add: divide_inv_def E_def [symmetric] distrib_right)
  next
    case False
    then show ?thesis using step dm [OF x1] r2 q next_P
      by (simp add: divide_inv_def E_def [symmetric])
  qed
qed


lemma divide_loop_correct:
  assumes "length n = 5" "length d = 5" "0 < be_val d" "be_val d \<le> 2 ^ 319"
  shows "i \<le> 320 \<Longrightarrow> divide_inv (be_val n) (be_val d) i s \<Longrightarrow>
    \<exists>s'. divide_loop n d s [i..<320] = Some s' \<and> divide_inv (be_val n) (be_val d) 320 s'"
proof (induction "320 - i" arbitrary: i s)
  case (Suc k)
  then have i: "i < 320" by simp
  obtain s' where s': "divide_step n d s i = Some s'" "divide_inv (be_val n) (be_val d) (Suc i) s'"
    using divide_step_correct [OF Suc.prems(2) assms i] by blast
  then show ?case using Suc.hyps(1) [of "Suc i" s'] Suc.hyps(2) i by (simp add: upt_conv_Cons)
qed simp

lemma divide_u320_correct:
  assumes "length n = 5" "length d = 5" "0 < be_val d" "be_val d \<le> 2 ^ 319"
  shows "\<exists>q. divide_u320 n d = Some q \<and> length q = 5 \<and> be_val q = be_val n div be_val d"
proof -
  have "be_val n < 2 ^ 320" using be_val_bound [of n] assms(1) by simp
  then have "divide_inv (be_val n) (be_val d) 0 (replicate 5 0, replicate 5 0)"
    by (simp add: divide_inv_def)
  then obtain s' where "divide_loop n d (replicate 5 0, replicate 5 0) [0..<320] = Some s'"
    "divide_inv (be_val n) (be_val d) 320 s'"
    using divide_loop_correct [OF assms, of 0 "(replicate 5 0, replicate 5 0)"] by blast
  moreover have "\<not> list_all (\<lambda>limb. limb = 0) d" using assms(3) be_val_eq_0 [of d] by (auto simp: list_all_iff)
  ultimately show ?thesis by (auto simp: divide_u320_def divide_inv_def)
qed

lemma limbs_of_correct:
  "length bs = 8 * n \<Longrightarrow> length (limbs_of n bs) = n \<and> be_val (limbs_of n bs) = be_val bs"
proof (induction n arbitrary: bs)
  case (Suc n)
  have "be_val (take 8 bs) < 2 ^ 64" using be_val_bound [of "take 8 bs"] Suc.prems by simp
  then have "unat (u64_from_be_bytes (take 8 bs)) = be_val (take 8 bs)"
    by (simp add: u64_from_be_bytes_def unat_of_nat)
  moreover have "be_val bs = be_val (take 8 bs) * 2 ^ (64 * n) + be_val (drop 8 bs)"
    using be_val_append [of "take 8 bs" "drop 8 bs"] Suc.prems by simp
  ultimately show ?case using Suc.IH [of "drop 8 bs"] Suc.prems by simp
qed simp

lemma block_work_correct:
  assumes "from_compact bits = Some t"
  shows "\<exists>w. block_work bits = Some w \<and> length w = 8 \<and> be_val w = 2 ^ 256 div (be_val t + 1)"
proof -
  have len: "length t = 32" using assms by (simp add: from_compact_Some_iff)
  have limbs: "length (limbs_of 4 t) = 4" "be_val (limbs_of 4 t) = be_val t"
    using limbs_of_correct [of t 4] len by simp_all
  have bt: "be_val t < 2 ^ 256" using be_val_bound [of t] len by simp
  define d where "d = add_one_u320 (0 # limbs_of 4 t)"
  obtain r ov where r: "add_one_limbs (0 # limbs_of 4 t) = (r, ov)" by fastforce
  have "length r = 5" "of_bool ov * 2 ^ 320 + be_val r = be_val t + 1"
    using add_one_limbs_correct [of "0 # limbs_of 4 t"] limbs unfolding r by simp_all
  then have d: "length d = 5" "be_val d = be_val t + 1"
    using bt r by (cases ov; simp add: d_def add_one_u320_def)+
  have "be_val d \<le> 2 ^ 319" unfolding d(2) by (rule order_trans [of _ "2 ^ 256"]) (use bt in simp_all)
  then obtain q where "divide_u320 [1, 0, 0, 0, 0] d = Some q" "length q = 5" "be_val q = 2 ^ 256 div (be_val t + 1)"
    using divide_u320_correct [of "[1, 0, 0, 0, 0]" d] d by auto
  then show ?thesis using assms by (simp add: block_work_def d_def [symmetric])
qed

subsection \<open>Sums of work\<close>

lemma be_val_replicate_max: "Suc (be_val (replicate n (- 1 :: 'a::len word))) = 2 ^ (LENGTH('a) * n)"
proof (induction n)
  case (Suc n)
  define B :: nat where "B = 2 ^ (LENGTH('a) * n)"
  have "(2 ^ LENGTH('a) - 1) * B + B = 2 ^ LENGTH('a) * B" by (simp add: diff_mult_distrib)
  then show ?case using Suc.IH by (simp add: unat_minus_one_word B_def [symmetric] power_add)
qed simp

lemma work_max: "length WORK_MAX = 8" "be_val WORK_MAX = 2 ^ 512 - 1"
  using be_val_replicate_max [where n = 8 and 'a = 64] by (simp_all add: WORK_MAX_def)

lemma work_saturating_add_correct:
  assumes "length a = 8" "length b = 8"
  shows "length (work_saturating_add a b) = 8"
    and "be_val (work_saturating_add a b) = min (be_val a + be_val b) (2 ^ 512 - 1)"
proof -
  obtain r c where r: "add_limbs a b = (r, c)" by fastforce
  have c: "length r = 8" "unat c \<le> 1" "unat c * 2 ^ 512 + be_val r = be_val a + be_val b"
    using add_limbs_correct [of a b] assms by (simp_all add: r)
  have "be_val r < 2 ^ 512" using be_val_bound [of r] c(1) by simp
  moreover have "unat c = 0 \<or> unat c = 1" using c(2) by linarith
  moreover have "c > 0 \<longleftrightarrow> unat c \<noteq> 0" by (simp add: word_less_nat_alt)
  ultimately show "be_val (work_saturating_add a b) = min (be_val a + be_val b) (2 ^ 512 - 1)"
    using c(3) work_max r by (elim disjE) (simp_all add: work_saturating_add_def min_def)
  show "length (work_saturating_add a b) = 8"
    using c(1) work_max r by (simp add: work_saturating_add_def)
qed


lemma pow2_correct:
  "length (pow2 e) = 8 \<and> be_val (pow2 e) = (if unat e < 512 then 2 ^ unat e else 2 ^ 512 - 1)"
proof (cases "unat e < 512")
  case True
  let ?l = "7 - unat e div 64"
  have d: "unat e div 64 < 8" using True by (simp add: less_mult_imp_div_less)
  have "be_val ((replicate 8 0)[?l := push_bit (unat e mod 64) 1 :: u64]) = 2 ^ (unat e mod 64) * 2 ^ (64 * (unat e div 64))"
  proof -
    have "8 - Suc ?l = unat e div 64" using d by simp
    moreover have "unat (push_bit (unat e mod 64) 1 :: u64) = 2 ^ (unat e mod 64)" by (rule unat_push_bit_one) simp
    ultimately show ?thesis
      using be_val_update [of ?l "replicate 8 (0 :: u64)" "push_bit (unat e mod 64) 1"] by (simp del: replicate.simps)
  qed
  also have "\<dots> = 2 ^ unat e" by (simp flip: power_add)
  finally show ?thesis using True
    by (simp add: pow2_def word_le_nat_alt unat_div unat_mod)
next
  case False
  then show ?thesis using work_max by (simp add: pow2_def word_le_nat_alt)
qed

text \<open>C28. The work of a block is the expected number of hashes: for every header bits that decode to
  a target the division succeeds, without overflowing its 320-bit temporaries or tripping its
  assertions, and gives the floor of \<open>2 ^ 256\<close> over the target plus one; otherwise there is no work.\<close>

theorem block_work_exact:
  "case from_compact bits of
     None \<Rightarrow> block_work bits = None
   | Some t \<Rightarrow> (\<exists>w. block_work bits = Some w \<and> length w = 8 \<and> be_val w = 2 ^ 256 div (be_val t + 1) \<and> w > WORK_ZERO)"
proof (cases "from_compact bits")
  case None
  then show ?thesis by (simp add: block_work_def)
next
  case (Some t)
  obtain w where w: "block_work bits = Some w" "length w = 8" "be_val w = 2 ^ 256 div (be_val t + 1)"
    using block_work_correct [OF Some] by blast
  have "be_val t + 1 \<le> 2 ^ 256" using Some by (simp add: from_compact_Some_iff)
  then have "0 < be_val w" using w(3) by (simp add: div_greater_zero_iff)
  then have "w > WORK_ZERO" using be_val_less_iff [of WORK_ZERO w] w(2) by (simp add: WORK_ZERO_def)
  then show ?thesis using Some w by simp
qed

text \<open>Accumulated work is a saturating sum that the limb order compares as a number: adding is
  commutative and associative up to the 512-bit ceiling, never decreases, and strictly increases for
  nonzero work below the ceiling, so a longer chain on the same parent never has less work.\<close>

theorem work_sum_order:
  assumes "length a = 8" and "length b = 8" and "length c = 8"
  shows "be_val (work_saturating_add a b) = min (be_val a + be_val b) (2 ^ 512 - 1) \<and>
    work_saturating_add a b = work_saturating_add b a \<and>
    work_saturating_add (work_saturating_add a b) c = work_saturating_add a (work_saturating_add b c) \<and>
    a \<le> work_saturating_add a b \<and>
    (a \<le> b \<longrightarrow> work_saturating_add a c \<le> work_saturating_add b c) \<and>
    (WORK_ZERO < b \<and> a < WORK_MAX \<longrightarrow> a < work_saturating_add a b)"
proof -
  have len: "length (work_saturating_add x y) = 8" and val: "be_val (work_saturating_add x y) = min (be_val x + be_val y) (2 ^ 512 - 1)"
    if "length x = 8" "length y = 8" for x y
    using work_saturating_add_correct [OF that] by auto
  have bound: "be_val x \<le> 2 ^ 512 - 1" if "length x = 8" for x :: work
    using be_val_bound [of x] that by simp
  have eq: "x = y" if "length x = 8" "length y = 8" "be_val x = be_val y" for x y :: work
    using be_val_inj [of x y] that by simp
  have le: "x \<le> y \<longleftrightarrow> be_val x \<le> be_val y" "x < y \<longleftrightarrow> be_val x < be_val y" if "length x = 8" "length y = 8" for x y :: work
    using be_val_le_iff [of x y] be_val_less_iff [of x y] that by simp_all
  define M :: nat where "M = 2 ^ 512 - 1"
  note facts = assms len val [folded M_def] bound [folded M_def] work_max(1) work_max(2) [folded M_def]
  have z: "length WORK_ZERO = 8" "be_val WORK_ZERO = 0" by (simp_all add: WORK_ZERO_def)
  have 1: "work_saturating_add a b = work_saturating_add b a"
    by (rule eq) (simp_all add: facts add.commute)
  have 2: "work_saturating_add (work_saturating_add a b) c = work_saturating_add a (work_saturating_add b c)"
    by (rule eq) (simp_all add: facts min_def)
  have 3: "a \<le> work_saturating_add a b" "a \<le> b \<Longrightarrow> work_saturating_add a c \<le> work_saturating_add b c"
    using bound [OF assms(1), folded M_def] by (auto simp: le facts)
  have 4: "WORK_ZERO < b \<Longrightarrow> a < WORK_MAX \<Longrightarrow> a < work_saturating_add a b"
    by (simp add: le facts z)
  show ?thesis using 1 2 3 4 val [OF assms(1,2)] by blast
qed

theorem work_sum_order_witness:
  "work_saturating_add (pow2 3) (pow2 3) > pow2 3 \<and> WORK_MAX \<le> work_saturating_add WORK_MAX (pow2 3)"
proof -
  have len: "length (pow2 3) = 8" "length WORK_MAX = 8"
    using pow2_correct [of 3] by (simp_all add: WORK_MAX_def)
  have "WORK_ZERO < pow2 3 \<and> pow2 3 < WORK_MAX" by code_simp
  then show ?thesis
    using work_sum_order [OF len(1) len(1) len(1)] work_sum_order [OF len(2) len(1) len(1)] by blast
qed

end
