(* ===== verification/Header_Chain.thy ===== *)
theory Header_Chain
  imports Policy Work
begin

section \<open>Proof of work and header chains\<close>

text \<open>
  \<^verbatim>\<open>kernel/src/consensus/pow.rs\<close> (the Argon2id proof of work over a header, \<^verbatim>\<open>crypto/src/argon2.rs\<close>) and
  \<^verbatim>\<open>kernel/src/consensus/header.rs\<close> (validation of a header chain from genesis, the checkpoint a node keeps of
  it, and the validation of an extension from the checkpoint). The vendored Argon2 is the parameter
  \<open>argon2\<close>: from memory, iterations and lanes it gives no hasher (invalid parameters) or a function
  from seed and salt to the hash; the contents of a reused memory buffer do not influence it, so a
  buffer is its number of blocks. A chain in memory has fewer than \<open>2 ^ 64\<close> headers.

  The lemmas show that the loop with its window of 5000 recent headers accepts exactly the chains
  whose every header is linked, weighted, at the difficulty the whole chain prescribes and proven,
  and that validating an extension from a checkpoint is validating the whole chain.
\<close>

subsection \<open>Proof of work\<close>

type_synonym argon2 = "u32 \<Rightarrow> u32 \<Rightarrow> u32 \<Rightarrow> (bytes \<Rightarrow> bytes \<Rightarrow> bytes option) option"

datatype consensus_error = InvalidBlock block_error | InvalidEmission emission_error | InvalidDifficulty | UnexpectedDifficulty
  | InvalidPoWParameters | PoWHashFailed | InvalidHeight | InvalidPreviousHash | GenesisRequired | WrongGenesis | InsufficientPoW
  | ConsensusSerialization

definition POW_ARGON2_MEMORY_KIB :: u32 where "POW_ARGON2_MEMORY_KIB = 131072"
definition POW_ARGON2_ITERATIONS :: u32 where "POW_ARGON2_ITERATIONS = 1"
definition POW_ARGON2_LANES :: u32 where "POW_ARGON2_LANES = 1"

definition argon2id_pow_hash :: "argon2 \<Rightarrow> hash \<Rightarrow> hash \<Rightarrow> u32 \<Rightarrow> u32 \<Rightarrow> u32 \<Rightarrow> (hash, crypto_error) result" where
  "argon2id_pow_hash argon2 seed salt memory_kib iterations lanes =
     (case argon2 memory_kib iterations lanes of
        None \<Rightarrow> Err crypto_error.InvalidPoWParameters
      | Some hasher \<Rightarrow> ok_or (hasher seed salt) crypto_error.PoWHashFailed)"

definition argon2id_pow_hash_with_memory :: "argon2 \<Rightarrow> hash \<Rightarrow> hash \<Rightarrow> u32 \<Rightarrow> u32 \<Rightarrow> nat \<Rightarrow> (hash, crypto_error) result" where
  "argon2id_pow_hash_with_memory argon2 seed salt iterations lanes blocks =
     rbind (ok_or (try_from_nat blocks :: u32 option) crypto_error.InvalidPoWParameters) (\<lambda>memory_kib.
       argon2id_pow_hash argon2 seed salt memory_kib iterations lanes)"

definition new_pow_memory :: nat where "new_pow_memory = unat POW_ARGON2_MEMORY_KIB"

fun map_crypto_error :: "crypto_error \<Rightarrow> consensus_error" where
  "map_crypto_error crypto_error.InvalidPoWParameters = InvalidPoWParameters"
| "map_crypto_error _ = PoWHashFailed"

definition pow_seed :: "(bytes \<Rightarrow> hash) \<Rightarrow> header \<Rightarrow> (hash, consensus_error) result" where
  "pow_seed sha3 h = rbind (map_err (\<lambda>_. PoWHashFailed) (block_header_bytes h)) (\<lambda>bs. Ok (domain sha3 PoWSeed bs))"

definition pow_salt :: "(bytes \<Rightarrow> hash) \<Rightarrow> hash \<Rightarrow> hash" where
  "pow_salt sha3 previous_hash = domain sha3 PoWSalt previous_hash"

definition calculate_work :: "(bytes \<Rightarrow> hash) \<Rightarrow> argon2 \<Rightarrow> header \<Rightarrow> (hash, consensus_error) result" where
  "calculate_work sha3 argon2 h =
     rbind (pow_seed sha3 h) (\<lambda>seed. map_err map_crypto_error
       (argon2id_pow_hash argon2 seed (pow_salt sha3 (hd_previous_hash h)) POW_ARGON2_MEMORY_KIB POW_ARGON2_ITERATIONS POW_ARGON2_LANES))"

definition calculate_work_with_memory :: "(bytes \<Rightarrow> hash) \<Rightarrow> argon2 \<Rightarrow> header \<Rightarrow> nat \<Rightarrow> (hash, consensus_error) result" where
  "calculate_work_with_memory sha3 argon2 h memory =
     (if memory \<noteq> unat POW_ARGON2_MEMORY_KIB then Err InvalidPoWParameters
      else rbind (pow_seed sha3 h) (\<lambda>seed. map_err map_crypto_error
        (argon2id_pow_hash_with_memory argon2 seed (pow_salt sha3 (hd_previous_hash h)) POW_ARGON2_ITERATIONS POW_ARGON2_LANES memory)))"

definition validate_pow_claim :: "header \<Rightarrow> u32 \<Rightarrow> (unit, consensus_error) result" where
  "validate_pow_claim h expected =
     (if from_compact expected = None then Err InvalidDifficulty
      else if hd_target_bits h \<noteq> expected then Err UnexpectedDifficulty else Ok ())"

definition verify_pow_hash :: "hash \<Rightarrow> u32 \<Rightarrow> (unit, consensus_error) result" where
  "verify_pow_hash h expected =
     rbind (ok_or (from_compact expected) InvalidDifficulty) (\<lambda>target. if meets target h then Ok () else Err InsufficientPoW)"

definition verify_pow :: "(bytes \<Rightarrow> hash) \<Rightarrow> argon2 \<Rightarrow> header \<Rightarrow> u32 \<Rightarrow> (unit, consensus_error) result" where
  "verify_pow sha3 argon2 h expected =
     rbind (validate_pow_claim h expected) (\<lambda>_. rbind (calculate_work sha3 argon2 h) (\<lambda>w. verify_pow_hash w expected))"

definition verify_pow_with_memory :: "(bytes \<Rightarrow> hash) \<Rightarrow> argon2 \<Rightarrow> header \<Rightarrow> u32 \<Rightarrow> nat \<Rightarrow> (unit, consensus_error) result" where
  "verify_pow_with_memory sha3 argon2 h expected memory =
     rbind (validate_pow_claim h expected) (\<lambda>_. rbind (calculate_work_with_memory sha3 argon2 h memory) (\<lambda>w. verify_pow_hash w expected))"

subsection \<open>Header chains\<close>

definition RECENT_HEADER_WINDOW :: nat where "RECENT_HEADER_WINDOW = WBDA_WINDOW * 2"

record header_at_height =
  ch_height :: height
  ch_header :: header

datatype fork_choice_error = DuplicateBlock | UnexpectedGenesis | InvalidBlock block_error | InvalidDifficulty | InvalidHeader
  | InvalidProofOfWork consensus_error | InvalidHeight | MissingParent | ForkSerialization

datatype header_chain_error = EmptyHeaderChain | WrongGenesis | InvalidHeaderChain fork_choice_error | InvalidCommonAncestor
  | HeaderSerialization

record validation_state =
  hs_height :: height
  hs_header :: header
  hs_cumulative_work :: work
  hs_cumulative_weight :: u64
  hs_difficulty_anchor :: header_at_height
  hs_recent_headers :: "header_at_height list"

definition header_at_hash :: "(bytes \<Rightarrow> hash) \<Rightarrow> header_at_height \<Rightarrow> (hash, header_chain_error) result" where
  "header_at_hash sha3 c = map_err (\<lambda>_. HeaderSerialization) (block_header_hash sha3 (ch_header c))"

definition validate_header_weight :: "header \<Rightarrow> (unit, header_chain_error) result" where
  "validate_header_weight h =
     (if hd_block_weight h = 0 \<or> unat (hd_block_weight h) > MAX_BLOCK_SIZE then Err (InvalidHeaderChain InvalidHeader) else Ok ())"

text \<open>A \<open>u32\<close> weight always converts to \<open>usize\<close>.\<close>

definition weight_at :: "header_at_height list \<Rightarrow> height \<Rightarrow> (nat, header_chain_error) result" where
  "weight_at recent height =
     rbind (ok_or (find (\<lambda>c. ch_height c = height) recent) (InvalidHeaderChain MissingParent)) (\<lambda>c.
       Ok (unat (hd_block_weight (ch_header c))))"

definition expected_header_difficulty :: "header_at_height \<Rightarrow> header_at_height list \<Rightarrow> (u32, header_chain_error) result" where
  "expected_header_difficulty previous recent =
     rbind (expected_difficulty_for_height (saturating_add (ch_height previous) 1) (hd_target_bits (ch_header previous)) (weight_at recent)) (\<lambda>d.
       ok_or d (InvalidHeaderChain InvalidDifficulty))"

definition push_recent :: "header_at_height list \<Rightarrow> header_at_height \<Rightarrow> header_at_height list" where
  "push_recent recent current =
     (let r = recent @ [current] in if length r > RECENT_HEADER_WINDOW then tl r else r)"

definition verify_header_step ::
    "(bytes \<Rightarrow> hash) \<Rightarrow> argon2 \<Rightarrow> nat \<Rightarrow> header_at_height \<times> work \<times> header_at_height list \<Rightarrow> header_at_height \<Rightarrow>
     (header_at_height \<times> work \<times> header_at_height list, header_chain_error) result" where
  "verify_header_step sha3 argon2 memory s current = (case s of (previous, cumulative_work, recent) \<Rightarrow>
     rbind (validate_header_weight (ch_header current)) (\<lambda>_.
     rbind (if ch_height current \<noteq> saturating_add (ch_height previous) 1 then Err InvalidCommonAncestor
            else rbind (header_at_hash sha3 previous) (\<lambda>h.
              if hd_previous_hash (ch_header current) \<noteq> h then Err InvalidCommonAncestor else Ok ())) (\<lambda>_.
     rbind (expected_header_difficulty previous recent) (\<lambda>expected.
     if hd_target_bits (ch_header current) \<noteq> expected then Err (InvalidHeaderChain InvalidDifficulty)
     else rbind (map_err (\<lambda>e. InvalidHeaderChain (InvalidProofOfWork e)) (verify_pow_with_memory sha3 argon2 (ch_header current) expected memory)) (\<lambda>_.
       rbind (ok_or (block_work expected) (InvalidHeaderChain InvalidDifficulty)) (\<lambda>w.
         Ok (current, work_saturating_add cumulative_work w, push_recent recent current)))))))"

definition verify_header_chain ::
    "(bytes \<Rightarrow> hash) \<Rightarrow> argon2 \<Rightarrow> header_at_height list \<Rightarrow> hash \<Rightarrow> (hash \<times> work, header_chain_error) result" where
  "verify_header_chain sha3 argon2 headers expected_genesis = (case headers of
     [] \<Rightarrow> Err EmptyHeaderChain
   | first # rest \<Rightarrow>
       rbind (if ch_height first \<noteq> 0 then Err WrongGenesis
              else rbind (header_at_hash sha3 first) (\<lambda>h. if h \<noteq> expected_genesis then Err WrongGenesis else Ok ())) (\<lambda>_.
       rbind (try_fold (verify_header_step sha3 argon2 new_pow_memory) (first, WORK_ZERO, [first]) rest) (\<lambda>(previous, w, recent).
       rbind (header_at_hash sha3 previous) (\<lambda>h. Ok (h, w)))))"

definition cumulative_weight :: "u64 \<Rightarrow> header_at_height list \<Rightarrow> u64" where
  "cumulative_weight start headers = foldl (\<lambda>acc c. saturating_add acc (ucast (hd_block_weight (ch_header c)))) start headers"

definition header_validation_state ::
    "(bytes \<Rightarrow> hash) \<Rightarrow> argon2 \<Rightarrow> header_at_height list \<Rightarrow> hash \<Rightarrow> (validation_state, header_chain_error) result" where
  "header_validation_state sha3 argon2 headers expected_genesis =
     rbind (verify_header_chain sha3 argon2 headers expected_genesis) (\<lambda>(_, w).
     rbind (ok_or (if headers = [] then None else Some (last headers)) EmptyHeaderChain) (\<lambda>tip.
     let anchor = (if ch_height tip > 0 then 1 else 0) in
     rbind (ok_or (if anchor < length headers then Some (headers ! anchor) else None) EmptyHeaderChain) (\<lambda>difficulty_anchor.
     Ok \<lparr>hs_height = ch_height tip, hs_header = ch_header tip, hs_cumulative_work = w,
         hs_cumulative_weight = cumulative_weight 0 (drop 1 headers), hs_difficulty_anchor = difficulty_anchor,
         hs_recent_headers = drop (length headers - RECENT_HEADER_WINDOW) headers\<rparr>)))"

text \<open>The extension loop keeps the height, the header and the hash of the previous header.\<close>

definition extension_step ::
    "(bytes \<Rightarrow> hash) \<Rightarrow> argon2 \<Rightarrow> nat \<Rightarrow> height \<times> header \<times> hash \<times> work \<times> header_at_height list \<Rightarrow> header_at_height \<Rightarrow>
     (height \<times> header \<times> hash \<times> work \<times> header_at_height list, header_chain_error) result" where
  "extension_step sha3 argon2 memory s current = (case s of (previous_height, previous, previous_hash, cumulative_work, recent) \<Rightarrow>
     let h = ch_header current in
     rbind (validate_header_weight h) (\<lambda>_.
     if ch_height current \<noteq> saturating_add previous_height 1 \<or> hd_previous_hash h \<noteq> previous_hash then Err InvalidCommonAncestor
     else rbind (expected_difficulty_for_height (ch_height current) (hd_target_bits previous) (weight_at recent)) (\<lambda>d.
       rbind (ok_or d (InvalidHeaderChain InvalidDifficulty)) (\<lambda>expected.
       if hd_target_bits h \<noteq> expected then Err (InvalidHeaderChain InvalidDifficulty)
       else rbind (map_err (\<lambda>e. InvalidHeaderChain (InvalidProofOfWork e)) (verify_pow_with_memory sha3 argon2 h expected memory)) (\<lambda>_.
         rbind (ok_or (block_work expected) (InvalidHeaderChain InvalidDifficulty)) (\<lambda>w.
         rbind (map_err (\<lambda>_. HeaderSerialization) (block_header_hash sha3 h)) (\<lambda>hash.
           Ok (ch_height current, h, hash, work_saturating_add cumulative_work w, push_recent recent current))))))))"

definition verify_header_chain_extension ::
    "(bytes \<Rightarrow> hash) \<Rightarrow> argon2 \<Rightarrow> nat \<Rightarrow> validation_state \<Rightarrow> header_at_height list \<Rightarrow> (hash \<times> work, header_chain_error) result" where
  "verify_header_chain_extension sha3 argon2 memory s headers =
     rbind (map_err (\<lambda>_. HeaderSerialization) (block_header_hash sha3 (hs_header s))) (\<lambda>checkpoint_hash.
     if hs_recent_headers s = [] \<or> length (hs_recent_headers s) > RECENT_HEADER_WINDOW \<or>
        ch_header (last (hs_recent_headers s)) \<noteq> hs_header s
     then Err InvalidCommonAncestor
     else rbind (try_fold (extension_step sha3 argon2 memory)
          (hs_height s, hs_header s, checkpoint_hash, hs_cumulative_work s, hs_recent_headers s) headers)
        (\<lambda>(_, _, previous_hash, w, _). Ok (previous_hash, w)))"

definition advance_header_validation_state ::
    "(bytes \<Rightarrow> hash) \<Rightarrow> argon2 \<Rightarrow> nat \<Rightarrow> validation_state \<Rightarrow> header_at_height list \<Rightarrow> (validation_state, header_chain_error) result" where
  "advance_header_validation_state sha3 argon2 memory s headers =
     rbind (verify_header_chain_extension sha3 argon2 memory s headers) (\<lambda>(_, w).
     let recent = hs_recent_headers s @ headers in
     Ok \<lparr>hs_height = (if headers = [] then hs_height s else ch_height (last headers)),
         hs_header = (if headers = [] then hs_header s else ch_header (last headers)),
         hs_cumulative_work = w, hs_cumulative_weight = cumulative_weight (hs_cumulative_weight s) headers,
         hs_difficulty_anchor = hs_difficulty_anchor s,
         hs_recent_headers = (if length recent > RECENT_HEADER_WINDOW then drop (length recent - RECENT_HEADER_WINDOW) recent else recent)\<rparr>)"


subsection \<open>Checkpoints\<close>

definition header_id :: "(bytes \<Rightarrow> hash) \<Rightarrow> header_at_height \<Rightarrow> hash" where
  "header_id sha3 c = domain sha3 Header (enc_header (ch_header c))"

lemma header_hash_Ok [simp]:
  "block_header_hash sha3 (ch_header c) = Ok (header_id sha3 c)" "header_at_hash sha3 c = Ok (header_id sha3 c)"
  by (simp_all add: header_at_hash_def block_header_hash_def block_header_bytes_def canonical_bytes_def header_id_def)

definition checkpoint_of :: "(bytes \<Rightarrow> hash) \<Rightarrow> header_at_height \<times> work \<times> header_at_height list \<Rightarrow>
    height \<times> header \<times> hash \<times> work \<times> header_at_height list" where
  "checkpoint_of sha3 s = (case s of (previous, w, recent) \<Rightarrow> (ch_height previous, ch_header previous, header_id sha3 previous, w, recent))"

lemma try_fold_simulation:
  assumes "\<And>s x. g (h s) x = rbind (f s x) (\<lambda>s'. Ok (h s'))"
  shows "try_fold g (h s) xs = rbind (try_fold f s xs) (\<lambda>s'. Ok (h s'))"
proof (induction xs arbitrary: s)
  case (Cons x xs)
  then show ?case by (cases "f s x") (simp_all add: assms)
qed simp

lemma extension_step_simulates:
  "extension_step sha3 argon2 memory (checkpoint_of sha3 s) c = rbind (verify_header_step sha3 argon2 memory s c) (\<lambda>s'. Ok (checkpoint_of sha3 s'))"
proof -
  obtain p w r where s: "s = (p, w, r)" by (cases s)
  show ?thesis
  proof (cases "ch_height c = saturating_add (ch_height p) 1 \<and> hd_previous_hash (ch_header c) = header_id sha3 p")
    case True
    then show ?thesis
      by (cases "validate_header_weight (ch_header c)"; cases "expected_difficulty_for_height (ch_height c) (hd_target_bits (ch_header p)) (weight_at r)")
        (auto simp: s extension_step_def verify_header_step_def checkpoint_of_def expected_header_difficulty_def Let_def rbind_def ok_or_def map_err_def
          split: option.splits sum.splits)
  next
    case False
    then show ?thesis
      by (cases "validate_header_weight (ch_header c)") (auto simp: s extension_step_def verify_header_step_def checkpoint_of_def Let_def)
  qed
qed

lemma step_keeps_recent:
  assumes "try_fold (verify_header_step sha3 argon2 memory) (last hs, w, drop (length hs - RECENT_HEADER_WINDOW) hs) cs = Ok (p, w', r)" "hs \<noteq> []"
  shows "p = last (hs @ cs) \<and> r = drop (length (hs @ cs) - RECENT_HEADER_WINDOW) (hs @ cs)"
  using assms
proof (induction cs arbitrary: hs w)
  case (Cons c cs)
  obtain q w1 r1 where step: "verify_header_step sha3 argon2 memory (last hs, w, drop (length hs - RECENT_HEADER_WINDOW) hs) c = Ok (q, w1, r1)"
    and rest: "try_fold (verify_header_step sha3 argon2 memory) (q, w1, r1) cs = Ok (p, w', r)"
    using Cons.prems(1) by (auto simp: result_simps)
  have q: "q = c" "r1 = push_recent (drop (length hs - RECENT_HEADER_WINDOW) hs) c"
    using step by (auto simp: verify_header_step_def result_simps split: if_splits)
  have "r1 = drop (length (hs @ [c]) - RECENT_HEADER_WINDOW) (hs @ [c])"
  proof -
    let ?n = "length hs - RECENT_HEADER_WINDOW"
    have "drop ?n hs @ [c] = drop ?n (hs @ [c])" by simp
    then have "tl (drop ?n hs @ [c]) = drop (Suc ?n) (hs @ [c])" by (simp only: tl_drop drop_Suc)
    then show ?thesis unfolding q(2) push_recent_def Let_def
      by (cases "length hs < RECENT_HEADER_WINDOW") (simp_all add: not_less Suc_diff_le)
  qed
  then show ?case using Cons.IH [of "hs @ [c]" w1] rest q(1) by simp
qed simp


text \<open>A checkpoint taken after a valid chain is the state of the loop there.\<close>

lemma window_pos: "RECENT_HEADER_WINDOW = 5000"
  by (simp add: RECENT_HEADER_WINDOW_def WBDA_WINDOW_def)

lemma verified_prefix:
  assumes "verify_header_chain sha3 argon2 hs g = Ok (t, w)"
  shows "hs \<noteq> [] \<and> t = header_id sha3 (last hs) \<and>
    try_fold (verify_header_step sha3 argon2 new_pow_memory) (hd hs, WORK_ZERO, [hd hs]) (tl hs) =
      Ok (last hs, w, drop (length hs - RECENT_HEADER_WINDOW) hs)"
proof -
  obtain f rest where hs: "hs = f # rest" using assms by (cases hs) (simp_all add: verify_header_chain_def)
  obtain p r where fold: "try_fold (verify_header_step sha3 argon2 new_pow_memory) (f, WORK_ZERO, [f]) rest = Ok (p, w, r)" "t = header_id sha3 p"
    using assms by (auto simp: hs verify_header_chain_def result_simps split: if_splits)
  have "drop (length [f] - RECENT_HEADER_WINDOW) [f] = [f]" by (simp add: window_pos)
  then have "p = last hs" "r = drop (length hs - RECENT_HEADER_WINDOW) hs"
    using step_keeps_recent [of sha3 argon2 new_pow_memory "[f]" WORK_ZERO rest p w r] fold(1) by (simp_all add: hs)
  then show ?thesis using fold hs by simp
qed

lemma verify_header_chain_append:
  assumes "verify_header_chain sha3 argon2 hs g = Ok (t, w)"
  shows "verify_header_chain sha3 argon2 (hs @ cs) g =
    rbind (try_fold (verify_header_step sha3 argon2 new_pow_memory) (last hs, w, drop (length hs - RECENT_HEADER_WINDOW) hs) cs)
      (\<lambda>(p, w, r). Ok (header_id sha3 p, w))"
proof -
  obtain f rest where hs: "hs = f # rest" using assms by (cases hs) (simp_all add: verify_header_chain_def)
  have genesis: "ch_height f = 0" "header_id sha3 f = g" using assms by (auto simp: hs verify_header_chain_def result_simps split: if_splits)
  show ?thesis using verified_prefix [OF assms]
    by (simp add: hs verify_header_chain_def genesis try_fold_append)
qed

lemma extension_is_chain:
  assumes "header_validation_state sha3 argon2 hs g = Ok s"
  shows "verify_header_chain_extension sha3 argon2 new_pow_memory s cs = verify_header_chain sha3 argon2 (hs @ cs) g"
proof -
  obtain t w where v: "verify_header_chain sha3 argon2 hs g = Ok (t, w)" and ne: "hs \<noteq> []"
    and s: "hs_height s = ch_height (last hs)" "hs_header s = ch_header (last hs)" "hs_cumulative_work s = w"
      "hs_recent_headers s = drop (length hs - RECENT_HEADER_WINDOW) hs"
    using assms verified_prefix by (fastforce simp: header_validation_state_def Let_def result_simps split: if_splits)
  have last: "hs_recent_headers s \<noteq> []" "last (hs_recent_headers s) = last hs" "length (hs_recent_headers s) \<le> RECENT_HEADER_WINDOW"
  proof -
    have "length hs - 5000 < length hs" using ne by (cases hs) auto
    then show "hs_recent_headers s \<noteq> []" "last (hs_recent_headers s) = last hs" "length (hs_recent_headers s) \<le> RECENT_HEADER_WINDOW"
      by (simp_all add: s(4) window_pos)
  qed
  let ?s = "(last hs, w, hs_recent_headers s)"
  have "try_fold (extension_step sha3 argon2 new_pow_memory) (checkpoint_of sha3 ?s) cs =
      rbind (try_fold (verify_header_step sha3 argon2 new_pow_memory) ?s cs) (\<lambda>s. Ok (checkpoint_of sha3 s))"
    by (rule try_fold_simulation) (rule extension_step_simulates)
  then show ?thesis unfolding verify_header_chain_append [OF v] verify_header_chain_extension_def
    using last s by (cases "try_fold (verify_header_step sha3 argon2 new_pow_memory) ?s cs") (auto simp: checkpoint_of_def not_less)
qed


subsection \<open>What an accepted chain is\<close>

abbreviation header_bits :: "header_at_height \<Rightarrow> u32" where "header_bits c \<equiv> hd_target_bits (ch_header c)"
abbreviation header_weight :: "header_at_height \<Rightarrow> nat" where "header_weight c \<equiv> unat (hd_block_weight (ch_header c))"

text \<open>The difficulty the whole chain so far prescribes for its next header.\<close>

definition chain_difficulty :: "header_at_height list \<Rightarrow> u32 option" where
  "chain_difficulty hs =
     (if length hs = 1 then Some TARGET_BITS_START
      else if (length hs - 1) mod WBDA_WINDOW \<noteq> 0 then Some (header_bits (last hs))
      else next_difficulty_from_window (header_bits (last hs)) (map header_weight (drop (length hs - WBDA_WINDOW) hs)))"

definition proven :: "(bytes \<Rightarrow> hash) \<Rightarrow> argon2 \<Rightarrow> header \<Rightarrow> bool" where
  "proven sha3 argon2 h \<longleftrightarrow> (\<exists>target w. from_compact (hd_target_bits h) = Some target \<and> calculate_work sha3 argon2 h = Ok w \<and> meets target w)"

definition extends_chain :: "(bytes \<Rightarrow> hash) \<Rightarrow> argon2 \<Rightarrow> header_at_height list \<Rightarrow> header_at_height \<Rightarrow> bool" where
  "extends_chain sha3 argon2 hs c \<longleftrightarrow> 0 < header_weight c \<and> header_weight c \<le> MAX_BLOCK_SIZE \<and> ch_height c = of_nat (length hs) \<and>
     hd_previous_hash (ch_header c) = header_id sha3 (last hs) \<and> chain_difficulty hs = Some (header_bits c) \<and> proven sha3 argon2 (ch_header c)"

inductive valid_headers :: "(bytes \<Rightarrow> hash) \<Rightarrow> argon2 \<Rightarrow> hash \<Rightarrow> header_at_height list \<Rightarrow> work \<Rightarrow> bool" for sha3 argon2 g where
  genesis: "ch_height f = 0 \<Longrightarrow> header_id sha3 f = g \<Longrightarrow> valid_headers sha3 argon2 g [f] WORK_ZERO"
| extend: "valid_headers sha3 argon2 g hs w \<Longrightarrow> extends_chain sha3 argon2 hs c \<Longrightarrow> block_work (header_bits c) = Some b \<Longrightarrow>
    valid_headers sha3 argon2 g (hs @ [c]) (work_saturating_add w b)"

lemma valid_heights: "valid_headers sha3 argon2 g hs w \<Longrightarrow> hs \<noteq> [] \<and> (\<forall>i < length hs. ch_height (hs ! i) = of_nat i)"
  by (induction rule: valid_headers.induct) (auto simp: nth_append less_Suc_eq extends_chain_def)

lemma memory_pow: "verify_pow_with_memory sha3 argon2 h expected new_pow_memory = verify_pow sha3 argon2 h expected"
proof -
  have "try_from_nat (unat POW_ARGON2_MEMORY_KIB) = Some POW_ARGON2_MEMORY_KIB" by (simp add: try_from_nat_def POW_ARGON2_MEMORY_KIB_def)
  then have "calculate_work_with_memory sha3 argon2 h new_pow_memory = calculate_work sha3 argon2 h"
    by (simp add: calculate_work_with_memory_def calculate_work_def new_pow_memory_def argon2id_pow_hash_with_memory_def)
  then show ?thesis by (simp add: verify_pow_with_memory_def verify_pow_def)
qed

lemma verify_pow_Ok: "verify_pow sha3 argon2 h expected = Ok () \<longleftrightarrow> hd_target_bits h = expected \<and> proven sha3 argon2 h"
  by (auto simp: verify_pow_def validate_pow_claim_def verify_pow_hash_def proven_def result_simps split: if_splits)

lemma u64_nat: "n < 2 ^ 64 \<Longrightarrow> unat (of_nat n :: u64) = n"
  by (simp add: unat_of_nat)

lemma next_height_nat:
  assumes "0 < n" "n < 2 ^ 64"
  shows "saturating_add (of_nat (n - 1)) 1 = (of_nat n :: u64)"
proof -
  obtain m where m: "n = Suc m" "Suc m < 2 ^ 64" using assms by (cases n) auto
  have "unat (of_nat m :: u64) = m" "unat (of_nat (Suc m) :: u64) = Suc m" using m by (intro u64_nat; simp)+
  then have "unat (saturating_add (of_nat m) 1 :: u64) = unat (of_nat (Suc m) :: u64)"
    using m(2) by (simp add: unat_saturating_add)
  then show ?thesis by (simp only: m word_unat_eq_iff diff_Suc_1)
qed

lemma boundary_nat:
  assumes "n < 2 ^ 64"
  shows "is_wbda_epoch_boundary (of_nat n) \<longleftrightarrow> 1 < n \<and> (n - 1) mod WBDA_WINDOW = 0"
proof (cases "1 < n")
  case True
  have "unat (of_nat n - 1 :: u64) = n - 1" using True u64_nat [OF assms] by (simp add: unat_sub word_le_nat_alt)
  then have "unat ((of_nat n - 1 :: u64) mod 2500) = (n - 1) mod 2500" by (simp add: unat_mod)
  then have "(of_nat n - 1 :: u64) mod 2500 = 0 \<longleftrightarrow> (n - 1) mod 2500 = 0" by (metis unat_eq_zero)
  then show ?thesis using True u64_nat [OF assms] by (simp add: is_wbda_epoch_boundary_def WBDA_WINDOW_def word_less_nat_alt)
next
  case False
  then show ?thesis using u64_nat [OF assms] by (simp add: is_wbda_epoch_boundary_def word_less_nat_alt)
qed

lemma collect_map_Ok: "(\<And>x. x \<in> set xs \<Longrightarrow> f x = Ok (g x)) \<Longrightarrow> collect (map f xs) = Ok (map g xs)"
  by (induction xs) simp_all

text \<open>
  The difficulty rule reads the weights of the last window from whatever holds the headers: the
  window of recent headers here, the chain of a ledger, a branch of the fork graph. The interface is
  that the store stands for a chain of headers and answers for the heights of its last window.
\<close>

locale header_source =
  fixes stands :: "'s \<Rightarrow> header_at_height list \<Rightarrow> bool" and weight_of :: "'s \<Rightarrow> height \<Rightarrow> (nat, 'e) result"
  assumes stands_bounds: "stands s hs \<Longrightarrow> 0 < length hs \<and> length hs < 2 ^ 64"
    and weight_of_window: "stands s hs \<Longrightarrow> length hs - WBDA_WINDOW \<le> j \<Longrightarrow> j < length hs \<Longrightarrow> weight_of s (of_nat j) = Ok (header_weight (hs ! j))"
begin

lemma window_weights:
  assumes s: "stands s hs" and n: "WBDA_WINDOW \<le> length hs"
  shows "collect (map (weight_of s) (height_range (of_nat (length hs) - of_nat WBDA_WINDOW) WBDA_WINDOW)) =
    Ok (map header_weight (drop (length hs - WBDA_WINDOW) hs))"
proof -
  let ?s = "length hs - WBDA_WINDOW"
  have "(of_nat (length hs) - of_nat WBDA_WINDOW :: u64) = of_nat ?s" using n by (simp add: of_nat_diff)
  then have range: "height_range (of_nat (length hs) - of_nat WBDA_WINDOW) WBDA_WINDOW = map (\<lambda>k. of_nat (?s + k)) [0..<WBDA_WINDOW]"
    by (simp add: height_range_def)
  have "collect (map (weight_of s) (map (\<lambda>k. of_nat (?s + k)) [0..<WBDA_WINDOW])) =
      Ok (map (\<lambda>k. header_weight (hs ! (?s + k))) [0..<WBDA_WINDOW])"
    unfolding map_map
  proof (rule collect_map_Ok)
    fix k
    assume "k \<in> set [0..<WBDA_WINDOW]"
    then have "?s + k < length hs" using n by auto
    then show "(weight_of s \<circ> (\<lambda>k. of_nat (?s + k))) k = Ok (header_weight (hs ! (?s + k)))"
      using weight_of_window [OF s, of "?s + k"] by (simp del: of_nat_add)
  qed
  also have "map (\<lambda>k. header_weight (hs ! (?s + k))) [0..<WBDA_WINDOW] = map header_weight (drop ?s hs)"
    by (rule nth_equalityI) (use n in simp_all)
  finally show ?thesis unfolding range .
qed

lemma prescribed_difficulty:
  assumes s: "stands s hs"
  shows "expected_difficulty_for_height (of_nat (length hs)) (header_bits (last hs)) (weight_of s) = Ok (chain_difficulty hs)"
proof -
  let ?n = "length hs"
  have len: "?n < 2 ^ 64" and ne: "0 < ?n" using stands_bounds [OF s] by simp_all
  have one: "(of_nat ?n :: u64) = 1 \<longleftrightarrow> ?n = 1" using u64_nat [OF len] by (metis of_nat_1 unat_1)
  show ?thesis
  proof (cases "1 < ?n \<and> (?n - 1) mod WBDA_WINDOW = 0")
    case True
    then have big: "WBDA_WINDOW \<le> ?n" by (metis One_nat_def Suc_pred diff_is_0_eq' dvd_imp_le less_imp_le mod_0_imp_dvd ne not_less le_SucI zero_less_diff)
    have "unat (of_nat ?n - (of_nat ?n - of_nat WBDA_WINDOW) :: u64) = WBDA_WINDOW" by (simp add: WBDA_WINDOW_def)
    then show ?thesis
      using True one boundary_nat [OF len] window_weights [OF s big]
      by (simp add: expected_difficulty_for_height_def Let_def chain_difficulty_def expected_difficulty_from_window_def)
  next
    case False
    moreover have "?n = 1 \<or> 1 < ?n" using ne by linarith
    ultimately show ?thesis using one boundary_nat [OF len]
      by (auto simp: expected_difficulty_for_height_def chain_difficulty_def)
  qed
qed

end

definition recent_stands :: "header_at_height list \<Rightarrow> header_at_height list \<Rightarrow> bool" where
  "recent_stands recent hs \<longleftrightarrow> hs \<noteq> [] \<and> length hs < 2 ^ 64 \<and> (\<forall>i < length hs. ch_height (hs ! i) = of_nat i) \<and>
     recent = drop (length hs - RECENT_HEADER_WINDOW) hs"

interpretation recent: header_source recent_stands weight_at
proof
  fix s hs and j :: nat
  assume s: "recent_stands s hs" and j: "length hs - WBDA_WINDOW \<le> j" "j < length hs"
  let ?m = "length hs - RECENT_HEADER_WINDOW"
  have m: "?m \<le> j" using j(1) by (simp add: RECENT_HEADER_WINDOW_def)
  have inj: "(of_nat i :: u64) = of_nat j \<longleftrightarrow> i = j" if "i < length hs" for i
    using u64_nat [of i] u64_nat [of j] that j(2) s unfolding recent_stands_def by (metis less_trans)
  have h: "ch_height (hs ! i) = of_nat i" if "i < length hs" for i using s that by (simp add: recent_stands_def)
  have "find (\<lambda>c. ch_height c = of_nat j) (drop ?m hs) = Some (hs ! j)"
    unfolding find_Some_iff
  proof (intro exI [of _ "j - ?m"] conjI allI impI)
    show "j - ?m < length (drop ?m hs)" "ch_height (drop ?m hs ! (j - ?m)) = of_nat j" "hs ! j = drop ?m hs ! (j - ?m)" using j m h by simp_all
    show "ch_height (drop ?m hs ! i) \<noteq> of_nat j" if "i < j - ?m" for i
      using that j m h inj [of "?m + i"] by simp
  qed
  then show "weight_at s (of_nat j) = Ok (header_weight (hs ! j))" using s by (simp add: weight_at_def recent_stands_def)
qed (simp add: recent_stands_def)

lemma next_height:
  assumes "\<forall>i < length hs. ch_height (hs ! i) = of_nat i" "hs \<noteq> []" "length hs < 2 ^ 64"
  shows "saturating_add (ch_height (last hs)) 1 = of_nat (length hs)"
  using assms next_height_nat [of "length hs"] by (simp add: last_conv_nth)

lemma expected_difficulty_chain:
  assumes v: "valid_headers sha3 argon2 g hs w" and len: "length hs < 2 ^ 64"
  shows "expected_header_difficulty (last hs) (drop (length hs - RECENT_HEADER_WINDOW) hs) =
    ok_or (chain_difficulty hs) (InvalidHeaderChain InvalidDifficulty)"
proof -
  note h = valid_heights [OF v]
  have "recent_stands (drop (length hs - RECENT_HEADER_WINDOW) hs) hs" unfolding recent_stands_def using h len by blast
  then show ?thesis using next_height [of hs] h len
    by (simp add: expected_header_difficulty_def recent.prescribed_difficulty)
qed

lemma verify_step_iff:
  assumes v: "valid_headers sha3 argon2 g hs w" and len: "length hs < 2 ^ 64"
  shows "verify_header_step sha3 argon2 new_pow_memory (last hs, w, drop (length hs - RECENT_HEADER_WINDOW) hs) c = Ok (p, w', r) \<longleftrightarrow>
    extends_chain sha3 argon2 hs c \<and> (\<exists>b. block_work (header_bits c) = Some b \<and> w' = work_saturating_add w b) \<and> p = c \<and>
    r = push_recent (drop (length hs - RECENT_HEADER_WINDOW) hs) c"
proof -
  have nxt: "saturating_add (ch_height (last hs)) 1 = of_nat (length hs)" using next_height valid_heights [OF v] len by blast
  show ?thesis
    unfolding verify_header_step_def prod.case expected_difficulty_chain [OF v len] memory_pow nxt
    by (auto simp: validate_header_weight_def extends_chain_def verify_pow_Ok result_simps unat_gt_0 split: if_splits)
qed


lemma fold_valid:
  assumes "valid_headers sha3 argon2 g hs w" "length (hs @ cs) \<le> 2 ^ 64"
  shows "try_fold (verify_header_step sha3 argon2 new_pow_memory) (last hs, w, drop (length hs - RECENT_HEADER_WINDOW) hs) cs = Ok (p, w', r) \<Longrightarrow>
    valid_headers sha3 argon2 g (hs @ cs) w'"
  using assms
proof (induction cs arbitrary: hs w)
  case (Cons c cs)
  let ?s = "(last hs, w, drop (length hs - RECENT_HEADER_WINDOW) hs)"
  have len: "length hs < 2 ^ 64" using Cons.prems(3) by simp
  obtain q w1 r1 where step: "verify_header_step sha3 argon2 new_pow_memory ?s c = Ok (q, w1, r1)"
    and rest: "try_fold (verify_header_step sha3 argon2 new_pow_memory) (q, w1, r1) cs = Ok (p, w', r)"
    using Cons.prems(1) by (auto simp: result_simps)
  have "valid_headers sha3 argon2 g (hs @ [c]) w1" "q = c"
    using step Cons.prems(2) unfolding verify_step_iff [OF Cons.prems(2) len] by (auto intro: valid_headers.extend)
  moreover have "r1 = drop (length (hs @ [c]) - RECENT_HEADER_WINDOW) (hs @ [c])"
    using step_keeps_recent [of sha3 argon2 new_pow_memory hs w "[c]" q w1 r1] step valid_heights [OF Cons.prems(2)] by simp
  ultimately show ?case using Cons.IH [of "hs @ [c]" w1] rest Cons.prems(3) by simp
qed simp

lemma valid_fold:
  "valid_headers sha3 argon2 g hs w \<Longrightarrow> length hs < 2 ^ 64 \<Longrightarrow>
   try_fold (verify_header_step sha3 argon2 new_pow_memory) (hd hs, WORK_ZERO, [hd hs]) (tl hs) =
     Ok (last hs, w, drop (length hs - RECENT_HEADER_WINDOW) hs) \<and> ch_height (hd hs) = 0 \<and> header_id sha3 (hd hs) = g"
proof (induction rule: valid_headers.induct)
  case (extend hs w c b)
  have ne: "hs \<noteq> []" using valid_heights [OF extend.hyps(1)] by simp
  let ?r = "push_recent (drop (length hs - RECENT_HEADER_WINDOW) hs) c"
  have step: "verify_header_step sha3 argon2 new_pow_memory (last hs, w, drop (length hs - RECENT_HEADER_WINDOW) hs) c = Ok (c, work_saturating_add w b, ?r)"
    using verify_step_iff [OF extend.hyps(1)] extend.hyps(2,3) extend.prems by simp
  have "?r = drop (length (hs @ [c]) - RECENT_HEADER_WINDOW) (hs @ [c])"
    using step_keeps_recent [of sha3 argon2 new_pow_memory hs w "[c]"] step ne by simp
  then show ?case using extend.IH extend.prems step ne by (simp add: try_fold_append)
qed (simp add: window_pos)

lemma verify_header_chain_iff:
  assumes "length hs < 2 ^ 64"
  shows "verify_header_chain sha3 argon2 hs g = Ok (t, w) \<longleftrightarrow> valid_headers sha3 argon2 g hs w \<and> t = header_id sha3 (last hs)"
proof
  assume v: "verify_header_chain sha3 argon2 hs g = Ok (t, w)"
  then obtain f rest where hs: "hs = f # rest" by (cases hs) (simp_all add: verify_header_chain_def)
  have f: "ch_height f = 0" "header_id sha3 f = g" using v by (auto simp: hs verify_header_chain_def result_simps split: if_splits)
  have "valid_headers sha3 argon2 g ([f] @ rest) w"
    using fold_valid [OF valid_headers.genesis [OF f], of rest] verified_prefix [OF v] assms by (simp add: hs window_pos)
  then show "valid_headers sha3 argon2 g hs w \<and> t = header_id sha3 (last hs)" using verified_prefix [OF v] by (simp add: hs)
next
  assume v: "valid_headers sha3 argon2 g hs w \<and> t = header_id sha3 (last hs)"
  then obtain f rest where hs: "hs = f # rest" using valid_heights [OF conjunct1 [OF v]] by (cases hs) auto
  show "verify_header_chain sha3 argon2 hs g = Ok (t, w)"
    using valid_fold [OF conjunct1 [OF v] assms] v by (simp add: hs verify_header_chain_def)
qed


lemma trim_recent:
  "(if length (drop (length hs - n) hs @ cs) > n then drop (length (drop (length hs - n) hs @ cs) - n) (drop (length hs - n) hs @ cs)
    else drop (length hs - n) hs @ cs) = drop (length (hs @ cs) - n) (hs @ cs)"
proof -
  have "drop (length hs - n) hs @ cs = drop (length hs - n) (hs @ cs)" by simp
  moreover have "length hs + length cs - (length hs - n) - n + (length hs - n) = length hs + length cs - n"
    if "n < length hs + length cs - (length hs - n)" using that by linarith
  ultimately show ?thesis by (cases "n \<le> length hs") (auto simp del: drop_append)
qed

lemma advanced_state:
  assumes s: "header_validation_state sha3 argon2 hs g = Ok s" and long: "1 < length hs" and len: "length (hs @ cs) < 2 ^ 64"
  shows "advance_header_validation_state sha3 argon2 new_pow_memory s cs = header_validation_state sha3 argon2 (hs @ cs) g"
proof -
  have x: "verify_header_chain_extension sha3 argon2 new_pow_memory s cs = verify_header_chain sha3 argon2 (hs @ cs) g"
    by (rule extension_is_chain [OF s])
  show ?thesis
  proof (cases "verify_header_chain sha3 argon2 (hs @ cs) g")
    case (Inl e)
    then show ?thesis by (simp add: advance_header_validation_state_def header_validation_state_def x)
  next
    case (Inr tw)
    then obtain t w where tw: "verify_header_chain sha3 argon2 (hs @ cs) g = Ok (t, w)" by (cases tw) auto
    obtain t0 w0 where v0: "verify_header_chain sha3 argon2 hs g = Ok (t0, w0)" using s by (auto simp: header_validation_state_def result_simps)
    have pos: "ch_height (last xs) > 0" if "verify_header_chain sha3 argon2 xs g = Ok (t', w')" "1 < length xs" "length xs < 2 ^ 64" for xs t' w'
    proof -
      have "ch_height (last xs) = of_nat (length xs - 1)" "xs \<noteq> []"
        using valid_heights that verify_header_chain_iff [OF that(3)] by (auto simp: last_conv_nth)
      then show ?thesis using u64_nat [of "length xs - 1"] that(2,3) by (simp add: word_less_nat_alt)
    qed
    have "ch_height (last hs) > 0" "ch_height (last (hs @ cs)) > 0" using pos [OF v0 long] pos [OF tw] long len by simp_all
    moreover have "hs \<noteq> []" "(hs @ cs) ! 1 = hs ! 1" using long by (auto simp: nth_append)
    moreover have "cumulative_weight 0 (drop 1 (hs @ cs)) = cumulative_weight (cumulative_weight 0 (drop 1 hs)) cs"
      using long by (simp add: cumulative_weight_def)
    moreover have sf: "hs_height s = ch_height (last hs)" "hs_header s = ch_header (last hs)" "hs_difficulty_anchor s = hs ! 1"
      "hs_cumulative_weight s = cumulative_weight 0 (drop 1 hs)" "hs_recent_headers s = drop (length hs - RECENT_HEADER_WINDOW) hs"
      using s v0 long \<open>ch_height (last hs) > 0\<close> by (auto simp: header_validation_state_def Let_def result_simps split: if_splits)
    moreover have "(if length (hs_recent_headers s @ cs) > RECENT_HEADER_WINDOW
        then drop (length (hs_recent_headers s @ cs) - RECENT_HEADER_WINDOW) (hs_recent_headers s @ cs) else hs_recent_headers s @ cs) =
        drop (length (hs @ cs) - RECENT_HEADER_WINDOW) (hs @ cs)" unfolding sf by (rule trim_recent)
    ultimately show ?thesis using long
      unfolding advance_header_validation_state_def header_validation_state_def x tw Let_def rbind_simps prod.case
      by (cases "cs = []") (simp_all del: drop_append)
  qed
qed

subsection \<open>Properties\<close>

text \<open>
  C3. Header synchronization accepts exactly the valid chains and reports their work: the chain
  starts at the expected genesis, and every further header is linked to its predecessor by hash and
  height, has a weight within the block limit, carries the difficulty the whole chain prescribes
  (although the loop keeps only 5000 recent headers) and is proven by its Argon2id hash; the returned
  work is the saturating sum of the work of the headers.
\<close>

theorem header_chain_exact:
  assumes "length hs < 2 ^ 64"
  shows "verify_header_chain sha3 argon2 hs g = Ok (t, w) \<longleftrightarrow> valid_headers sha3 argon2 g hs w \<and> t = header_id sha3 (last hs)"
  using assms by (rule verify_header_chain_iff)

text \<open>
  C22. Validating an extension from a checkpoint is validating the whole chain, with the same result
  or the same error; and advancing a checkpoint above genesis gives the checkpoint of the whole chain.
\<close>

theorem checkpoint_extension_exact:
  assumes "header_validation_state sha3 argon2 hs g = Ok s" and "length (hs @ cs) < 2 ^ 64"
  shows "verify_header_chain_extension sha3 argon2 new_pow_memory s cs = verify_header_chain sha3 argon2 (hs @ cs) g \<and>
    (1 < length hs \<longrightarrow> advance_header_validation_state sha3 argon2 new_pow_memory s cs = header_validation_state sha3 argon2 (hs @ cs) g)"
  using extension_is_chain [OF assms(1)] advanced_state [OF assms(1) _ assms(2)] by blast

definition sample_header :: "u32 \<Rightarrow> header" where
  "sample_header bits = \<lparr>hd_previous_hash = replicate 32 0, hd_merkle_root = replicate 32 0, hd_state_root = replicate 32 0,
     hd_target_bits = bits, hd_block_weight = 200, hd_nonce = 0\<rparr>"

definition sample_argon2 :: argon2 where
  "sample_argon2 = (\<lambda>_ _ _. Some (\<lambda>_ _. Some (replicate 32 0)))"

abbreviation sample_chain :: "header_at_height list" where
  "sample_chain \<equiv> [\<lparr>ch_height = 0, ch_header = sample_header GENESIS_TARGET_BITS\<rparr>, \<lparr>ch_height = 1, ch_header = sample_header TARGET_BITS_START\<rparr>]"

lemma sample_extends:
  "extends_chain (\<lambda>_. replicate 32 0) sample_argon2 [\<lparr>ch_height = 0, ch_header = sample_header GENESIS_TARGET_BITS\<rparr>]
     \<lparr>ch_height = 1, ch_header = sample_header TARGET_BITS_START\<rparr>"
proof -
  obtain limit where l: "from_compact TARGET_BITS_START = Some limit" "length limit = 32" using start_target by blast
  have "meets limit (replicate 32 0)" using l(2) target_le_iff [of "replicate 32 0" limit] by (simp add: meets_def)
  moreover have "calculate_work (\<lambda>_. replicate 32 0) sample_argon2 (sample_header TARGET_BITS_START) = Ok (replicate 32 0)"
    by (simp add: calculate_work_def pow_seed_def block_header_bytes_def canonical_bytes_def argon2id_pow_hash_def sample_argon2_def)
  ultimately have "proven (\<lambda>_. replicate 32 0) sample_argon2 (sample_header TARGET_BITS_START)"
    using l(1) by (auto simp: proven_def sample_header_def)
  then show ?thesis by (simp add: extends_chain_def sample_header_def MAX_BLOCK_SIZE_def header_id_def domain_def chain_difficulty_def)
qed

lemma sample_chain_valid: "\<exists>w. valid_headers (\<lambda>_. replicate 32 0) sample_argon2 (replicate 32 0) sample_chain w"
proof -
  let ?f = "\<lparr>ch_height = 0, ch_header = sample_header GENESIS_TARGET_BITS\<rparr>" and ?c = "\<lparr>ch_height = 1, ch_header = sample_header TARGET_BITS_START\<rparr>"
  have g: "valid_headers (\<lambda>_. replicate 32 0) sample_argon2 (replicate 32 0) [?f] WORK_ZERO"
    by (rule valid_headers.genesis) (simp_all add: header_id_def domain_def)
  obtain b where "block_work TARGET_BITS_START = Some b" using block_work_correct start_target by blast
  then show ?thesis using valid_headers.extend [OF g sample_extends, of b] by (auto simp: sample_header_def)
qed

theorem header_chain_exact_witness:
  "length sample_chain < 2 ^ 64 \<and> (\<exists>w. verify_header_chain (\<lambda>_. replicate 32 0) sample_argon2 sample_chain (replicate 32 0) =
     Ok (header_id (\<lambda>_. replicate 32 0) (last sample_chain), w))"
proof -
  have "length sample_chain < 2 ^ 64" by simp
  then show ?thesis using sample_chain_valid header_chain_exact [OF \<open>length sample_chain < 2 ^ 64\<close>] by blast
qed

lemma sample_checkpoint: "\<exists>s. header_validation_state (\<lambda>_. replicate 32 0) sample_argon2 sample_chain (replicate 32 0) = Ok s"
proof -
  obtain w where "valid_headers (\<lambda>_. replicate 32 0) sample_argon2 (replicate 32 0) sample_chain w" using sample_chain_valid by blast
  then have "verify_header_chain (\<lambda>_. replicate 32 0) sample_argon2 sample_chain (replicate 32 0) =
      Ok (header_id (\<lambda>_. replicate 32 0) (last sample_chain), w)"
    by (subst verify_header_chain_iff) simp_all
  then show ?thesis by (simp add: header_validation_state_def)
qed

theorem checkpoint_extension_exact_witness:
  "\<exists>s. header_validation_state (\<lambda>_. replicate 32 0) sample_argon2 sample_chain (replicate 32 0) = Ok s \<and>
     length (sample_chain @ [sample_chain ! 1]) < 2 ^ 64 \<and> 1 < length sample_chain \<and>
     verify_header_chain_extension (\<lambda>_. replicate 32 0) sample_argon2 new_pow_memory s [sample_chain ! 1] =
       verify_header_chain (\<lambda>_. replicate 32 0) sample_argon2 (sample_chain @ [sample_chain ! 1]) (replicate 32 0) \<and>
     advance_header_validation_state (\<lambda>_. replicate 32 0) sample_argon2 new_pow_memory s [sample_chain ! 1] =
       header_validation_state (\<lambda>_. replicate 32 0) sample_argon2 (sample_chain @ [sample_chain ! 1]) (replicate 32 0)"
proof -
  obtain s where s: "header_validation_state (\<lambda>_. replicate 32 0) sample_argon2 sample_chain (replicate 32 0) = Ok s"
    using sample_checkpoint by blast
  have l: "length (sample_chain @ [sample_chain ! 1]) < 2 ^ 64" "1 < length sample_chain" by simp_all
  show ?thesis using checkpoint_extension_exact [OF s l(1)] s l by blast
qed

end
