(* ===== verification/Chain.thy ===== *)
theory Chain
  imports Header_Chain Tables
begin

section \<open>The chain of blocks and block validation\<close>

text \<open>
  \<^verbatim>\<open>kernel/src/blockchain/chain.rs\<close> (headers and resident bodies by height, the tip, insertion and removal at the
  tip, eviction and rehydration of old bodies) and the block validation of \<^verbatim>\<open>kernel/src/consensus/block.rs\<close>
  (structure, linkage, difficulty, proof of work, emission). A map from heights stands for a
  \<^verbatim>\<open>BTreeMap\<close>; the optional proof-of-work buffer is the number of its blocks.

  The lemmas show that a chain reached by any sequence of applied, removed, evicted and rehydrated
  blocks is, header by header, a chain that header synchronization accepts, that validation accepts
  exactly the blocks that extend it, and that removing the tip undoes an insertion.
\<close>

subsection \<open>The chain\<close>

datatype chain_error = DuplicateBlock | InvalidHeight | InvalidParent | MissingBody | ChainSerialization codec_error

record block_chain =
  cn_headers :: "height \<rightharpoonup> header"
  cn_blocks :: "height \<rightharpoonup> block"
  cn_tip_height :: "height option"
  cn_tip_hash :: "hash option"

definition chain_new :: block_chain where
  "chain_new = \<lparr>cn_headers = Map.empty, cn_blocks = Map.empty, cn_tip_height = None, cn_tip_hash = None\<rparr>"

definition has_blocks :: "block_chain \<Rightarrow> bool" where
  "has_blocks c = (cn_tip_height c \<noteq> None)"

definition chain_headers :: "block_chain \<Rightarrow> header_at_height list" where
  "chain_headers c = map (\<lambda>(h, x). \<lparr>ch_height = h, ch_header = x\<rparr>) (map_entries (cn_headers c))"

definition chain_validate_next_block :: "block_chain \<Rightarrow> block \<Rightarrow> (unit, chain_error) result" where
  "chain_validate_next_block c b =
     (if bk_height b \<in> dom (cn_headers c) then Err DuplicateBlock
      else case (cn_tip_height c, cn_tip_hash c) of
          (None, None) \<Rightarrow>
            if bk_height b \<noteq> 0 \<or> hd_previous_hash (bk_header b) \<noteq> replicate HASH_SIZE 0 then Err InvalidHeight else Ok ()
        | (Some tip_height, Some tip_hash) \<Rightarrow>
            if bk_height b \<noteq> saturating_add tip_height 1 then Err InvalidHeight
            else if hd_previous_hash (bk_header b) \<noteq> tip_hash then Err InvalidParent else Ok ()
        | _ \<Rightarrow> Err InvalidParent)"

definition chain_insert_block :: "(bytes \<Rightarrow> hash) \<Rightarrow> block_chain \<Rightarrow> block \<Rightarrow> (block_chain, chain_error) result" where
  "chain_insert_block sha3 c b =
     rbind (chain_validate_next_block c b) (\<lambda>_.
     rbind (map_err ChainSerialization (block_header_hash sha3 (bk_header b))) (\<lambda>h.
     Ok \<lparr>cn_headers = (cn_headers c)(bk_height b \<mapsto> bk_header b), cn_blocks = (cn_blocks c)(bk_height b \<mapsto> b),
         cn_tip_height = Some (bk_height b), cn_tip_hash = Some h\<rparr>))"

definition remove_tip :: "(bytes \<Rightarrow> hash) \<Rightarrow> block_chain \<Rightarrow> hash \<Rightarrow> block_chain \<times> (block, chain_error) result" where
  "remove_tip sha3 c expected_hash =
     (if cn_tip_hash c \<noteq> Some expected_hash then (c, Err InvalidParent)
      else case cn_tip_height c of
        None \<Rightarrow> (c, Err InvalidHeight)
      | Some height \<Rightarrow> (case cn_blocks c height of
          None \<Rightarrow> (c, Err MissingBody)
        | Some b \<Rightarrow>
            let headers = (cn_headers c)(height := None);
                previous_height = checked_sub height 1;
                c' = c\<lparr>cn_blocks := (cn_blocks c)(height := None), cn_headers := headers, cn_tip_height := previous_height\<rparr>
            in (case Option.bind previous_height headers of
                  None \<Rightarrow> (c'\<lparr>cn_tip_hash := None\<rparr>, Ok b)
                | Some previous \<Rightarrow> (case block_header_hash sha3 previous of
                      Inl e \<Rightarrow> (c', Err (ChainSerialization e))
                    | Inr h \<Rightarrow> (c'\<lparr>cn_tip_hash := Some h\<rparr>, Ok b)))))"

definition retain_step :: "height option \<Rightarrow> nat \<Rightarrow> nat \<Rightarrow> nat \<times> nat \<times> height list \<Rightarrow> height \<times> block \<Rightarrow> (nat \<times> nat \<times> height list, chain_error) result" where
  "retain_step tip max_bytes max_blocks s e = (case s of (bytes, count, remove) \<Rightarrow> case e of (height, b) \<Rightarrow>
     rbind (map_err ChainSerialization (serialized_size b)) (\<lambda>sz.
       if (height = 0 \<or> Some height = tip) \<or> (count < max_blocks \<and> sz \<le> max_bytes - bytes)
       then Ok (bytes + sz, count + 1, remove)
       else Ok (bytes, count, remove @ [height])))"

definition retain_recent_bodies :: "block_chain \<Rightarrow> nat \<Rightarrow> nat \<Rightarrow> (block_chain, chain_error) result" where
  "retain_recent_bodies c max_bytes max_blocks =
     rbind (try_fold (retain_step (cn_tip_height c) max_bytes max_blocks) (0, 0, []) (rev (map_entries (cn_blocks c)))) (\<lambda>(_, _, remove).
       Ok (c\<lparr>cn_blocks := fold (\<lambda>h m. m(h := None)) remove (cn_blocks c)\<rparr>))"

definition cache_known_block :: "(bytes \<Rightarrow> hash) \<Rightarrow> block_chain \<Rightarrow> block \<Rightarrow> (block_chain, chain_error) result" where
  "cache_known_block sha3 c b =
     (if cn_headers c (bk_height b) \<noteq> Some (bk_header b) then Err InvalidParent
      else rbind (map_err (\<lambda>_. InvalidParent) (validate_structure sha3 b)) (\<lambda>_.
        Ok (c\<lparr>cn_blocks := (cn_blocks c)(bk_height b \<mapsto> b)\<rparr>)))"

subsection \<open>Block validation\<close>

record validated_block =
  vb_block :: block
  vb_emission :: "validated_emission option"

definition validate_pow_at_target_bits :: "(bytes \<Rightarrow> hash) \<Rightarrow> argon2 \<Rightarrow> block \<Rightarrow> u32 \<Rightarrow> (unit, consensus_error) result" where
  "validate_pow_at_target_bits sha3 argon2 b expected =
     (if hd_target_bits (bk_header b) \<noteq> expected then Err UnexpectedDifficulty
      else if from_compact expected = None then Err consensus_error.InvalidDifficulty
      else verify_pow sha3 argon2 (bk_header b) (hd_target_bits (bk_header b)))"

definition validate_genesis_block :: "(bytes \<Rightarrow> hash) \<Rightarrow> block \<Rightarrow> (unit, consensus_error) result" where
  "validate_genesis_block sha3 b =
     rbind (map_err consensus_error.InvalidBlock (validate_structure sha3 b)) (\<lambda>_.
       if bk_height b \<noteq> 0 \<or> hd_previous_hash (bk_header b) \<noteq> replicate HASH_SIZE 0 then Err consensus_error.InvalidHeight else Ok ())"

definition chain_weight_at :: "block_chain \<Rightarrow> height \<Rightarrow> (nat, consensus_error) result" where
  "chain_weight_at c height =
     rbind (ok_or (cn_headers c height) InvalidPreviousHash) (\<lambda>h. Ok (unat (hd_block_weight h)))"

definition expected_difficulty :: "block_chain \<Rightarrow> height \<Rightarrow> (u32, consensus_error) result" where
  "expected_difficulty c height =
     (if height = 0 then Ok GENESIS_TARGET_BITS
      else rbind (ok_or (cn_headers c (height - 1)) InvalidPreviousHash) (\<lambda>parent.
        rbind (expected_difficulty_for_height height (hd_target_bits parent) (chain_weight_at c)) (\<lambda>d.
          ok_or d consensus_error.InvalidDifficulty)))"

definition expected_next_difficulty :: "block_chain \<Rightarrow> (u32, consensus_error) result" where
  "expected_next_difficulty c =
     expected_difficulty c (case cn_tip_height c of None \<Rightarrow> 0 | Some h \<Rightarrow> saturating_add h 1)"

fun map_chain_error :: "chain_error \<Rightarrow> consensus_error" where
  "map_chain_error InvalidHeight = consensus_error.InvalidHeight"
| "map_chain_error DuplicateBlock = consensus_error.InvalidHeight"
| "map_chain_error _ = InvalidPreviousHash"

definition validate_for_apply ::
    "(bytes \<Rightarrow> hash) \<Rightarrow> argon2 \<Rightarrow> block \<Rightarrow> block_chain \<Rightarrow> bool \<Rightarrow> nat option \<Rightarrow> (validated_block, consensus_error) result" where
  "validate_for_apply sha3 argon2 b c enforce_pow memory =
     rbind (map_err consensus_error.InvalidBlock (validate_structure sha3 b)) (\<lambda>_.
     rbind (map_err map_chain_error (chain_validate_next_block c b)) (\<lambda>_.
     rbind (if is_genesis b then Ok ()
            else rbind (expected_difficulty c (bk_height b)) (\<lambda>expected.
              if enforce_pow
              then (case memory of
                  Some m \<Rightarrow> verify_pow_with_memory sha3 argon2 (bk_header b) expected m
                | None \<Rightarrow> validate_pow_at_target_bits sha3 argon2 b expected)
              else if hd_target_bits (bk_header b) \<noteq> expected then Err UnexpectedDifficulty else Ok ())) (\<lambda>_.
     rbind (if is_genesis b then Ok None
            else rbind (map_err InvalidEmission (authorize_emission sha3 b)) (\<lambda>e. Ok (Some e))) (\<lambda>e.
     Ok \<lparr>vb_block = b, vb_emission = e\<rparr>))))"

subsection \<open>What a chain stands for\<close>

definition header_map :: "header_at_height list \<Rightarrow> height \<rightharpoonup> header" where
  "header_map hs = (\<lambda>h. if unat h < length hs then Some (ch_header (hs ! unat h)) else None)"

definition chain_stands :: "block_chain \<Rightarrow> header_at_height list \<Rightarrow> bool" where
  "chain_stands c hs \<longleftrightarrow> hs \<noteq> [] \<and> length hs < 2 ^ 64 \<and> cn_headers c = header_map hs"

interpretation chain_source: header_source chain_stands chain_weight_at
proof
  fix c hs and j :: nat
  assume c: "chain_stands c hs" and j: "j < length hs"
  have "j < 2 ^ 64" using c j unfolding chain_stands_def by (blast intro: less_trans)
  then show "chain_weight_at c (of_nat j) = Ok (header_weight (hs ! j))"
    using c j by (simp add: chain_stands_def chain_weight_at_def header_map_def u64_nat)
qed (simp add: chain_stands_def)

abbreviation at_height :: "block \<Rightarrow> header_at_height" where
  "at_height b \<equiv> \<lparr>ch_height = bk_height b, ch_header = bk_header b\<rparr>"

definition chain_state :: "(bytes \<Rightarrow> hash) \<Rightarrow> block_chain \<Rightarrow> header_at_height list \<Rightarrow> bool" where
  "chain_state sha3 c hs \<longleftrightarrow> length hs \<le> 2 ^ 64 \<and> (\<forall>i < length hs. ch_height (hs ! i) = of_nat i) \<and> cn_headers c = header_map hs \<and>
     cn_tip_height c = (if hs = [] then None else Some (ch_height (last hs))) \<and>
     cn_tip_hash c = (if hs = [] then None else Some (header_id sha3 (last hs))) \<and>
     (\<forall>h b. cn_blocks c h = Some b \<longrightarrow> bk_height b = h \<and> cn_headers c h = Some (bk_header b))"

lemma chain_state_new: "chain_state sha3 chain_new []"
  by (simp add: chain_state_def chain_new_def header_map_def)

lemma header_map_dom: "h \<in> dom (header_map hs) \<longleftrightarrow> unat h < length hs"
  by (auto simp: header_map_def dom_def)

lemma header_map_snoc:
  assumes "length hs < 2 ^ 64"
  shows "header_map (hs @ [c]) = (header_map hs)(of_nat (length hs) \<mapsto> ch_header c)"
proof
  fix h :: height
  have "h = of_nat (length hs) \<longleftrightarrow> unat h = length hs" using u64_nat [OF assms] by (simp add: word_unat_eq_iff)
  then show "header_map (hs @ [c]) h = ((header_map hs)(of_nat (length hs) \<mapsto> ch_header c)) h"
    by (auto simp: header_map_def nth_append)
qed

lemma header_map_last:
  assumes "hs \<noteq> []" "length hs \<le> 2 ^ 64"
  shows "header_map hs (of_nat (length hs - 1)) = Some (ch_header (last hs))"
proof -
  obtain n where n: "length hs = Suc n" using assms(1) by (cases hs) auto
  then show ?thesis using assms u64_nat [of n] by (simp add: header_map_def last_conv_nth)
qed

lemma validate_next_iff:
  assumes c: "chain_state sha3 c hs"
  shows "chain_validate_next_block c b = Ok () \<longleftrightarrow> length hs < 2 ^ 64 \<and> bk_height b = of_nat (length hs) \<and>
    hd_previous_hash (bk_header b) = (if hs = [] then replicate HASH_SIZE 0 else header_id sha3 (last hs))"
proof (cases "length hs < 2 ^ 64")
  case len: True
  have dom: "bk_height b \<in> dom (cn_headers c) \<longleftrightarrow> unat (bk_height b) < length hs" using c by (simp add: chain_state_def header_map_dom)
  show ?thesis
  proof (cases "hs = []")
    case False
    then have "saturating_add (ch_height (last hs)) 1 = of_nat (length hs)" using c len by (intro next_height) (simp_all add: chain_state_def)
    then show ?thesis using c len False dom u64_nat [OF len] by (auto simp: chain_validate_next_block_def chain_state_def)
  qed (use c in \<open>auto simp: chain_validate_next_block_def chain_state_def header_map_def\<close>)
next
  case False
  have "unat (bk_height b) < 2 ^ 64" using unat_bound [of "bk_height b"] by simp
  then have "unat (bk_height b) < length hs" using False by linarith
  then have "bk_height b \<in> dom (cn_headers c)" using c by (simp add: chain_state_def header_map_dom)
  then show ?thesis using False by (simp add: chain_validate_next_block_def)
qed

lemma block_hash_Ok [simp]: "block_header_hash sha3 h = Ok (domain sha3 Header (enc_header h))"
  by (simp add: block_header_hash_def block_header_bytes_def canonical_bytes_def)

lemma chain_insert_Ok:
  "chain_insert_block sha3 c b = Ok c' \<longleftrightarrow> chain_validate_next_block c b = Ok () \<and>
     c' = \<lparr>cn_headers = (cn_headers c)(bk_height b \<mapsto> bk_header b), cn_blocks = (cn_blocks c)(bk_height b \<mapsto> b),
         cn_tip_height = Some (bk_height b), cn_tip_hash = Some (header_id sha3 (at_height b))\<rparr>"
  by (auto simp: chain_insert_block_def result_simps header_id_def)

lemma chain_state_insert:
  assumes c: "chain_state sha3 c hs" and i: "chain_insert_block sha3 c b = Ok c'"
  shows "chain_state sha3 c' (hs @ [at_height b]) \<and> length hs < 2 ^ 64"
proof -
  have v: "length hs < 2 ^ 64" "bk_height b = of_nat (length hs)" using i validate_next_iff [OF c] by (simp_all add: chain_insert_Ok)
  moreover have "of_nat (length hs) \<notin> dom (header_map hs)" using u64_nat [OF v(1)] by (simp add: header_map_dom)
  ultimately show ?thesis using c i unfolding chain_insert_Ok chain_state_def
    by (auto simp: header_map_snoc [OF v(1)] nth_append less_Suc_eq domIff)
qed

lemma chain_insert_remove:
  assumes c: "chain_state sha3 c hs" and i: "chain_insert_block sha3 c b = Ok c'"
  shows "remove_tip sha3 c' (header_id sha3 (at_height b)) = (c, Ok b)"
proof -
  have v: "length hs < 2 ^ 64" "bk_height b = of_nat (length hs)" using i validate_next_iff [OF c] by (simp_all add: chain_insert_Ok)
  have fresh: "cn_headers c (bk_height b) = None" using c u64_nat [OF v(1)] v(2) by (simp add: chain_state_def header_map_def)
  moreover have "cn_blocks c (bk_height b) = None" using c fresh by (cases "cn_blocks c (bk_height b)") (auto simp: chain_state_def)
  ultimately have maps: "(cn_headers c)(bk_height b := None) = cn_headers c" "(cn_blocks c)(bk_height b := None) = cn_blocks c" by auto
  show ?thesis
  proof (cases "hs = []")
    case True
    then have "checked_sub (bk_height b) 1 = None" using v(2) by (simp add: checked_sub_def)
    then show ?thesis using c i True maps by (simp add: remove_tip_def chain_insert_Ok chain_state_def)
  next
    case False
    let ?n = "length hs - 1"
    have n: "?n < 2 ^ 64" "unat (of_nat (length hs) :: u64) = Suc ?n" using v(1) False u64_nat [OF v(1)] by (simp_all del: of_nat_diff)
    have "(of_nat (length hs) :: u64) - 1 = of_nat ?n" using False by (simp add: of_nat_diff Suc_leI)
    then have "checked_sub (bk_height b) 1 = Some (of_nat ?n)" using n(2) v(2) by (simp add: checked_sub_def word_le_nat_alt)
    moreover have "cn_headers c (of_nat ?n) = Some (ch_header (last hs))" "cn_tip_height c = Some (of_nat ?n)"
      using c False u64_nat [OF n(1)] by (simp_all add: chain_state_def header_map_def last_conv_nth)
    ultimately show ?thesis using c i False maps by (simp add: remove_tip_def chain_insert_Ok chain_state_def header_id_def)
  qed
qed

lemma chain_state_remove:
  assumes c: "chain_state sha3 c hs" and r: "remove_tip sha3 c h = (c', Ok b)"
  shows "hs \<noteq> [] \<and> at_height b = last hs \<and> chain_state sha3 c' (butlast hs)"
proof -
  have "hs \<noteq> []" using c r by (auto simp: remove_tip_def chain_state_def)
  then obtain ys y where hs: "hs = ys @ [y]" by (metis append_butlast_last_id)
  let ?n = "length ys" and ?h = "of_nat (length ys) :: u64"
  have n: "?n < 2 ^ 64" "ch_height y = ?h" "unat ?h = ?n" using c u64_nat [of ?n] by (auto simp: chain_state_def hs nth_append)
  have b': "cn_blocks c ?h = Some b" using c r n(2) by (auto simp: remove_tip_def chain_state_def hs Let_def split: option.splits sum.splits if_splits)
  have "bk_height b = ?h \<and> header_map hs ?h = Some (bk_header b)" using c b' unfolding chain_state_def by metis
  then have b: "at_height b = y" using n by (cases y) (simp add: hs header_map_def)
  have headers: "(header_map (ys @ [y]))(?h := None) = header_map ys"
    unfolding header_map_snoc [OF n(1)] using n(3) by (auto simp: header_map_def fun_eq_iff)
  have tips: "checked_sub ?h 1 = (if ys = [] then None else Some (of_nat (?n - 1)))"
    using n by (auto simp: checked_sub_def word_le_nat_alt of_nat_diff Suc_leI)
  have prev: "ys \<noteq> [] \<Longrightarrow> header_map ys (of_nat (?n - 1)) = Some (ch_header (last ys)) \<and> ch_height (last ys) = of_nat (?n - 1)"
  proof
    assume ne: "ys \<noteq> []"
    then show "header_map ys (of_nat (?n - 1)) = Some (ch_header (last ys))" using header_map_last n(1) by simp
    have "\<forall>i < Suc ?n. ch_height ((ys @ [y]) ! i) = of_nat i" using c by (simp add: chain_state_def hs)
    then have "ch_height ((ys @ [y]) ! (?n - 1)) = of_nat (?n - 1)" using ne by (simp del: of_nat_diff)
    then show "ch_height (last ys) = of_nat (?n - 1)" using ne by (simp add: nth_append last_conv_nth)
  qed
  have t: "cn_tip_height c = Some ?h" "cn_headers c = header_map (ys @ [y])" "cn_tip_hash c = Some h"
    using c r n(2) by (auto simp: chain_state_def hs remove_tip_def split: if_splits)
  have "c' = c\<lparr>cn_blocks := (cn_blocks c)(?h := None), cn_headers := header_map ys, cn_tip_height := (if ys = [] then None else Some (ch_height (last ys))),
      cn_tip_hash := (if ys = [] then None else Some (header_id sha3 (last ys)))\<rparr>"
  proof (cases "ys = []")
    case True
    then show ?thesis using r t b' headers tips by (simp add: remove_tip_def)
  next
    case False
    then show ?thesis using r prev by (simp add: remove_tip_def header_id_def t b' headers tips del: of_nat_diff)
  qed
  moreover have "header_map ys k = Some (bk_header x)" if "cn_blocks c k = Some x" "k \<noteq> ?h" for k x
  proof -
    have "cn_headers c k = Some (bk_header x)" using c that(1) unfolding chain_state_def by blast
    then have "header_map (ys @ [y]) k = Some (bk_header x)" unfolding t(2) .
    then show ?thesis using that(2) unfolding headers [symmetric] by simp
  qed
  moreover have "ch_height (ys ! i) = of_nat i" if "i < ?n" for i
  proof -
    have "\<forall>i < Suc ?n. ch_height ((ys @ [y]) ! i) = of_nat i" using c by (simp add: chain_state_def hs)
    then have "ch_height ((ys @ [y]) ! i) = of_nat i" using that by (meson less_SucI)
    then show ?thesis using that by (simp add: nth_append)
  qed
  ultimately show ?thesis using c b by (auto simp: chain_state_def hs)
qed

lemma fold_del: "fold (\<lambda>h m. m(h := None)) hs m = m |` (- set hs)"
  by (induction hs arbitrary: m) (auto simp: restrict_map_def fun_eq_iff)

lemma retain_step_pinned:
  "retain_step tip max_bytes max_blocks s e = Ok s' \<Longrightarrow> 0 \<notin> set (snd (snd s)) \<and> tip \<notin> Some ` set (snd (snd s)) \<Longrightarrow>
   0 \<notin> set (snd (snd s')) \<and> tip \<notin> Some ` set (snd (snd s'))"
  by (cases s; cases e) (auto simp: retain_step_def result_simps split: if_splits)

lemma retain_pinned:
  "try_fold (retain_step tip max_bytes max_blocks) s es = Ok s' \<Longrightarrow> 0 \<notin> set (snd (snd s)) \<and> tip \<notin> Some ` set (snd (snd s)) \<Longrightarrow>
   0 \<notin> set (snd (snd s')) \<and> tip \<notin> Some ` set (snd (snd s'))"
proof (induction es arbitrary: s)
  case (Cons e es)
  obtain s1 where "retain_step tip max_bytes max_blocks s e = Ok s1" "try_fold (retain_step tip max_bytes max_blocks) s1 es = Ok s'"
    using Cons.prems(1) by (auto simp: result_simps)
  then show ?case using Cons.IH retain_step_pinned Cons.prems(2) by blast
qed simp

lemma retain_keeps:
  assumes "retain_recent_bodies c max_bytes max_blocks = Ok c'"
  shows "\<exists>S. 0 \<in> S \<and> (\<forall>h. cn_tip_height c = Some h \<longrightarrow> h \<in> S) \<and> c' = c\<lparr>cn_blocks := cn_blocks c |` S\<rparr>"
proof -
  obtain x where x: "try_fold (retain_step (cn_tip_height c) max_bytes max_blocks) (0, 0, []) (rev (map_entries (cn_blocks c))) = Ok x"
    and c': "c' = c\<lparr>cn_blocks := cn_blocks c |` (- set (snd (snd x)))\<rparr>"
    using assms by (auto simp: retain_recent_bodies_def result_simps fold_del)
  then show ?thesis using retain_pinned [OF x] by (intro exI [of _ "- set (snd (snd x))"]) auto
qed

lemma chain_state_retain: "chain_state sha3 c hs \<Longrightarrow> retain_recent_bodies c m n = Ok c' \<Longrightarrow> chain_state sha3 c' hs"
  by (drule retain_keeps) (auto simp: chain_state_def restrict_map_def split: if_splits)

lemma chain_state_cache: "chain_state sha3 c hs \<Longrightarrow> cache_known_block sha3 c b = Ok c' \<Longrightarrow> chain_state sha3 c' hs"
  by (auto simp: cache_known_block_def chain_state_def result_simps split: if_splits)

subsection \<open>Acceptance of blocks and reachable chains\<close>

lemma difficulty_of_state:
  assumes c: "chain_state sha3 c hs" and hs: "hs \<noteq> []" "length hs < 2 ^ 64"
  shows "expected_difficulty c (of_nat (length hs)) = ok_or (chain_difficulty hs) consensus_error.InvalidDifficulty"
proof -
  have st: "chain_stands c hs" using c hs by (simp add: chain_state_def chain_stands_def)
  have "(of_nat (length hs) :: u64) \<noteq> 0" using u64_nat [OF hs(2)] hs(1) by (metis length_0_conv unat_0)
  moreover have "(of_nat (length hs) :: u64) - 1 = of_nat (length hs - 1)" using hs(1) by (simp add: of_nat_diff Suc_leI)
  moreover have "cn_headers c (of_nat (length hs - 1)) = Some (ch_header (last hs))"
    using c header_map_last hs by (simp add: chain_state_def)
  ultimately show ?thesis by (simp add: expected_difficulty_def chain_source.prescribed_difficulty [OF st])
qed

lemma pow_at_target_bits_Ok:
  "validate_pow_at_target_bits sha3 argon2 b expected = Ok () \<longleftrightarrow> hd_target_bits (bk_header b) = expected \<and> proven sha3 argon2 (bk_header b)"
  by (auto simp: validate_pow_at_target_bits_def verify_pow_Ok proven_def)

lemma structure_weight:
  assumes "validate_structure sha3 b = Ok ()"
  shows "0 < unat (hd_block_weight (bk_header b)) \<and> unat (hd_block_weight (bk_header b)) \<le> MAX_BLOCK_SIZE"
proof -
  have "0 < length (enc_block b)" by (simp add: enc_block_def enc_header_def)
  then show ?thesis using validate_structure_Ok(4,5) [OF assms] by linarith
qed

lemma validate_for_apply_iff:
  assumes c: "chain_state sha3 c hs" and hs: "hs \<noteq> []" "length hs < 2 ^ 64" and m: "memory = None \<or> memory = Some new_pow_memory"
  shows "validate_for_apply sha3 argon2 b c True memory = Ok v \<longleftrightarrow>
    validate_structure sha3 b = Ok () \<and> extends_chain sha3 argon2 hs (at_height b) \<and>
    (\<exists>e. authorize_emission sha3 b = Ok e \<and> v = \<lparr>vb_block = b, vb_emission = Some e\<rparr>)"
proof -
  have pow: "(case memory of Some m \<Rightarrow> verify_pow_with_memory sha3 argon2 (bk_header b) expected m
      | None \<Rightarrow> validate_pow_at_target_bits sha3 argon2 b expected) = Ok () \<longleftrightarrow>
      hd_target_bits (bk_header b) = expected \<and> proven sha3 argon2 (bk_header b)" for expected
    using m by (auto simp: memory_pow verify_pow_Ok pow_at_target_bits_Ok)
  have gen: "\<not> is_genesis b" if "bk_height b = of_nat (length hs)"
    using that u64_nat [OF hs(2)] hs(1) by (metis is_genesis_def length_0_conv unat_0)
  have nxt: "chain_validate_next_block c b = Ok () \<longleftrightarrow> bk_height b = of_nat (length hs) \<and> hd_previous_hash (bk_header b) = header_id sha3 (last hs)"
    using validate_next_iff [OF c] hs by auto
  show ?thesis
  proof (cases "validate_structure sha3 b = Ok () \<and> chain_validate_next_block c b = Ok ()")
    case True
    then have "expected_difficulty c (bk_height b) = ok_or (chain_difficulty hs) consensus_error.InvalidDifficulty" "\<not> is_genesis b"
      using difficulty_of_state [OF c hs] nxt gen by auto
    then show ?thesis using True nxt structure_weight [of sha3 b]
      by (auto simp: validate_for_apply_def result_simps pow extends_chain_def)
  next
    case False
    then show ?thesis using nxt by (auto simp: validate_for_apply_def extends_chain_def result_simps)
  qed
qed

text \<open>
  The chains a ledger can hold: the genesis block with its expected hash, then validated blocks,
  with the tip taken off and bodies evicted and rehydrated at any time.
\<close>

inductive reachable_chain :: "(bytes \<Rightarrow> hash) \<Rightarrow> argon2 \<Rightarrow> hash \<Rightarrow> block_chain \<Rightarrow> bool" for sha3 argon2 g where
  start: "reachable_chain sha3 argon2 g chain_new"
| genesis: "reachable_chain sha3 argon2 g c \<Longrightarrow> \<not> has_blocks c \<Longrightarrow> validate_genesis_block sha3 b = Ok () \<Longrightarrow>
    block_header_hash sha3 (bk_header b) = Ok g \<Longrightarrow> validate_for_apply sha3 argon2 b c True None = Ok v \<Longrightarrow>
    chain_insert_block sha3 c b = Ok c' \<Longrightarrow> reachable_chain sha3 argon2 g c'"
| connect: "reachable_chain sha3 argon2 g c \<Longrightarrow> has_blocks c \<Longrightarrow> memory = None \<or> memory = Some new_pow_memory \<Longrightarrow>
    validate_for_apply sha3 argon2 b c True memory = Ok v \<Longrightarrow> chain_insert_block sha3 c b = Ok c' \<Longrightarrow> reachable_chain sha3 argon2 g c'"
| disconnect: "reachable_chain sha3 argon2 g c \<Longrightarrow> remove_tip sha3 c h = (c', Ok b) \<Longrightarrow> reachable_chain sha3 argon2 g c'"
| evict: "reachable_chain sha3 argon2 g c \<Longrightarrow> retain_recent_bodies c max_bytes max_blocks = Ok c' \<Longrightarrow> reachable_chain sha3 argon2 g c'"
| cache: "reachable_chain sha3 argon2 g c \<Longrightarrow> cache_known_block sha3 c b = Ok c' \<Longrightarrow> reachable_chain sha3 argon2 g c'"

lemma extends_work: "extends_chain sha3 argon2 hs c \<Longrightarrow> \<exists>b. block_work (header_bits c) = Some b"
  using block_work_correct by (fastforce simp: extends_chain_def proven_def)

lemma valid_butlast: "valid_headers sha3 argon2 g hs w \<Longrightarrow> butlast hs = [] \<or> (\<exists>w. valid_headers sha3 argon2 g (butlast hs) w)"
  by (induction rule: valid_headers.induct) auto

lemma reachable_state:
  "reachable_chain sha3 argon2 g c \<Longrightarrow> \<exists>hs. chain_state sha3 c hs \<and> (hs = [] \<or> (\<exists>w. valid_headers sha3 argon2 g hs w))"
proof (induction rule: reachable_chain.induct)
  case start
  then show ?case using chain_state_new by blast
next
  case (genesis c b v c')
  obtain hs where "chain_state sha3 c hs" using genesis.IH by blast
  moreover from this have "hs = []" using genesis.hyps(2) by (auto simp: has_blocks_def chain_state_def split: if_splits)
  ultimately have "chain_state sha3 c' [at_height b]" using chain_state_insert genesis.hyps(6) by fastforce
  moreover have "valid_headers sha3 argon2 g [at_height b] WORK_ZERO"
    using genesis.hyps(3,4) by (intro valid_headers.genesis) (auto simp: validate_genesis_block_def header_id_def result_simps split: if_splits)
  ultimately show ?case by blast
next
  case (connect c memory b v c')
  obtain hs w where hs: "chain_state sha3 c hs" "valid_headers sha3 argon2 g hs w"
    using connect.IH connect.hyps(2) by (auto simp: has_blocks_def chain_state_def)
  have c': "chain_state sha3 c' (hs @ [at_height b])" "length hs < 2 ^ 64" using chain_state_insert [OF hs(1) connect.hyps(5)] by simp_all
  moreover have "extends_chain sha3 argon2 hs (at_height b)"
    using validate_for_apply_iff [OF hs(1) _ c'(2) connect.hyps(3)] valid_heights [OF hs(2)] connect.hyps(4) by blast
  ultimately show ?case using valid_headers.extend [OF hs(2)] extends_work by blast
next
  case (disconnect c h c' b)
  obtain hs where hs: "chain_state sha3 c hs" "hs = [] \<or> (\<exists>w. valid_headers sha3 argon2 g hs w)" using disconnect.IH by blast
  then show ?case using chain_state_remove [OF hs(1) disconnect.hyps(2)] valid_butlast by blast
next
  case (evict c max_bytes max_blocks c')
  then show ?case using chain_state_retain by blast
next
  case (cache c b c')
  then show ?case using chain_state_cache by blast
qed

lemma header_entries:
  "length hs \<le> 2 ^ 64 \<Longrightarrow> \<forall>i < length hs. ch_height (hs ! i) = of_nat i \<Longrightarrow>
   map_of (map (\<lambda>c. (ch_height c, ch_header c)) hs) = header_map hs \<and> ordered_keys (map (\<lambda>c. (ch_height c, ch_header c)) hs)"
proof (induction hs rule: rev_induct)
  case Nil
  then show ?case by (simp add: header_map_def fun_eq_iff)
next
  case (snoc c hs)
  have len: "length hs < 2 ^ 64" and c: "ch_height c = of_nat (length hs)" using snoc.prems by (auto simp: nth_append)
  have "\<forall>i < length hs. ch_height (hs ! i) = of_nat i" using snoc.prems(2) by (metis length_append_singleton less_SucI nth_append)
  then have ih: "map_of (map (\<lambda>c. (ch_height c, ch_header c)) hs) = header_map hs" "ordered_keys (map (\<lambda>c. (ch_height c, ch_header c)) hs)"
    using snoc.IH len by simp_all
  have keys: "fst ` set (map (\<lambda>c. (ch_height c, ch_header c)) hs) = dom (header_map hs)" using ih(1) by (metis dom_map_of_keys)
  have lt: "k < ch_height c" if "k \<in> dom (header_map hs)" for k
    using that c u64_nat [OF len] by (simp add: header_map_dom word_less_nat_alt)
  have "of_nat (length hs) \<notin> dom (header_map hs)" using lt c by auto
  then have "[ch_height c \<mapsto> ch_header c] ++ header_map hs = (header_map hs)(ch_height c \<mapsto> ch_header c)"
    using c by (auto simp: map_add_def fun_eq_iff domIff split: option.splits)
  moreover have "\<forall>x \<in> set hs. ch_height x < ch_height c" using lt keys by force
  ultimately show ?case using ih header_map_snoc [OF len, of c] c by (auto simp: sorted_wrt_append)
qed

lemma chain_headers_state:
  assumes "chain_state sha3 c hs"
  shows "chain_headers c = hs"
proof -
  have m: "cn_headers c = header_map hs" using assms by (simp add: chain_state_def)
  have fin: "finite (dom (header_map hs))" by simp
  have "map_entries (header_map hs) = map (\<lambda>c. (ch_height c, ch_header c)) hs"
    using header_entries [of hs] assms map_of_map_entries [OF fin] fm.entries_ordered [OF fin]
    by (intro ordered_keys_map_of_inj) (simp_all add: chain_state_def)
  then show ?thesis by (auto simp: chain_headers_def m comp_def intro!: map_idI)
qed

subsection \<open>Properties\<close>

text \<open>
  C25. However a ledger's chain came about - genesis, validated blocks, blocks taken off the tip,
  bodies evicted and rehydrated - its headers are a chain that header synchronization from the same
  genesis accepts, and the tip the ledger reports is the tip synchronization computes.
\<close>

theorem chain_synchronizes:
  assumes "reachable_chain sha3 argon2 g c" and "has_blocks c" and "length (chain_headers c) < 2 ^ 64"
  shows "\<exists>tip w. cn_tip_hash c = Some tip \<and> verify_header_chain sha3 argon2 (chain_headers c) g = Ok (tip, w)"
proof -
  obtain hs where hs: "chain_state sha3 c hs" "hs = [] \<or> (\<exists>w. valid_headers sha3 argon2 g hs w)" using reachable_state [OF assms(1)] by blast
  then have "hs \<noteq> []" using assms(2) by (auto simp: chain_state_def has_blocks_def)
  then show ?thesis using hs assms(3) by (auto simp: chain_headers_state [OF hs(1)] verify_header_chain_iff chain_state_def)
qed

text \<open>
  C7. Block validation accepts exactly the structurally valid blocks whose header extends the chain -
  linked, weighted, at the difficulty the whole chain prescribes, proven - and whose emission is
  authorized, whether or not a proof-of-work buffer is reused and whatever bodies are resident; and an
  accepted block can be inserted, and taking it off the tip gives back the chain and the block.
\<close>

theorem block_acceptance_exact:
  assumes "reachable_chain sha3 argon2 g c" and "has_blocks c" and "length (chain_headers c) < 2 ^ 64"
    and "memory = None \<or> memory = Some new_pow_memory"
  shows "(validate_for_apply sha3 argon2 b c True memory = Ok v \<longleftrightarrow>
      validate_structure sha3 b = Ok () \<and> extends_chain sha3 argon2 (chain_headers c) (at_height b) \<and>
      (\<exists>e. authorize_emission sha3 b = Ok e \<and> v = \<lparr>vb_block = b, vb_emission = Some e\<rparr>)) \<and>
    (validate_for_apply sha3 argon2 b c True memory = Ok v \<longrightarrow>
      (\<exists>c'. chain_insert_block sha3 c b = Ok c' \<and> remove_tip sha3 c' (header_id sha3 (at_height b)) = (c, Ok b)))"
proof -
  obtain hs where hs: "chain_state sha3 c hs" using reachable_state [OF assms(1)] by blast
  then have ne: "hs \<noteq> []" using assms(2) by (auto simp: chain_state_def has_blocks_def)
  note eq = chain_headers_state [OF hs]
  have "\<exists>c'. chain_insert_block sha3 c b = Ok c'" if "validate_for_apply sha3 argon2 b c True memory = Ok v"
    using that by (auto simp: validate_for_apply_def chain_insert_Ok result_simps)
  then show ?thesis using validate_for_apply_iff [OF hs ne _ assms(4)] assms(3) chain_insert_remove [OF hs] unfolding eq by blast
qed

definition genesis_sample :: block where
  "genesis_sample = \<lparr>bk_header = sample_header GENESIS_TARGET_BITS, bk_height = 0, bk_body = \<lparr>bd_emission = None, bd_operations = []\<rparr>\<rparr>"

definition first_sample :: block where
  "first_sample = \<lparr>bk_header = sample_header TARGET_BITS_START, bk_height = 1,
     bk_body = \<lparr>bd_emission = Some \<lparr>em_to = replicate 32 9, em_subsidy = 156250000\<rparr>, bd_operations = []\<rparr>\<rparr>"

abbreviation zero_hash :: "bytes \<Rightarrow> hash" where "zero_hash \<equiv> \<lambda>_. replicate 32 0"

abbreviation chain_sample :: block_chain where
  "chain_sample \<equiv> \<lparr>cn_headers = [0 \<mapsto> bk_header genesis_sample], cn_blocks = [0 \<mapsto> genesis_sample], cn_tip_height = Some 0,
     cn_tip_hash = Some (replicate 32 0)\<rparr>"

lemma samples_valid: "validate_structure zero_hash genesis_sample = Ok ()" "validate_structure zero_hash first_sample = Ok ()"
  by (simp_all add: validate_structure_def genesis_sample_def first_sample_def sample_header_def MAX_BLOCK_OPERATIONS_def is_genesis_def
      operations_are_structurally_valid_def MAX_BLOCK_SIZE_def encodable_block_def U32_MAX_def capped_write_iff concat_block_chunks
      enc_block_def enc_header_def enc_array_def enc_emission_def enc_vec_def enc_seq_def calculate_merkle_root_def merkle_leaves_def
      emission_hash_def canonical_bytes_def domain_def merkle_root_def merkle_top.simps HASH_SIZE_def)

lemma chain_sample_reachable: "reachable_chain zero_hash sample_argon2 (replicate 32 0) chain_sample"
proof -
  have h: "bk_height genesis_sample = 0" "hd_previous_hash (bk_header genesis_sample) = replicate 32 0" "is_genesis genesis_sample"
    by (simp_all add: genesis_sample_def sample_header_def is_genesis_def)
  show ?thesis
    by (rule reachable_chain.genesis [OF reachable_chain.start, where b = genesis_sample])
      (simp_all add: samples_valid h has_blocks_def chain_new_def validate_genesis_block_def HASH_SIZE_def domain_def header_id_def
        validate_for_apply_def chain_validate_next_block_def chain_insert_Ok)
qed

lemma chain_sample_headers: "chain_headers chain_sample = [at_height genesis_sample]" "has_blocks chain_sample"
  by (simp_all add: chain_headers_def map_entries_def has_blocks_def genesis_sample_def)

theorem chain_synchronizes_witness:
  "reachable_chain zero_hash sample_argon2 (replicate 32 0) chain_sample \<and> has_blocks chain_sample \<and> length (chain_headers chain_sample) < 2 ^ 64 \<and>
   (\<exists>w. verify_header_chain zero_hash sample_argon2 (chain_headers chain_sample) (replicate 32 0) = Ok (replicate 32 0, w))"
  using chain_synchronizes [OF chain_sample_reachable] chain_sample_reachable chain_sample_headers by auto

theorem block_acceptance_exact_witness:
  "reachable_chain zero_hash sample_argon2 (replicate 32 0) chain_sample \<and> has_blocks chain_sample \<and> length (chain_headers chain_sample) < 2 ^ 64 \<and>
   (\<exists>v c'. validate_for_apply zero_hash sample_argon2 first_sample chain_sample True None = Ok v \<and>
      chain_insert_block zero_hash chain_sample first_sample = Ok c' \<and>
      remove_tip zero_hash c' (header_id zero_hash (at_height first_sample)) = (chain_sample, Ok first_sample))"
proof -
  have len: "length (chain_headers chain_sample) < 2 ^ 64" by (simp add: chain_sample_headers)
  have "extends_chain zero_hash sample_argon2 (chain_headers chain_sample) (at_height first_sample)"
    using sample_extends unfolding chain_sample_headers(1) by (simp add: genesis_sample_def first_sample_def)
  moreover have "block_emission_for_height 1 = 156250000"
    by (simp add: block_emission_for_height_def emission_consts Let_def saturating_sub_def saturating_mul_def)
  then have "\<exists>e. authorize_emission zero_hash first_sample = Ok e"
    by (simp add: authorize_emission_def first_sample_def expected_emission_for_operations_def FOTE_ACTIVATION_HEIGHT_def emission_consts
        miner_burn checked_sub_def emission_origin_def)
  ultimately show ?thesis
    using block_acceptance_exact [OF chain_sample_reachable chain_sample_headers(2) len, of None first_sample]
      chain_sample_reachable chain_sample_headers(2) len samples_valid(2) by blast
qed

end
