(* ===== verification/Fork_Choice.thy ===== *)
theory Fork_Choice
  imports Chain
begin

section \<open>Fork choice and reorganization\<close>

text \<open>
  \<^verbatim>\<open>kernel/src/consensus/fork/graph.rs\<close> (the tree of known blocks and its best tip), \<^verbatim>\<open>ordering.rs\<close> (the order of
  tips) and \<^verbatim>\<open>reorg.rs\<close> (common ancestor and reorganization plans). The loops that follow parents are
  \<^verbatim>\<open>while\<close> loops over a map of nodes; they are partial functions here, and where a result may depend on
  one the error \<open>None\<close> stands for a run that does not return.

  The lemmas show that in a tree built by any sequence of insertions every node's branch is a header
  chain that synchronization accepts with the node's work, that insertion accepts exactly the blocks
  extending a branch, that the best tip is the unique maximum whatever the order of arrival, that the
  loops return, and that a reorganization plan leads from the old branch to the new one through
  their last common block.
\<close>

subsection \<open>The order of tips\<close>

datatype ordering = Less | Equal | Greater

definition cmp :: "'a::linorder \<Rightarrow> 'a \<Rightarrow> ordering" where
  "cmp a b = (if a < b then Less else if a = b then Equal else Greater)"

fun then_with :: "ordering \<Rightarrow> ordering \<Rightarrow> ordering" where
  "then_with Equal next_order = next_order"
| "then_with order _ = order"

definition compare_chain_tips :: "work \<Rightarrow> u64 \<Rightarrow> hash \<Rightarrow> work \<Rightarrow> u64 \<Rightarrow> hash \<Rightarrow> ordering" where
  "compare_chain_tips left_work left_weight left_hash right_work right_weight right_hash =
     then_with (then_with (cmp left_work right_work) (cmp left_weight right_weight)) (cmp right_hash left_hash)"

subsection \<open>The tree of blocks\<close>

record block_node =
  bn_block :: block
  bn_hash :: hash
  bn_parent :: hash
  bn_height :: height
  bn_work :: work
  bn_cumulative_work :: work
  bn_weight :: u64
  bn_cumulative_weight :: u64

type_synonym nodes = "hash \<rightharpoonup> block_node"

record fork_choice =
  fc_expected_genesis :: hash
  fc_nodes :: nodes
  fc_best_tip :: "hash option"

definition fork_new :: "hash \<Rightarrow> fork_choice" where
  "fork_new expected_genesis = \<lparr>fc_expected_genesis = expected_genesis, fc_nodes = Map.empty, fc_best_tip = None\<rparr>"

definition best_tip :: "fork_choice \<Rightarrow> block_node option" where
  "best_tip fc = Option.bind (fc_best_tip fc) (fc_nodes fc)"

partial_function (option) ancestor_at_height :: "nodes \<Rightarrow> hash \<Rightarrow> height \<Rightarrow> block_node option option" where
  "ancestor_at_height nodes current height = (case nodes current of
     None \<Rightarrow> Some None
   | Some node \<Rightarrow>
       if bn_height node = height then Some (Some node)
       else if bn_height node < height \<or> bn_height node = 0 then Some None
       else ancestor_at_height nodes (bn_parent node) height)"

partial_function (option) ancestor_loop :: "nodes \<Rightarrow> hash \<Rightarrow> hash list \<Rightarrow> hash list option" where
  "ancestor_loop nodes current hashes = (case nodes current of
     None \<Rightarrow> Some hashes
   | Some node \<Rightarrow>
       if bn_height node = 0 then Some (hashes @ [current])
       else ancestor_loop nodes (bn_parent node) (hashes @ [current]))"

definition ancestor_hashes :: "fork_choice \<Rightarrow> hash \<Rightarrow> hash list option" where
  "ancestor_hashes fc h = ancestor_loop (fc_nodes fc) h []"

partial_function (option) branch_loop :: "nodes \<Rightarrow> hash \<Rightarrow> hash \<Rightarrow> block list \<Rightarrow> block list option option" where
  "branch_loop nodes ancestor current blocks =
     (if current = ancestor then Some (Some blocks)
      else case nodes current of
          None \<Rightarrow> Some None
        | Some node \<Rightarrow> branch_loop nodes ancestor (bn_parent node) (blocks @ [bn_block node]))"

definition branch_from_ancestor :: "fork_choice \<Rightarrow> hash \<Rightarrow> hash \<Rightarrow> block list option option" where
  "branch_from_ancestor fc ancestor tip = map_option (map_option rev) (branch_loop (fc_nodes fc) ancestor tip [])"

definition update_best_tip :: "fork_choice \<Rightarrow> hash \<Rightarrow> fork_choice" where
  "update_best_tip fc candidate_hash = (case fc_nodes fc candidate_hash of
     None \<Rightarrow> fc
   | Some candidate \<Rightarrow>
       if (case best_tip fc of
             None \<Rightarrow> True
           | Some best \<Rightarrow> compare_chain_tips (bn_cumulative_work candidate) (bn_cumulative_weight candidate) (bn_hash candidate)
               (bn_cumulative_work best) (bn_cumulative_weight best) (bn_hash best) = Greater)
       then fc\<lparr>fc_best_tip := Some candidate_hash\<rparr> else fc)"

text \<open>A node on the way at \<open>height\<close>, its weight, or the error of the closure.\<close>

definition branch_weight_at :: "nodes \<times> hash \<Rightarrow> height \<Rightarrow> (nat, fork_choice_error option) result" where
  "branch_weight_at s height = (case ancestor_at_height (fst s) (snd s) height of
     None \<Rightarrow> Err None
   | Some None \<Rightarrow> Err (Some MissingParent)
   | Some (Some node) \<Rightarrow> Ok (unat (hd_block_weight (bk_header (bn_block node)))))"

definition expected_difficulty_for :: "fork_choice \<Rightarrow> block \<Rightarrow> hash \<Rightarrow> (u32, fork_choice_error option) result" where
  "expected_difficulty_for fc b parent =
     (if bk_height b = 0 then Ok GENESIS_TARGET_BITS
      else rbind (ok_or (fc_nodes fc parent) (Some MissingParent)) (\<lambda>parent_node.
        rbind (expected_difficulty_for_height (bk_height b) (hd_target_bits (bk_header (bn_block parent_node)))
            (branch_weight_at (fc_nodes fc, parent))) (\<lambda>d.
          ok_or d (Some fork_choice_error.InvalidDifficulty))))"

definition fork_insert_block ::
    "(bytes \<Rightarrow> hash) \<Rightarrow> argon2 \<Rightarrow> fork_choice \<Rightarrow> block \<Rightarrow> (fork_choice \<times> hash, fork_choice_error option) result" where
  "fork_insert_block sha3 argon2 fc b =
     rbind (map_err (\<lambda>e. Some (fork_choice_error.InvalidBlock e)) (validate_structure sha3 b)) (\<lambda>_.
     rbind (map_err (\<lambda>_. Some ForkSerialization) (block_header_hash sha3 (bk_header b))) (\<lambda>h.
     if h \<in> dom (fc_nodes fc) then Err (Some fork_choice_error.DuplicateBlock)
     else if \<not> (if is_genesis b then hd_target_bits (bk_header b) = GENESIS_TARGET_BITS
                else from_compact (hd_target_bits (bk_header b)) \<noteq> None) then Err (Some fork_choice_error.InvalidDifficulty)
     else if \<not> is_genesis b \<and> (hd_block_weight (bk_header b) = 0 \<or> unat (hd_block_weight (bk_header b)) > MAX_BLOCK_SIZE)
     then Err (Some InvalidHeader)
     else let parent = hd_previous_hash (bk_header b) in
     rbind (if bk_height b = 0 then
              if h \<noteq> fc_expected_genesis fc then Err (Some UnexpectedGenesis)
              else if parent \<noteq> replicate HASH_SIZE 0 then Err (Some MissingParent)
              else Ok (WORK_ZERO, 0)
            else rbind (ok_or (fc_nodes fc parent) (Some MissingParent)) (\<lambda>parent_node.
              if bk_height b \<noteq> saturating_add (bn_height parent_node) 1 then Err (Some fork_choice_error.InvalidHeight)
              else Ok (bn_cumulative_work parent_node, bn_cumulative_weight parent_node))) (\<lambda>(parent_work, parent_weight).
     rbind (expected_difficulty_for fc b parent) (\<lambda>expected_difficulty.
     rbind (if is_genesis b then Ok ()
            else if hd_target_bits (bk_header b) \<noteq> expected_difficulty then Err (Some fork_choice_error.InvalidDifficulty)
            else map_err (\<lambda>e. Some (InvalidProofOfWork e)) (validate_pow_at_target_bits sha3 argon2 b expected_difficulty)) (\<lambda>_.
     rbind (if is_genesis b then Ok WORK_ZERO else ok_or (block_work expected_difficulty) (Some fork_choice_error.InvalidDifficulty)) (\<lambda>work.
     let weight = (if is_genesis b then 0 else ucast (hd_block_weight (bk_header b)));
         node = \<lparr>bn_block = b, bn_hash = h, bn_parent = parent, bn_height = bk_height b, bn_work = work,
           bn_cumulative_work = work_saturating_add parent_work work, bn_weight = weight,
           bn_cumulative_weight = saturating_add parent_weight weight\<rparr>
     in Ok (update_best_tip (fc\<lparr>fc_nodes := (fc_nodes fc)(h \<mapsto> node)\<rparr>) h, h)))))))"

subsection \<open>Reorganization\<close>

datatype reorg_error = InvalidBranch

record reorg_plan =
  rp_ancestor :: hash
  rp_old_tip :: "hash option"
  rp_new_tip :: hash
  rp_disconnect :: "block list"
  rp_apply :: "block list"

definition block_hash :: "(bytes \<Rightarrow> hash) \<Rightarrow> block \<Rightarrow> (hash, codec_error) result" where
  "block_hash sha3 b = block_header_hash sha3 (bk_header b)"

fun validate_links :: "(bytes \<Rightarrow> hash) \<Rightarrow> block list \<Rightarrow> (unit, reorg_error) result" where
  "validate_links sha3 (b # b' # bs) =
     rbind (map_err (\<lambda>_. InvalidBranch) (block_hash sha3 b')) (\<lambda>h.
       if hd_previous_hash (bk_header b) \<noteq> h then Err InvalidBranch else validate_links sha3 (b' # bs))"
| "validate_links sha3 _ = Ok ()"

definition validate_disconnect :: "(bytes \<Rightarrow> hash) \<Rightarrow> hash \<Rightarrow> hash option \<Rightarrow> block list \<Rightarrow> (unit, reorg_error) result" where
  "validate_disconnect sha3 ancestor old_tip disconnect =
     (if disconnect = [] then require (old_tip = Some ancestor) InvalidBranch
      else if result_ok (block_hash sha3 (hd disconnect)) \<noteq> old_tip then Err InvalidBranch
      else rbind (validate_links sha3 disconnect) (\<lambda>_.
        if hd_previous_hash (bk_header (last disconnect)) \<noteq> ancestor then Err InvalidBranch else Ok ()))"

definition validate_apply :: "(bytes \<Rightarrow> hash) \<Rightarrow> hash \<Rightarrow> hash \<Rightarrow> block list \<Rightarrow> (unit, reorg_error) result" where
  "validate_apply sha3 ancestor new_tip blocks =
     (if blocks = [] then require (new_tip = ancestor) InvalidBranch
      else rbind (try_fold (\<lambda>expected_parent b.
          if hd_previous_hash (bk_header b) \<noteq> expected_parent then Err InvalidBranch
          else map_err (\<lambda>_. InvalidBranch) (block_hash sha3 b)) ancestor blocks) (\<lambda>expected_parent.
        require (expected_parent = new_tip) InvalidBranch))"

definition reorg_plan_new ::
    "(bytes \<Rightarrow> hash) \<Rightarrow> hash \<Rightarrow> hash option \<Rightarrow> hash \<Rightarrow> block list \<Rightarrow> block list \<Rightarrow> (reorg_plan, reorg_error) result" where
  "reorg_plan_new sha3 ancestor old_tip new_tip disconnect blocks =
     rbind (validate_disconnect sha3 ancestor old_tip disconnect) (\<lambda>_.
     rbind (validate_apply sha3 ancestor new_tip blocks) (\<lambda>_.
     Ok \<lparr>rp_ancestor = ancestor, rp_old_tip = old_tip, rp_new_tip = new_tip, rp_disconnect = disconnect, rp_apply = blocks\<rparr>))"

definition common_ancestor :: "hash option \<Rightarrow> hash \<Rightarrow> fork_choice \<Rightarrow> hash option option" where
  "common_ancestor old_tip new_tip fc = (case old_tip of
     None \<Rightarrow> Some None
   | Some old_tip \<Rightarrow>
       Option.bind (ancestor_hashes fc old_tip) (\<lambda>old_ancestors.
       Option.bind (ancestor_hashes fc new_tip) (\<lambda>new_ancestors.
       Some (find (\<lambda>h. h \<in> set old_ancestors) new_ancestors))))"

text \<open>\<open>returned x\<close>: the loop returned, with a value or with none of the kind the caller needs.\<close>

definition returned :: "'a option option \<Rightarrow> ('a, reorg_error option) result" where
  "returned x = (case x of None \<Rightarrow> Err None | Some None \<Rightarrow> Err (Some InvalidBranch) | Some (Some y) \<Rightarrow> Ok y)"

definition plan_reorg :: "(bytes \<Rightarrow> hash) \<Rightarrow> hash option \<Rightarrow> fork_choice \<Rightarrow> hash \<Rightarrow> (reorg_plan, reorg_error option) result" where
  "plan_reorg sha3 old_tip fc new_tip =
     rbind (returned (common_ancestor old_tip new_tip fc)) (\<lambda>ancestor.
     rbind (returned (branch_from_ancestor fc ancestor new_tip)) (\<lambda>blocks.
     rbind (ok_or old_tip (Some InvalidBranch)) (\<lambda>old.
     rbind (returned (branch_from_ancestor fc ancestor old)) (\<lambda>disconnect.
     map_err Some (reorg_plan_new sha3 ancestor old_tip new_tip (rev disconnect) blocks)))))"

subsection \<open>Branches\<close>

abbreviation node_header :: "block_node \<Rightarrow> header_at_height" where
  "node_header n \<equiv> at_height (bn_block n)"

text \<open>The nodes from genesis to a block.\<close>

inductive branch :: "nodes \<Rightarrow> hash \<Rightarrow> block_node list \<Rightarrow> bool" for nodes where
  root: "nodes h = Some n \<Longrightarrow> bn_height n = 0 \<Longrightarrow> branch nodes h [n]"
| child: "nodes h = Some n \<Longrightarrow> bn_height n \<noteq> 0 \<Longrightarrow> branch nodes (bn_parent n) ns \<Longrightarrow> branch nodes h (ns @ [n])"

lemma branch_last: "branch nodes h ns \<Longrightarrow> ns \<noteq> [] \<and> nodes h = Some (last ns)"
  by (induction rule: branch.induct) auto

inductive_cases branchE: "branch nodes h ns"

lemma branch_unique: "branch nodes h ns \<Longrightarrow> branch nodes h ms \<Longrightarrow> ns = ms"
proof (induction arbitrary: ms rule: branch.induct)
  case (root h n)
  from root.prems show ?case by (rule branchE) (use root.hyps in simp_all)
next
  case (child h n ns)
  from child.prems obtain ms' where "ms = ms' @ [n]" "branch nodes (bn_parent n) ms'"
    by (rule branchE) (use child.hyps in simp_all)
  then show ?case using child.IH by simp
qed

lemma branch_fresh:
  assumes "branch nodes h ns" "nodes k = None"
  shows "branch (nodes(k \<mapsto> x)) h ns"
  using assms
proof (induction rule: branch.induct)
  case (root h n)
  then show ?case by (intro branch.root) auto
next
  case (child h n ns)
  then show ?case by (intro branch.child) auto
qed

definition linked :: "nodes \<Rightarrow> bool" where
  "linked nodes \<longleftrightarrow> (\<forall>h n. nodes h = Some n \<longrightarrow> bn_hash n = h \<and> bn_height n = bk_height (bn_block n) \<and>
     bn_parent n = hd_previous_hash (bk_header (bn_block n)) \<and> (\<exists>ns. branch nodes h ns))"

lemma branch_prefix:
  assumes "branch nodes h (as @ x # bs)" "linked nodes"
  shows "branch nodes (bn_hash x) (as @ [x])"
  using assms
proof (induction h "as @ x # bs" arbitrary: bs rule: branch.induct)
  case (root h n)
  then have "as = [] \<and> x = n" by (cases as) auto
  then show ?case using root by (auto simp: linked_def intro: branch.root)
next
  case (child h n ns)
  show ?case
  proof (cases bs rule: rev_cases)
    case Nil
    then have "ns = as" "n = x" using child.hyps by auto
    then show ?thesis using child.hyps child.prems by (auto simp: linked_def intro: branch.child)
  next
    case (snoc cs c)
    then have "ns = as @ x # cs" using child.hyps by auto
    then show ?thesis using child.hyps child.prems by blast
  qed
qed

lemma branch_hashes:
  "branch nodes h ns \<Longrightarrow> linked nodes \<Longrightarrow> ancestor_loop nodes h acc = Some (acc @ rev (map bn_hash ns))"
proof (induction arbitrary: acc rule: branch.induct)
  case (root h n)
  then show ?case by (subst ancestor_loop.simps) (auto simp: linked_def)
next
  case (child h n ns)
  then show ?case by (subst ancestor_loop.simps) (auto simp: linked_def)
qed

text \<open>Heights along a branch, and the walk down to a height.\<close>

definition branch_heights :: "block_node list \<Rightarrow> bool" where
  "branch_heights ns \<longleftrightarrow> length ns < 2 ^ 64 \<and> (\<forall>i < length ns. bn_height (ns ! i) = of_nat i)"

lemma branch_heights_snoc: "branch_heights (ns @ [n]) \<longleftrightarrow> branch_heights ns \<and> Suc (length ns) < 2 ^ 64 \<and> bn_height n = of_nat (length ns)"
  by (auto simp: branch_heights_def nth_append less_Suc_eq)

lemma u64_nat_less: "i < 2 ^ 64 \<Longrightarrow> j < 2 ^ 64 \<Longrightarrow> (of_nat i :: u64) < of_nat j \<longleftrightarrow> i < j"
  using u64_nat by (simp add: word_less_nat_alt)

lemma ancestor_of_branch:
  "branch nodes h ns \<Longrightarrow> branch_heights ns \<Longrightarrow> j < length ns \<Longrightarrow> ancestor_at_height nodes h (of_nat j) = Some (Some (ns ! j))"
proof (induction rule: branch.induct)
  case (root h n)
  then show ?case by (subst ancestor_at_height.simps) simp
next
  case (child h n ns)
  have n: "bn_height n = of_nat (length ns)" "Suc (length ns) < 2 ^ 64" "branch_heights ns" using child.prems(1) by (simp_all add: branch_heights_snoc)
  show ?case
  proof (cases "j = length ns")
    case False
    then have j: "j < length ns" using child.prems(2) by simp
    then have "(of_nat j :: u64) < of_nat (length ns)" using u64_nat_less n(2) by simp
    then have "\<not> (bn_height n = of_nat j \<or> bn_height n < of_nat j \<or> bn_height n = 0)" using n(1) child.hyps(2) by auto
    then show ?thesis using child.hyps(1) child.IH [OF n(3) j] j by (subst ancestor_at_height.simps) (simp add: nth_append)
  qed (use child.hyps(1) n(1) in \<open>subst ancestor_at_height.simps, simp\<close>)
qed

definition branch_stands :: "nodes \<times> hash \<Rightarrow> header_at_height list \<Rightarrow> bool" where
  "branch_stands s hs \<longleftrightarrow> (\<exists>ns. branch (fst s) (snd s) ns \<and> branch_heights ns \<and> hs = map node_header ns)"

interpretation branch_source: header_source branch_stands branch_weight_at
proof
  fix s hs
  assume "branch_stands s hs"
  then obtain ns where ns: "branch (fst s) (snd s) ns" "branch_heights ns" "hs = map node_header ns" by (auto simp: branch_stands_def)
  then show "0 < length hs \<and> length hs < 2 ^ 64" using branch_last by (auto simp: branch_heights_def)
  show "branch_weight_at s (of_nat j) = Ok (header_weight (hs ! j))" if "length hs - WBDA_WINDOW \<le> j" "j < length hs" for j
    using ancestor_of_branch [OF ns(1,2), of j] that ns(3) by (simp add: branch_weight_at_def)
qed

subsection \<open>The invariant and insertion\<close>

definition tip_order :: "block_node \<Rightarrow> block_node \<Rightarrow> ordering" where
  "tip_order a b = compare_chain_tips (bn_cumulative_work a) (bn_cumulative_weight a) (bn_hash a)
     (bn_cumulative_work b) (bn_cumulative_weight b) (bn_hash b)"

definition best_inv :: "fork_choice \<Rightarrow> bool" where
  "best_inv fc \<longleftrightarrow> (case fc_best_tip fc of
     None \<Rightarrow> fc_nodes fc = Map.empty
   | Some t \<Rightarrow> (\<exists>b. fc_nodes fc t = Some b \<and> (\<forall>h n. fc_nodes fc h = Some n \<longrightarrow> h = t \<or> tip_order b n = Greater)))"

definition node_inv :: "(bytes \<Rightarrow> hash) \<Rightarrow> argon2 \<Rightarrow> hash \<Rightarrow> nat \<Rightarrow> nodes \<Rightarrow> hash \<Rightarrow> block_node \<Rightarrow> bool" where
  "node_inv sha3 argon2 g N nodes h n \<longleftrightarrow> bn_hash n = h \<and> h = header_id sha3 (node_header n) \<and> bn_height n = bk_height (bn_block n) \<and>
     bn_parent n = hd_previous_hash (bk_header (bn_block n)) \<and> (bn_height n = 0 \<longrightarrow> h = g) \<and>
     (\<exists>ns. branch nodes h ns \<and> length ns \<le> N \<and> valid_headers sha3 argon2 g (map node_header ns) (bn_cumulative_work n) \<and>
       bn_cumulative_weight n = cumulative_weight 0 (drop 1 (map node_header ns)))"

definition fork_inv :: "(bytes \<Rightarrow> hash) \<Rightarrow> argon2 \<Rightarrow> nat \<Rightarrow> fork_choice \<Rightarrow> bool" where
  "fork_inv sha3 argon2 N fc \<longleftrightarrow> best_inv fc \<and>
     (\<forall>h n. fc_nodes fc h = Some n \<longrightarrow> node_inv sha3 argon2 (fc_expected_genesis fc) N (fc_nodes fc) h n)"

lemma fork_inv_new: "fork_inv sha3 argon2 0 (fork_new g)"
  by (simp add: fork_inv_def best_inv_def fork_new_def)

lemma fork_inv_linked: "fork_inv sha3 argon2 N fc \<Longrightarrow> linked (fc_nodes fc)"
  by (auto simp: fork_inv_def linked_def node_inv_def)

lemma branch_elems: "branch nodes h ns \<Longrightarrow> x \<in> set ns \<Longrightarrow> \<exists>k. nodes k = Some x"
  by (induction rule: branch.induct) auto

lemma fork_inv_branch:
  assumes f: "fork_inv sha3 argon2 N fc" "N < 2 ^ 64" and b: "branch (fc_nodes fc) h ns"
  shows "branch_heights ns" "valid_headers sha3 argon2 (fc_expected_genesis fc) (map node_header ns) (bn_cumulative_work (last ns))"
    "length ns \<le> N" "bn_cumulative_weight (last ns) = cumulative_weight 0 (drop 1 (map node_header ns))" "h = header_id sha3 (node_header (last ns))"
proof -
  have n: "fc_nodes fc h = Some (last ns)" using branch_last [OF b] by simp
  then have i: "node_inv sha3 argon2 (fc_expected_genesis fc) N (fc_nodes fc) h (last ns)" using f(1) by (simp add: fork_inv_def)
  then show v: "valid_headers sha3 argon2 (fc_expected_genesis fc) (map node_header ns) (bn_cumulative_work (last ns))" and len: "length ns \<le> N"
    and "bn_cumulative_weight (last ns) = cumulative_weight 0 (drop 1 (map node_header ns))" and "h = header_id sha3 (node_header (last ns))"
    using branch_unique [OF b] unfolding node_inv_def by blast+
  have "bn_height x = bk_height (bn_block x)" if "x \<in> set ns" for x
    using branch_elems [OF b that] f(1) by (auto simp: fork_inv_def node_inv_def)
  moreover have "bk_height (bn_block (ns ! i)) = of_nat i" if "i < length ns" for i using conjunct2 [OF valid_heights [OF v]] that by simp
  ultimately show "branch_heights ns" using len f(2) by (simp add: branch_heights_def)
qed

definition fork_accepts :: "(bytes \<Rightarrow> hash) \<Rightarrow> argon2 \<Rightarrow> fork_choice \<Rightarrow> block \<Rightarrow> bool" where
  "fork_accepts sha3 argon2 fc b \<longleftrightarrow> validate_structure sha3 b = Ok () \<and> header_id sha3 (at_height b) \<notin> dom (fc_nodes fc) \<and>
     (if is_genesis b
      then hd_target_bits (bk_header b) = GENESIS_TARGET_BITS \<and> header_id sha3 (at_height b) = fc_expected_genesis fc \<and>
        hd_previous_hash (bk_header b) = replicate HASH_SIZE 0
      else \<exists>ns. branch (fc_nodes fc) (hd_previous_hash (bk_header b)) ns \<and> extends_chain sha3 argon2 (map node_header ns) (at_height b))"

definition new_node :: "(bytes \<Rightarrow> hash) \<Rightarrow> block \<Rightarrow> work \<Rightarrow> u64 \<Rightarrow> work \<Rightarrow> block_node" where
  "new_node sha3 b parent_work parent_weight work =
     (let weight = (if is_genesis b then 0 else ucast (hd_block_weight (bk_header b))) in
      \<lparr>bn_block = b, bn_hash = header_id sha3 (at_height b), bn_parent = hd_previous_hash (bk_header b), bn_height = bk_height b, bn_work = work,
       bn_cumulative_work = work_saturating_add parent_work work, bn_weight = weight,
       bn_cumulative_weight = saturating_add parent_weight weight\<rparr>)"

definition add_node :: "fork_choice \<Rightarrow> block_node \<Rightarrow> fork_choice" where
  "add_node fc n = update_best_tip (fc\<lparr>fc_nodes := (fc_nodes fc)(bn_hash n \<mapsto> n)\<rparr>) (bn_hash n)"

lemma fork_insert_genesis:
  assumes "is_genesis b"
  shows "fork_insert_block sha3 argon2 fc b \<noteq> Err None"
    "fork_insert_block sha3 argon2 fc b = Ok (fc', h) \<longleftrightarrow> fork_accepts sha3 argon2 fc b \<and> h = header_id sha3 (at_height b) \<and>
      fc' = add_node fc (new_node sha3 b WORK_ZERO 0 WORK_ZERO)"
  using assms
  by (auto simp: fork_insert_block_def fork_accepts_def new_node_def add_node_def is_genesis_def expected_difficulty_for_def
      header_id_def result_simps Let_def split: if_splits)

lemma branch_difficulty:
  assumes f: "fork_inv sha3 argon2 N fc" "N < 2 ^ 64" and b: "branch (fc_nodes fc) (hd_previous_hash (bk_header b)) ns" "bk_height b \<noteq> 0"
    and h: "bk_height b = saturating_add (bn_height (last ns)) 1"
  shows "expected_difficulty_for fc b (hd_previous_hash (bk_header b)) = ok_or (chain_difficulty (map node_header ns)) (Some fork_choice_error.InvalidDifficulty)"
    "bk_height b = of_nat (length ns)"
proof -
  note i = fork_inv_branch [OF f b(1)]
  have ne: "ns \<noteq> []" "fc_nodes fc (hd_previous_hash (bk_header b)) = Some (last ns)" using branch_last [OF b(1)] by simp_all
  have st: "branch_stands (fc_nodes fc, hd_previous_hash (bk_header b)) (map node_header ns)" using b(1) i(1) by (auto simp: branch_stands_def)
  have "bn_height (last ns) = of_nat (length ns - 1)" using i(1) ne(1) by (simp add: branch_heights_def last_conv_nth)
  then show n: "bk_height b = of_nat (length ns)" using h next_height_nat [of "length ns"] ne(1) i(1) by (simp add: branch_heights_def)
  have "expected_difficulty_for_height (bk_height b) (hd_target_bits (bk_header (bn_block (last ns)))) (branch_weight_at (fc_nodes fc, hd_previous_hash (bk_header b))) =
      Ok (chain_difficulty (map node_header ns))"
    using branch_source.prescribed_difficulty [OF st] ne(1) n by (simp add: last_map)
  then show "expected_difficulty_for fc b (hd_previous_hash (bk_header b)) = ok_or (chain_difficulty (map node_header ns)) (Some fork_choice_error.InvalidDifficulty)"
    using ne(2) b(2) by (simp add: expected_difficulty_for_def)
qed

lemma fork_insert_child:
  assumes f: "fork_inv sha3 argon2 N fc" "N < 2 ^ 64" and g: "\<not> is_genesis b"
  shows "fork_insert_block sha3 argon2 fc b \<noteq> Err None \<and>
    (fork_insert_block sha3 argon2 fc b = Ok (fc', h) \<longleftrightarrow> fork_accepts sha3 argon2 fc b \<and> h = header_id sha3 (at_height b) \<and>
      (\<exists>p w. fc_nodes fc (hd_previous_hash (bk_header b)) = Some p \<and> block_work (hd_target_bits (bk_header b)) = Some w \<and>
        fc' = add_node fc (new_node sha3 b (bn_cumulative_work p) (bn_cumulative_weight p) w)))"
proof (cases "fc_nodes fc (hd_previous_hash (bk_header b))")
  case None
  then have "\<not> fork_accepts sha3 argon2 fc b" using g branch_last by (fastforce simp: fork_accepts_def)
  then show ?thesis using None g by (auto simp: fork_insert_block_def is_genesis_def result_simps Let_def split: if_splits)
next
  case (Some p)
  then obtain ns where ns: "branch (fc_nodes fc) (hd_previous_hash (bk_header b)) ns" using fork_inv_linked [OF f(1)] by (auto simp: linked_def)
  have p: "p = last ns" "ns \<noteq> []" using branch_last [OF ns] Some by auto
  have h0: "bk_height b \<noteq> 0" using g by (simp add: is_genesis_def)
  note i = fork_inv_branch [OF f ns]
  have "bn_height p = of_nat (length ns - 1)" using i(1) p by (simp add: branch_heights_def last_conv_nth)
  then have nxt: "saturating_add (bn_height p) 1 = of_nat (length ns)" using next_height_nat [of "length ns"] p(2) i(1) by (simp add: branch_heights_def)
  have acc: "fork_accepts sha3 argon2 fc b \<longleftrightarrow> validate_structure sha3 b = Ok () \<and> header_id sha3 (at_height b) \<notin> dom (fc_nodes fc) \<and>
      extends_chain sha3 argon2 (map node_header ns) (at_height b)"
    using g ns branch_unique by (auto simp: fork_accepts_def)
  show ?thesis
  proof (cases "bk_height b = saturating_add (bn_height p) 1")
    case True
    have d: "expected_difficulty_for fc b (hd_previous_hash (bk_header b)) = ok_or (chain_difficulty (map node_header ns)) (Some fork_choice_error.InvalidDifficulty)"
      using branch_difficulty(1) [OF f ns h0] True p(1) by simp
    have link: "header_id sha3 (last (map node_header ns)) = hd_previous_hash (bk_header b)" using i(5) p by (simp add: last_map)
    show ?thesis unfolding acc
      using g h0 Some True nxt d link structure_weight [of sha3 b]
      by (auto simp: fork_insert_block_def result_simps Let_def extends_chain_def pow_at_target_bits_Ok proven_def new_node_def add_node_def header_id_def
          unat_gt_0 split: if_splits)
  next
    case False
    then have "\<not> extends_chain sha3 argon2 (map node_header ns) (at_height b)" using nxt by (simp add: extends_chain_def)
    then show ?thesis using acc Some False h0 g by (auto simp: fork_insert_block_def result_simps Let_def split: if_splits)
  qed
qed

lemma tip_order_Greater:
  "tip_order a b = Greater \<longleftrightarrow> bn_cumulative_work b < bn_cumulative_work a \<or> bn_cumulative_work a = bn_cumulative_work b \<and>
     (bn_cumulative_weight b < bn_cumulative_weight a \<or> bn_cumulative_weight a = bn_cumulative_weight b \<and> bn_hash a < bn_hash b)"
  by (auto simp: tip_order_def compare_chain_tips_def cmp_def)

lemma tip_order_total: "bn_hash a \<noteq> bn_hash b \<Longrightarrow> tip_order a b \<noteq> Greater \<Longrightarrow> tip_order b a = Greater"
  unfolding tip_order_Greater by (metis linorder_less_linear)

lemma tip_order_trans: "tip_order a b = Greater \<Longrightarrow> tip_order b c = Greater \<Longrightarrow> tip_order a c = Greater"
  unfolding tip_order_Greater by auto

lemma tip_order_asym: "tip_order a b = Greater \<Longrightarrow> tip_order b a \<noteq> Greater"
  unfolding tip_order_Greater by auto

lemma add_node_nodes [simp]:
  "fc_nodes (add_node fc n) = (fc_nodes fc)(bn_hash n \<mapsto> n)" "fc_expected_genesis (add_node fc n) = fc_expected_genesis fc"
  by (auto simp: add_node_def update_best_tip_def)

lemma best_inv_add:
  assumes fc: "best_inv fc" "linked (fc_nodes fc)" and n: "fc_nodes fc (bn_hash n) = None"
  shows "best_inv (add_node fc n)"
proof (cases "fc_best_tip fc")
  case None
  then show ?thesis using fc(1) by (simp add: add_node_def update_best_tip_def best_inv_def best_tip_def)
next
  case (Some t)
  then obtain b where b: "fc_nodes fc t = Some b" "\<And>h m. fc_nodes fc h = Some m \<Longrightarrow> h = t \<or> tip_order b m = Greater"
    using fc(1) by (auto simp: best_inv_def)
  have neq: "bn_hash n \<noteq> t" "bn_hash b = t" using b(1) n fc(2) by (auto simp: linked_def)
  then have tip: "fc_best_tip (add_node fc n) = (if tip_order n b = Greater then Some (bn_hash n) else Some t)"
    using Some b(1) by (simp add: add_node_def update_best_tip_def best_tip_def tip_order_def)
  show ?thesis
  proof (cases "tip_order n b = Greater")
    case True
    then have "tip_order n m = Greater" if "fc_nodes fc h = Some m" for h m using b tip_order_trans that by (metis option.inject)
    then show ?thesis using True tip by (simp add: best_inv_def)
  next
    case False
    then have "tip_order b n = Greater" using tip_order_total [of n b] neq by auto
    then show ?thesis using False tip neq b by (auto simp: best_inv_def)
  qed
qed

lemma node_inv_mono:
  "node_inv sha3 argon2 g N nodes h n \<Longrightarrow> nodes k = None \<Longrightarrow> node_inv sha3 argon2 g (Suc N) (nodes(k \<mapsto> x)) h n"
  unfolding node_inv_def using branch_fresh le_SucI by blast

lemma fork_inv_add:
  assumes f: "fork_inv sha3 argon2 N fc" and fresh: "fc_nodes fc (bn_hash n) = None"
    and n: "node_inv sha3 argon2 (fc_expected_genesis fc) (Suc N) ((fc_nodes fc)(bn_hash n \<mapsto> n)) (bn_hash n) n"
  shows "fork_inv sha3 argon2 (Suc N) (add_node fc n)"
  using f n best_inv_add [OF _ fork_inv_linked [OF f] fresh] node_inv_mono [where k = "bn_hash n" and x = n and nodes = "fc_nodes fc"] fresh by (auto simp: fork_inv_def)

lemma cumulative_weight_snoc:
  "hs \<noteq> [] \<Longrightarrow> cumulative_weight 0 (drop 1 (hs @ [c])) = saturating_add (cumulative_weight 0 (drop 1 hs)) (ucast (hd_block_weight (ch_header c)))"
  by (cases hs) (simp_all add: cumulative_weight_def)

lemma zero_work: "work_saturating_add WORK_ZERO WORK_ZERO = WORK_ZERO"
  by code_simp

lemma fork_inv_insert:
  assumes f: "fork_inv sha3 argon2 N fc" "N < 2 ^ 64" and r: "fork_insert_block sha3 argon2 fc b = Ok (fc', h)"
  shows "fork_inv sha3 argon2 (Suc N) fc' \<and> fc_expected_genesis fc' = fc_expected_genesis fc"
proof (cases "is_genesis b")
  case True
  let ?n = "new_node sha3 b WORK_ZERO 0 WORK_ZERO"
  have a: "fork_accepts sha3 argon2 fc b" "fc' = add_node fc ?n" using r fork_insert_genesis(2) [OF True] by auto
  have n: "bn_hash ?n = fc_expected_genesis fc" "bn_height ?n = 0" "bn_block ?n = b" "bn_cumulative_work ?n = WORK_ZERO" "bn_cumulative_weight ?n = 0"
    using a(1) True by (simp_all add: new_node_def fork_accepts_def is_genesis_def zero_work saturating_add_def)
  have "branch ((fc_nodes fc)(bn_hash ?n \<mapsto> ?n)) (bn_hash ?n) [?n]" using n(2) by (intro branch.root) simp_all
  moreover have "valid_headers sha3 argon2 (fc_expected_genesis fc) [at_height b] WORK_ZERO"
    using a(1) True by (intro valid_headers.genesis) (simp_all add: fork_accepts_def is_genesis_def)
  ultimately have "node_inv sha3 argon2 (fc_expected_genesis fc) (Suc N) ((fc_nodes fc)(bn_hash ?n \<mapsto> ?n)) (bn_hash ?n) ?n"
    unfolding node_inv_def n
    using a(1) True by (auto simp: new_node_def fork_accepts_def is_genesis_def cumulative_weight_def intro!: exI [of _ "[?n]"])
  then show ?thesis using fork_inv_add [OF f(1)] a n(1) True by (auto simp: fork_accepts_def domIff)
next
  case False
  obtain p w where a: "fork_accepts sha3 argon2 fc b" "fc_nodes fc (hd_previous_hash (bk_header b)) = Some p"
      "block_work (hd_target_bits (bk_header b)) = Some w" "fc' = add_node fc (new_node sha3 b (bn_cumulative_work p) (bn_cumulative_weight p) w)"
    using r fork_insert_child [OF f False] by blast
  let ?n = "new_node sha3 b (bn_cumulative_work p) (bn_cumulative_weight p) w"
  obtain ns where ns: "branch (fc_nodes fc) (hd_previous_hash (bk_header b)) ns" "extends_chain sha3 argon2 (map node_header ns) (at_height b)"
    using a(1) False by (auto simp: fork_accepts_def)
  have p: "p = last ns" "ns \<noteq> []" using branch_last [OF ns(1)] a(2) by auto
  note i = fork_inv_branch [OF f ns(1)]
  have n: "bn_hash ?n = header_id sha3 (at_height b)" "bn_height ?n = bk_height b" "bn_block ?n = b" "bn_parent ?n = hd_previous_hash (bk_header b)"
      "bn_cumulative_work ?n = work_saturating_add (bn_cumulative_work p) w"
      "bn_cumulative_weight ?n = saturating_add (bn_cumulative_weight p) (ucast (hd_block_weight (bk_header b)))"
    using False by (simp_all add: new_node_def Let_def)
  have fresh: "fc_nodes fc (bn_hash ?n) = None" using a(1) n(1) by (auto simp: fork_accepts_def)
  have h0: "bk_height b \<noteq> 0" using False by (simp add: is_genesis_def)
  have "branch ((fc_nodes fc)(bn_hash ?n \<mapsto> ?n)) (bn_hash ?n) (ns @ [?n])"
    using h0 branch_fresh [OF ns(1) fresh, of ?n] n by (intro branch.child) simp_all
  moreover have "valid_headers sha3 argon2 (fc_expected_genesis fc) (map node_header (ns @ [?n])) (bn_cumulative_work ?n)"
    using valid_headers.extend [OF i(2) ns(2)] a(3) n p(1) by simp
  moreover have "bn_cumulative_weight ?n = cumulative_weight 0 (drop 1 (map node_header (ns @ [?n])))"
    using i(4) cumulative_weight_snoc [of "map node_header ns"] n p by simp
  ultimately have "node_inv sha3 argon2 (fc_expected_genesis fc) (Suc N) ((fc_nodes fc)(bn_hash ?n \<mapsto> ?n)) (bn_hash ?n) ?n"
    unfolding node_inv_def using n h0 i(3) by (auto intro!: exI [of _ "ns @ [?n]"])
  then show ?thesis using fork_inv_add [OF f(1) fresh] a(4) by simp
qed

subsection \<open>Trees built by insertions\<close>

definition insert_or_skip :: "(bytes \<Rightarrow> hash) \<Rightarrow> argon2 \<Rightarrow> fork_choice \<Rightarrow> block \<Rightarrow> fork_choice" where
  "insert_or_skip sha3 argon2 fc b = (case fork_insert_block sha3 argon2 fc b of Inl _ \<Rightarrow> fc | Inr (fc', _) \<Rightarrow> fc')"

definition fork_tree :: "(bytes \<Rightarrow> hash) \<Rightarrow> argon2 \<Rightarrow> hash \<Rightarrow> block list \<Rightarrow> fork_choice" where
  "fork_tree sha3 argon2 g bs = foldl (insert_or_skip sha3 argon2) (fork_new g) bs"

lemma fork_inv_weaken: "fork_inv sha3 argon2 N fc \<Longrightarrow> fork_inv sha3 argon2 (Suc N) fc"
  unfolding fork_inv_def node_inv_def using le_SucI by blast

lemma fork_tree_inv: "length bs \<le> 2 ^ 64 \<Longrightarrow> fork_inv sha3 argon2 (length bs) (fork_tree sha3 argon2 g bs) \<and> fc_expected_genesis (fork_tree sha3 argon2 g bs) = g"
proof (induction bs rule: rev_induct)
  case Nil
  then show ?case using fork_inv_new by (simp add: fork_tree_def) (simp add: fork_new_def)
next
  case (snoc b bs)
  let ?fc = "fork_tree sha3 argon2 g bs"
  have len: "length bs < 2 ^ 64" using snoc.prems by simp
  have fc: "fork_inv sha3 argon2 (length bs) ?fc" "fc_expected_genesis ?fc = g" using snoc.IH len by simp_all
  have step: "fork_tree sha3 argon2 g (bs @ [b]) = insert_or_skip sha3 argon2 ?fc b" by (simp add: fork_tree_def)
  show ?case
  proof (cases "fork_insert_block sha3 argon2 ?fc b")
    case (Inl e)
    then show ?thesis using fc fork_inv_weaken by (simp add: step insert_or_skip_def)
  next
    case (Inr r)
    then show ?thesis using fc fork_inv_insert [OF fc(1) len, of b "fst r" "snd r"] by (cases r) (simp add: step insert_or_skip_def)
  qed
qed

lemma best_of_inv:
  assumes "best_inv fc" "linked (fc_nodes fc)" "fc_nodes fc h = Some n"
  shows "\<exists>best. best_tip fc = Some best \<and> fc_nodes fc (bn_hash best) = Some best \<and>
    (\<forall>k m. fc_nodes fc k = Some m \<longrightarrow> m = best \<or> tip_order best m = Greater)"
proof -
  obtain t where t: "fc_best_tip fc = Some t" using assms(1,3) by (cases "fc_best_tip fc") (auto simp: best_inv_def)
  then obtain b where b: "fc_nodes fc t = Some b" "\<forall>k m. fc_nodes fc k = Some m \<longrightarrow> k = t \<or> tip_order b m = Greater"
    using assms(1) by (auto simp: best_inv_def)
  moreover have "bn_hash b = t" using b(1) assms(2) by (simp add: linked_def)
  moreover have "m = b \<or> tip_order b m = Greater" if "fc_nodes fc k = Some m" for k m using b that by (metis option.inject)
  ultimately show ?thesis using t by (intro exI [of _ b]) (auto simp: best_tip_def)
qed

lemma best_function_of_nodes:
  assumes "best_inv fc" "linked (fc_nodes fc)" "best_inv fc'" "fc_nodes fc' = fc_nodes fc"
  shows "best_tip fc' = best_tip fc"
proof (cases "fc_nodes fc = Map.empty")
  case True
  then show ?thesis using assms(4) by (cases "fc_best_tip fc"; cases "fc_best_tip fc'") (simp_all add: best_tip_def)
next
  case False
  then obtain h n where n: "fc_nodes fc h = Some n" by (auto simp: fun_eq_iff)
  obtain x y where xy: "best_tip fc = Some x" "best_tip fc' = Some y" "fc_nodes fc (bn_hash x) = Some x" "fc_nodes fc (bn_hash y) = Some y"
      "y = x \<or> tip_order x y = Greater" "x = y \<or> tip_order y x = Greater"
    using best_of_inv [OF assms(1,2) n] best_of_inv [OF assms(3) _, of h n] assms(2,4) n by metis
  then show ?thesis using tip_order_asym by metis
qed

subsection \<open>Plans\<close>

lemma common_prefix: "\<exists>as bs cs. (xs :: 'a list) = as @ bs \<and> ys = as @ cs \<and> (bs = [] \<or> cs = [] \<or> hd bs \<noteq> hd cs)"
proof (induction xs arbitrary: ys)
  case (Cons x xs)
  show ?case
  proof (cases ys)
    case (Cons y ys')
    show ?thesis
    proof (cases "x = y")
      case True
      obtain as bs cs where "xs = as @ bs" "ys' = as @ cs" "bs = [] \<or> cs = [] \<or> hd bs \<noteq> hd cs" using Cons.IH by blast
      then show ?thesis using True Cons by (intro exI [of _ "x # as"] exI [of _ bs] exI [of _ cs]) simp
    qed (use Cons in \<open>intro exI [of _ "[]"] exI [of _ "x # xs"] exI [of _ ys], simp\<close>)
  qed (intro exI [of _ "[]"] exI [of _ "x # xs"] exI [of _ "[]"], simp)
qed simp

text \<open>Two branches of a tree meet in their common prefix only, and they share genesis.\<close>

lemma branches_meet:
  assumes l: "linked nodes" and b: "branch nodes h (as @ bs)" "branch nodes k (as @ cs)" and d: "bs = [] \<or> cs = [] \<or> hd bs \<noteq> hd cs"
    and x: "x \<in> set cs"
  shows "bn_hash x \<notin> bn_hash ` set (as @ bs)"
proof
  assume "bn_hash x \<in> bn_hash ` set (as @ bs)"
  then obtain y where y: "y \<in> set (as @ bs)" "bn_hash y = bn_hash x" by (metis imageE)
  obtain c1 c2 where c: "cs = c1 @ x # c2" using x by (meson split_list)
  obtain p q where pq: "as @ bs = p @ y # q" using y(1) by (meson split_list)
  have "branch nodes (bn_hash x) (as @ c1 @ [x])" using branch_prefix [of nodes k "as @ c1" x c2] b(2) l by (simp add: c)
  moreover have "branch nodes (bn_hash x) (p @ [y])" using branch_prefix [of nodes h p y q] b(1) l y(2) by (simp add: pq)
  ultimately have "as @ c1 @ [x] = p @ [y]" by (rule branch_unique)
  then have "as @ c1 @ x # q = as @ bs" using pq by (metis append.assoc append_Cons append_Nil)
  then have "bs = c1 @ x # q" by simp
  then show False using d c by (cases c1) auto
qed

abbreviation parent_of :: "block_node \<Rightarrow> block_node \<Rightarrow> bool" where
  "parent_of x y \<equiv> bn_parent y = bn_hash x"

lemma branch_snoc:
  assumes "branch nodes h (ns @ [n])" "ns \<noteq> []" "linked nodes"
  shows "nodes h = Some n" "bn_hash n = h" "branch nodes (bn_parent n) ns" "parent_of (last ns) n"
proof -
  show n: "nodes h = Some n" using branch_last [OF assms(1)] by simp
  then show "bn_hash n = h" using assms(3) by (simp add: linked_def)
  from assms(1) show b: "branch nodes (bn_parent n) ns" by (rule branchE) (use assms(2) in auto)
  have "nodes (bn_parent n) = Some (last ns)" using branch_last [OF b] by simp
  then show "parent_of (last ns) n" using assms(3) unfolding linked_def by metis
qed

lemma branch_successive: "branch nodes h ns \<Longrightarrow> linked nodes \<Longrightarrow> successively parent_of ns"
proof (induction ns arbitrary: h rule: rev_induct)
  case (snoc n ns)
  show ?case
  proof (cases "ns = []")
    case False
    then show ?thesis using branch_snoc(3,4) [OF snoc.prems(1) False snoc.prems(2)] snoc.IH snoc.prems(2) by (simp add: successively_append_iff)
  qed simp
qed simp

lemma branch_loop_down:
  "branch nodes h (as @ cs) \<Longrightarrow> as \<noteq> [] \<Longrightarrow> linked nodes \<Longrightarrow> bn_hash (last as) \<notin> bn_hash ` set cs \<Longrightarrow>
   branch_loop nodes (bn_hash (last as)) h acc = Some (Some (acc @ rev (map bn_block cs)))"
proof (induction cs arbitrary: h acc rule: rev_induct)
  case Nil
  then have "bn_hash (last as) = h" using branch_last by (fastforce simp: linked_def)
  then show ?case by (subst branch_loop.simps) simp
next
  case (snoc n cs)
  note b = branch_snoc [of nodes h "as @ cs" n]
  have "bn_hash (last as) \<noteq> h" "nodes h = Some n" "branch nodes (bn_parent n) (as @ cs)" using b snoc.prems by auto
  then show ?case using snoc.IH snoc.prems by (subst branch_loop.simps) simp
qed

definition hashed :: "(bytes \<Rightarrow> hash) \<Rightarrow> block_node list \<Rightarrow> bool" where
  "hashed sha3 ns \<longleftrightarrow> (\<forall>n \<in> set ns. bn_hash n = header_id sha3 (node_header n) \<and> bn_parent n = hd_previous_hash (bk_header (bn_block n)))"

lemma hashed_block: "hashed sha3 ns \<Longrightarrow> n \<in> set ns \<Longrightarrow> block_hash sha3 (bn_block n) = Ok (bn_hash n)"
  by (simp add: hashed_def block_hash_def header_id_def)

lemma links_of_branch: "hashed sha3 ns \<Longrightarrow> successively parent_of ns \<Longrightarrow> validate_links sha3 (rev (map bn_block ns)) = Ok ()"
proof (induction ns rule: rev_induct)
  case (snoc n ns)
  show ?case
  proof (cases ns rule: rev_cases)
    case (snoc ms m)
    then have "parent_of m n" "hashed sha3 ns" "successively parent_of ns" using snoc.prems by (auto simp: successively_append_iff hashed_def)
    then show ?thesis using snoc.IH snoc snoc.prems(1) by (simp add: hashed_block) (simp add: hashed_def)
  qed simp
qed simp

lemma apply_of_branch:
  "hashed sha3 (x # ns) \<Longrightarrow> successively parent_of (x # ns) \<Longrightarrow>
   try_fold (\<lambda>expected_parent b. if hd_previous_hash (bk_header b) \<noteq> expected_parent then Err InvalidBranch
     else map_err (\<lambda>_. InvalidBranch) (block_hash sha3 b)) (bn_hash x) (map bn_block ns) = Ok (bn_hash (last (x # ns)))"
proof (induction ns arbitrary: x)
  case (Cons n ns)
  then have "block_hash sha3 (bn_block n) = Ok (bn_hash n)" "hd_previous_hash (bk_header (bn_block n)) = bn_hash x"
    by (simp_all add: hashed_block) (auto simp: hashed_def)
  moreover have "hashed sha3 (n # ns)" "successively parent_of (n # ns)" using Cons.prems by (simp_all add: hashed_def)
  ultimately show ?case using Cons.IH by simp
qed simp

lemma branch_hd: "branch nodes h ns \<Longrightarrow> bn_height (hd ns) = 0 \<and> (\<exists>k. nodes k = Some (hd ns))"
proof (induction rule: branch.induct)
  case (child h n ns)
  then show ?case using branch_last by (metis hd_append2)
qed auto

lemma find_after: "find P xs = None \<Longrightarrow> find P (xs @ ys) = find P ys"
  by (induction xs) (auto split: if_splits)

lemma plan_of_branches:
  assumes l: "linked (fc_nodes fc)" and b: "branch (fc_nodes fc) old (as @ bs)" "branch (fc_nodes fc) new (as @ cs)"
    and d: "bs = [] \<or> cs = [] \<or> hd bs \<noteq> hd cs" and ne: "as \<noteq> []" and h: "hashed sha3 (as @ bs)" "hashed sha3 (as @ cs)"
  shows "plan_reorg sha3 (Some old) fc new = Ok \<lparr>rp_ancestor = bn_hash (last as), rp_old_tip = Some old, rp_new_tip = new,
    rp_disconnect = rev (map bn_block bs), rp_apply = map bn_block cs\<rparr>"
proof -
  let ?x = "last as"
  obtain as' where as: "as = as' @ [?x]" using ne by (metis append_butlast_last_id)
  have meet: "bn_hash x \<notin> bn_hash ` set (as @ bs)" if "x \<in> set cs" for x using branches_meet [OF l b d that] .
  have base: "branch (fc_nodes fc) (bn_hash ?x) (as @ [])" using branch_prefix [of "fc_nodes fc" old as' ?x bs] b(1) l as by (metis append.assoc append_Cons append_Nil append_Nil2)
  have out: "bn_hash ?x \<notin> bn_hash ` set ds" if "branch (fc_nodes fc) k (as @ ds)" for k ds
  proof
    assume "bn_hash ?x \<in> bn_hash ` set ds"
    then obtain y where "y \<in> set ds" "bn_hash y = bn_hash ?x" by (metis imageE)
    then show False using branches_meet [OF l base that, of y] ne by simp
  qed
  have tips: "bn_hash (last (as @ bs)) = old" "bn_hash (last (as @ cs)) = new"
    using branch_last [OF b(1)] branch_last [OF b(2)] l by (simp_all add: linked_def)
  have succ: "successively parent_of (as @ bs)" "successively parent_of (as @ cs)" using branch_successive b l by simp_all
  have "find (\<lambda>h. h \<in> set (rev (map bn_hash (as @ bs)))) (rev (map bn_hash (as @ cs))) = Some (bn_hash ?x)"
  proof -
    have none: "find (\<lambda>h. h \<in> set (rev (map bn_hash (as @ bs)))) (rev (map bn_hash cs)) = None" using meet by (auto simp: find_None_iff)
    have "rev (map bn_hash (as @ cs)) = rev (map bn_hash cs) @ bn_hash ?x # rev (map bn_hash as')" by (subst as) simp
    then have "find (\<lambda>h. h \<in> set (rev (map bn_hash (as @ bs)))) (rev (map bn_hash (as @ cs))) =
        find (\<lambda>h. h \<in> set (rev (map bn_hash (as @ bs)))) (bn_hash ?x # rev (map bn_hash as'))" by (simp only: find_after [OF none])
    then show ?thesis using ne by simp
  qed
  then have anc: "common_ancestor (Some old) new fc = Some (Some (bn_hash ?x))"
    using branch_hashes [OF b(1) l, of "[]"] branch_hashes [OF b(2) l, of "[]"] by (simp add: common_ancestor_def ancestor_hashes_def)
  have loops: "branch_from_ancestor fc (bn_hash ?x) new = Some (Some (map bn_block cs))" "branch_from_ancestor fc (bn_hash ?x) old = Some (Some (map bn_block bs))"
    using branch_loop_down [OF b(2) ne l out [OF b(2)], of "[]"] branch_loop_down [OF b(1) ne l out [OF b(1)], of "[]"]
    by (simp_all add: branch_from_ancestor_def)
  have "validate_disconnect sha3 (bn_hash ?x) (Some old) (rev (map bn_block bs)) = Ok ()"
  proof (cases bs)
    case Nil
    then show ?thesis using tips(1) ne by (simp add: validate_disconnect_def)
  next
    case (Cons y ys)
    have "hashed sha3 bs" "successively parent_of bs" "parent_of ?x y" using h(1) succ(1) ne Cons by (auto simp: hashed_def successively_append_iff)
    moreover have "block_hash sha3 (bn_block (last bs)) = Ok old" using hashed_block [OF h(1), of "last bs"] tips(1) Cons by simp
    moreover have "hd_previous_hash (bk_header (bn_block y)) = bn_parent y" using h(1) Cons by (simp add: hashed_def)
    moreover have "hd (rev (map bn_block bs)) = bn_block (last bs)" "last (rev (map bn_block bs)) = bn_block y" "rev (map bn_block bs) \<noteq> []"
      using Cons by (simp_all add: hd_rev last_rev last_map)
    ultimately show ?thesis using links_of_branch [of sha3 bs] unfolding validate_disconnect_def by (simp add: result_ok_def)
  qed
  moreover have "validate_apply sha3 (bn_hash ?x) new (map bn_block cs) = Ok ()"
  proof -
    have "hashed sha3 (?x # cs)" "successively parent_of (?x # cs)" using h(2) succ(2) ne
      by (auto simp: hashed_def successively_append_iff successively_Cons)
    then show ?thesis using apply_of_branch [of sha3 ?x cs] tips(2) ne by (auto simp: validate_apply_def)
  qed
  ultimately show ?thesis by (simp add: plan_reorg_def anc loops returned_def reorg_plan_new_def)
qed

subsection \<open>Properties\<close>

text \<open>
  C11. Inserting a block into a tree built by any insertions always returns, and accepts exactly the
  structurally valid blocks that are new and either are the expected genesis or extend the branch of
  their parent as header synchronization demands: linked, weighted, at the difficulty the whole
  branch prescribes, and proven.
\<close>

theorem fork_insert_exact:
  assumes "length bs < 2 ^ 64" and "fc = fork_tree sha3 argon2 g bs"
  shows "fork_insert_block sha3 argon2 fc b \<noteq> Err None \<and> ((\<exists>fc' h. fork_insert_block sha3 argon2 fc b = Ok (fc', h)) \<longleftrightarrow> fork_accepts sha3 argon2 fc b)"
proof -
  have f: "fork_inv sha3 argon2 (length bs) fc" using fork_tree_inv assms by simp
  show ?thesis
  proof (cases "is_genesis b")
    case False
    have "\<exists>p w. fc_nodes fc (hd_previous_hash (bk_header b)) = Some p \<and> block_work (hd_target_bits (bk_header b)) = Some w" if "fork_accepts sha3 argon2 fc b"
      using that False branch_last extends_work by (fastforce simp: fork_accepts_def)
    then show ?thesis using fork_insert_child [OF f assms(1) False] by blast
  qed (use fork_insert_genesis in blast)
qed

text \<open>
  C8. In a tree built by any insertions, the branch of every node is a header chain that
  synchronization accepts with the node's hash and work; the best tip is that node or beats it - more
  work, then more weight, then the smaller hash - and it depends on the set of nodes only, not on the
  order in which they arrived.
\<close>

theorem fork_choice_best:
  assumes "length bs < 2 ^ 64" and "fc_nodes (fork_tree sha3 argon2 g bs) h = Some n"
  shows "(\<exists>ns. branch (fc_nodes (fork_tree sha3 argon2 g bs)) h ns \<and>
      verify_header_chain sha3 argon2 (map node_header ns) g = Ok (h, bn_cumulative_work n)) \<and>
    (\<exists>best. best_tip (fork_tree sha3 argon2 g bs) = Some best \<and> (n = best \<or> tip_order best n = Greater)) \<and>
    (\<forall>cs. length cs < 2 ^ 64 \<longrightarrow> fc_nodes (fork_tree sha3 argon2 g cs) = fc_nodes (fork_tree sha3 argon2 g bs) \<longrightarrow>
      best_tip (fork_tree sha3 argon2 g cs) = best_tip (fork_tree sha3 argon2 g bs))"
proof (intro conjI allI impI)
  let ?fc = "fork_tree sha3 argon2 g bs"
  have f: "fork_inv sha3 argon2 (length bs) ?fc" "fc_expected_genesis ?fc = g" using fork_tree_inv [of bs] assms(1) by simp_all
  have i: "best_inv ?fc" "linked (fc_nodes ?fc)" using f fork_inv_linked by (auto simp: fork_inv_def)
  obtain ns where ns: "branch (fc_nodes ?fc) h ns" using i(2) assms(2) by (auto simp: linked_def)
  have n: "n = last ns" using branch_last [OF ns] assms(2) by simp
  note b = fork_inv_branch [OF f(1) assms(1) ns]
  have "verify_header_chain sha3 argon2 (map node_header ns) g = Ok (h, bn_cumulative_work n)"
    using b(1,2,5) n f(2) branch_last [OF ns] by (subst verify_header_chain_iff) (simp_all add: branch_heights_def last_map)
  then show "\<exists>ns. branch (fc_nodes ?fc) h ns \<and> verify_header_chain sha3 argon2 (map node_header ns) g = Ok (h, bn_cumulative_work n)"
    using ns by blast
  show "\<exists>best. best_tip ?fc = Some best \<and> (n = best \<or> tip_order best n = Greater)" using best_of_inv [OF i assms(2)] assms(2) by blast
  show "best_tip (fork_tree sha3 argon2 g cs) = best_tip ?fc" if "length cs < 2 ^ 64" "fc_nodes (fork_tree sha3 argon2 g cs) = fc_nodes ?fc" for cs
    using best_function_of_nodes [OF i _ that(2)] fork_tree_inv [of cs] that(1) by (simp add: fork_inv_def)
qed

text \<open>
  C10. Between any two blocks of such a tree a reorganization plan exists and is found: the branches
  from genesis to the old and to the new tip share a non-empty prefix and then part, the ancestor is the
  last block of the prefix, the blocks to disconnect are the rest of the old branch from the tip down,
  and the blocks to connect are the rest of the new branch upward.
\<close>

theorem reorg_plan_exact:
  assumes "length bs < 2 ^ 64" and fc: "fc = fork_tree sha3 argon2 g bs" and "old \<in> dom (fc_nodes fc)" and "new \<in> dom (fc_nodes fc)"
  shows "\<exists>shared old_rest new_rest. branch (fc_nodes fc) old (shared @ old_rest) \<and> branch (fc_nodes fc) new (shared @ new_rest) \<and> shared \<noteq> [] \<and>
    (old_rest = [] \<or> new_rest = [] \<or> hd old_rest \<noteq> hd new_rest) \<and>
    plan_reorg sha3 (Some old) fc new = Ok \<lparr>rp_ancestor = bn_hash (last shared), rp_old_tip = Some old, rp_new_tip = new,
      rp_disconnect = rev (map bn_block old_rest), rp_apply = map bn_block new_rest\<rparr>"
proof -
  have f: "fork_inv sha3 argon2 (length bs) fc" "fc_expected_genesis fc = g" using fork_tree_inv [of bs] assms(1) by (simp_all add: fc)
  have l: "linked (fc_nodes fc)" by (rule fork_inv_linked [OF f(1)])
  obtain os ns where b: "branch (fc_nodes fc) old os" "branch (fc_nodes fc) new ns"
    using l assms(3,4) unfolding linked_def by (metis domD)
  have g: "fc_nodes fc g = Some (hd xs)" if "branch (fc_nodes fc) k xs" for k xs
    using branch_hd [OF that] f by (auto simp: fork_inv_def node_inv_def)
  then have "hd os = hd ns" "os \<noteq> []" "ns \<noteq> []" using b branch_last by (metis option.inject)+
  then have first: "os = hd os # tl os" "ns = hd os # tl ns" by (metis list.collapse)+
  obtain ps qs rs where p: "tl os = ps @ qs" "tl ns = ps @ rs" "qs = [] \<or> rs = [] \<or> hd qs \<noteq> hd rs" using common_prefix by blast
  have br: "branch (fc_nodes fc) old ((hd os # ps) @ qs)" "branch (fc_nodes fc) new ((hd os # ps) @ rs)" using b first p by simp_all
  have "hashed sha3 xs" if "branch (fc_nodes fc) k xs" for k xs
    unfolding hashed_def using branch_elems [OF that] f(1) by (auto simp: fork_inv_def node_inv_def)
  then show ?thesis using plan_of_branches [OF l br p(3)] br p(3) by (intro exI [of _ "hd os # ps"] exI [of _ qs] exI [of _ rs]) simp
qed

subsection \<open>A concrete fork\<close>

text \<open>A hash that keeps the last byte of its input, and two blocks at height one that differ in their nonce.\<close>

definition byte_hash :: "bytes \<Rightarrow> hash" where
  "byte_hash bs = replicate 31 0 @ [last bs]"

definition fork_block :: "u64 \<Rightarrow> block" where
  "fork_block nonce = \<lparr>bk_header = (sample_header TARGET_BITS_START)\<lparr>hd_nonce := nonce\<rparr>, bk_height = 1,
     bk_body = \<lparr>bd_emission = Some \<lparr>em_to = replicate 32 9, em_subsidy = 156250000\<rparr>, bd_operations = []\<rparr>\<rparr>"

abbreviation left_block :: block where "left_block \<equiv> fork_block 0x0100000000000000"
abbreviation right_block :: block where "right_block \<equiv> fork_block 0x0200000000000000"

lemma last_u64: "last (u64_le 0) = 0" "last (u64_le 0x0100000000000000) = 1" "last (u64_le 0x0200000000000000) = 2" "last (u64_le 156250000) = 0"
  by code_simp+

lemma u64_le_ne: "u64_le n \<noteq> []"
proof
  assume "u64_le n = []"
  then have "length (u64_le n) = 0" by simp
  then show False by simp
qed

lemma zeros_snoc: "replicate 31 0 @ [0 :: u8] = replicate 32 0"
  by code_simp

lemma fork_ids:
  "header_id byte_hash (at_height genesis_sample) = replicate 32 0"
  "header_id byte_hash (at_height left_block) = replicate 31 0 @ [1]" "header_id byte_hash (at_height right_block) = replicate 31 0 @ [2]"
  using last_u64 zeros_snoc by (simp_all add: header_id_def domain_def byte_hash_def frame_def u64_le_ne last_append enc_header_def genesis_sample_def fork_block_def sample_header_def)

lemma fork_blocks_valid: "validate_structure byte_hash genesis_sample = Ok ()" "validate_structure byte_hash (fork_block nonce) = Ok ()"
  using last_u64 zeros_snoc by (simp_all add: validate_structure_def genesis_sample_def fork_block_def sample_header_def MAX_BLOCK_OPERATIONS_def is_genesis_def
      operations_are_structurally_valid_def MAX_BLOCK_SIZE_def encodable_block_def U32_MAX_def capped_write_iff concat_block_chunks
      enc_block_def enc_header_def enc_array_def enc_emission_def enc_vec_def enc_seq_def calculate_merkle_root_def merkle_leaves_def
      emission_hash_def canonical_bytes_def domain_def merkle_root_def merkle_top.simps HASH_SIZE_def byte_hash_def frame_def u64_le_ne last_append)

lemma fork_pow: "proven byte_hash sample_argon2 (bk_header (fork_block nonce))"
proof -
  obtain limit where l: "from_compact TARGET_BITS_START = Some limit" "length limit = 32" using start_target by blast
  have "meets limit (replicate 32 0)" using l(2) target_le_iff [of "replicate 32 0" limit] by (simp add: meets_def)
  moreover have "calculate_work byte_hash sample_argon2 (bk_header (fork_block nonce)) = Ok (replicate 32 0)"
    by (simp add: calculate_work_def pow_seed_def block_header_bytes_def canonical_bytes_def argon2id_pow_hash_def sample_argon2_def)
  ultimately show ?thesis using l(1) by (auto simp: proven_def fork_block_def sample_header_def)
qed

lemma fork_block_extends: "extends_chain byte_hash sample_argon2 [at_height genesis_sample] (at_height (fork_block nonce))"
  using fork_pow fork_ids(1)
  by (simp add: extends_chain_def fork_block_def sample_header_def MAX_BLOCK_SIZE_def chain_difficulty_def)

lemma fork_tree_grows:
  assumes "length bs < 2 ^ 64" "fork_accepts sha3 argon2 (fork_tree sha3 argon2 g bs) b"
  shows "\<exists>n. fc_nodes (fork_tree sha3 argon2 g (bs @ [b])) = (fc_nodes (fork_tree sha3 argon2 g bs))(header_id sha3 (at_height b) \<mapsto> n) \<and>
    bn_block n = b \<and> bn_height n = bk_height b"
proof -
  let ?fc = "fork_tree sha3 argon2 g bs"
  have f: "fork_inv sha3 argon2 (length bs) ?fc" using fork_tree_inv assms(1) by simp
  have n: "bn_block (new_node sha3 b pw pt w) = b" "bn_height (new_node sha3 b pw pt w) = bk_height b"
    "bn_hash (new_node sha3 b pw pt w) = header_id sha3 (at_height b)" for pw pt w by (simp_all add: new_node_def Let_def)
  have "\<exists>pw pt w h. fork_insert_block sha3 argon2 ?fc b = Ok (add_node ?fc (new_node sha3 b pw pt w), h)"
  proof (cases "is_genesis b")
    case False
    moreover have "\<exists>p w. fc_nodes ?fc (hd_previous_hash (bk_header b)) = Some p \<and> block_work (hd_target_bits (bk_header b)) = Some w"
      using assms(2) False branch_last extends_work by (fastforce simp: fork_accepts_def)
    ultimately show ?thesis using fork_insert_child [OF f assms(1) False] assms(2) by blast
  qed (use fork_insert_genesis(2) assms(2) in blast)
  then obtain pw pt w h where "fork_insert_block sha3 argon2 ?fc b = Ok (add_node ?fc (new_node sha3 b pw pt w), h)" by blast
  then show ?thesis using n by (intro exI [of _ "new_node sha3 b pw pt w"]) (simp add: fork_tree_def insert_or_skip_def)
qed

lemma fork_samples:
  "\<exists>x y z. bn_block x = genesis_sample \<and> bn_height x = 0 \<and> bn_block y = left_block \<and> bn_block z = right_block \<and>
     fc_nodes (fork_tree byte_hash sample_argon2 (replicate 32 0) [genesis_sample, left_block]) =
       [replicate 32 0 \<mapsto> x, replicate 31 0 @ [1] \<mapsto> y] \<and>
     fc_nodes (fork_tree byte_hash sample_argon2 (replicate 32 0) [genesis_sample, left_block, right_block]) =
       [replicate 32 0 \<mapsto> x, replicate 31 0 @ [1] \<mapsto> y, replicate 31 0 @ [2] \<mapsto> z]"
proof -
  let ?t = "fork_tree byte_hash sample_argon2 (replicate 32 0)"
  have e: "fc_nodes (?t []) = Map.empty" "fc_expected_genesis (?t []) = replicate 32 0" by (simp_all add: fork_tree_def fork_new_def)
  have g: "fork_accepts byte_hash sample_argon2 (?t []) genesis_sample"
    using e fork_ids fork_blocks_valid
    by (simp add: fork_accepts_def is_genesis_def) (simp add: genesis_sample_def sample_header_def HASH_SIZE_def)
  obtain x where x: "fc_nodes (?t [genesis_sample]) = [replicate 32 0 \<mapsto> x]" "bn_block x = genesis_sample" "bn_height x = 0"
    using fork_tree_grows [OF _ g] e(1) fork_ids(1) by (auto simp: genesis_sample_def)
  have acc: "fork_accepts byte_hash sample_argon2 fc (fork_block nonce)"
    if "fc_nodes fc (replicate 32 0) = Some x" "header_id byte_hash (at_height (fork_block nonce)) \<notin> dom (fc_nodes fc)" for fc nonce
  proof -
    have "branch (fc_nodes fc) (hd_previous_hash (bk_header (fork_block nonce))) [x]"
      using that(1) x(3) by (intro branch.root) (simp_all add: fork_block_def sample_header_def)
    moreover have "\<not> is_genesis (fork_block nonce)" by (simp add: is_genesis_def fork_block_def)
    ultimately show ?thesis using that fork_blocks_valid(2) fork_block_extends [of nonce] x(2)
      by (auto simp: fork_accepts_def intro!: exI [of _ "[x]"])
  qed
  have neq: "replicate 31 0 @ [1 :: u8] \<noteq> replicate 32 0" "replicate 31 0 @ [2 :: u8] \<noteq> replicate 32 0"
    unfolding zeros_snoc [symmetric] by simp_all
  obtain y where y: "fc_nodes (?t [genesis_sample, left_block]) = [replicate 32 0 \<mapsto> x, replicate 31 0 @ [1] \<mapsto> y]" "bn_block y = left_block"
    using fork_tree_grows [of "[genesis_sample]" byte_hash sample_argon2 "replicate 32 0" left_block] acc [of "?t [genesis_sample]"] x(1) neq fork_ids(2) by auto
  obtain z where "fc_nodes (?t [genesis_sample, left_block, right_block]) = [replicate 32 0 \<mapsto> x, replicate 31 0 @ [1] \<mapsto> y, replicate 31 0 @ [2] \<mapsto> z]"
      "bn_block z = right_block"
    using fork_tree_grows [of "[genesis_sample, left_block]" byte_hash sample_argon2 "replicate 32 0" right_block]
      acc [of "?t [genesis_sample, left_block]"] y(1) neq fork_ids(3) by auto
  then show ?thesis using x y by blast
qed

theorem fork_insert_exact_witness:
  "length [genesis_sample, left_block] < 2 ^ 64 \<and>
   fork_insert_block byte_hash sample_argon2 (fork_tree byte_hash sample_argon2 (replicate 32 0) [genesis_sample, left_block]) left_block \<noteq> Err None \<and>
   (\<nexists>fc' h. fork_insert_block byte_hash sample_argon2 (fork_tree byte_hash sample_argon2 (replicate 32 0) [genesis_sample, left_block]) left_block = Ok (fc', h))"
proof -
  have len: "length [genesis_sample, left_block] < 2 ^ 64" by simp
  have "\<not> fork_accepts byte_hash sample_argon2 (fork_tree byte_hash sample_argon2 (replicate 32 0) [genesis_sample, left_block]) left_block"
    using fork_samples fork_ids(2) by (auto simp: fork_accepts_def)
  then show ?thesis using fork_insert_exact [OF len refl, of byte_hash sample_argon2 "replicate 32 0" left_block] len by blast
qed

theorem fork_choice_best_witness:
  "\<exists>ns n best. branch (fc_nodes (fork_tree byte_hash sample_argon2 (replicate 32 0) [genesis_sample, left_block, right_block])) (replicate 31 0 @ [1]) ns \<and>
     verify_header_chain byte_hash sample_argon2 (map node_header ns) (replicate 32 0) = Ok (replicate 31 0 @ [1], bn_cumulative_work n) \<and>
     best_tip (fork_tree byte_hash sample_argon2 (replicate 32 0) [genesis_sample, left_block, right_block]) = Some best \<and>
     (n = best \<or> tip_order best n = Greater)"
proof -
  have len: "length [genesis_sample, left_block, right_block] < 2 ^ 64" by simp
  obtain y where "fc_nodes (fork_tree byte_hash sample_argon2 (replicate 32 0) [genesis_sample, left_block, right_block]) (replicate 31 0 @ [1]) = Some y"
    using fork_samples by fastforce
  then show ?thesis using fork_choice_best [OF len] by blast
qed

theorem reorg_plan_exact_witness:
  "replicate 31 0 @ [1] \<in> dom (fc_nodes (fork_tree byte_hash sample_argon2 (replicate 32 0) [genesis_sample, left_block, right_block])) \<and>
   replicate 31 0 @ [2] \<in> dom (fc_nodes (fork_tree byte_hash sample_argon2 (replicate 32 0) [genesis_sample, left_block, right_block])) \<and>
   (\<exists>plan. plan_reorg byte_hash (Some (replicate 31 0 @ [1])) (fork_tree byte_hash sample_argon2 (replicate 32 0) [genesis_sample, left_block, right_block])
      (replicate 31 0 @ [2]) = Ok plan)"
proof -
  have len: "length [genesis_sample, left_block, right_block] < 2 ^ 64" by simp
  have dom: "replicate 31 0 @ [1] \<in> dom (fc_nodes (fork_tree byte_hash sample_argon2 (replicate 32 0) [genesis_sample, left_block, right_block]))"
    "replicate 31 0 @ [2] \<in> dom (fc_nodes (fork_tree byte_hash sample_argon2 (replicate 32 0) [genesis_sample, left_block, right_block]))"
    using fork_samples by fastforce+
  then show ?thesis using reorg_plan_exact [OF len refl dom] by blast
qed

end
