(* ===== verification/Asset_Host.thy ===== *)
theory Asset_Host
  imports Asset_View
begin

section \<open>The bound asset host\<close>

text \<open>
  \<^verbatim>\<open>kernel/src/program/asset_host.rs\<close>: an application executes an asset call through a host that is bound to
  one authenticated instruction, applies it at most once, and rolls it back when the application
  fails afterwards; and the installed application, \<^verbatim>\<open>execute_asset\<close> of \<^verbatim>\<open>extension/src/monetary/mod.rs\<close>.
  The locale \<open>asset_application\<close> is what the host assumes of an application: it acts only through the
  host's methods. Its lemma says that the application decides whether the instruction happens and
  nothing else; it is interpreted on the installed application and on the bare kernel's.
\<close>

subsection \<open>The host\<close>

record asset_host =
  ah_state :: asset_state
  ah_expected :: asset_call
  ah_context :: execution_context
  ah_journal :: "asset_journal option"

definition host_apply :: "(bytes \<Rightarrow> hash) \<Rightarrow> asset_host \<Rightarrow> asset_call \<Rightarrow> asset_host \<times> (unit, asset_error) result" where
  "host_apply sha3 h operation =
     (if operation \<noteq> ah_expected h \<or> ah_journal h \<noteq> None then (h, Err InvalidProgram)
      else case asset_apply sha3 (ah_state h) operation (ah_context h) of
          (st, Inl e) \<Rightarrow> (h\<lparr>ah_state := st\<rparr>, Err e)
        | (st, Inr j) \<Rightarrow> (h\<lparr>ah_state := st, ah_journal := Some j\<rparr>, Ok ()))"

text \<open>Dropping a host with a journal it still holds undoes the call.\<close>

definition host_drop :: "asset_host \<Rightarrow> asset_state" where
  "host_drop h = (case ah_journal h of None \<Rightarrow> ah_state h | Some j \<Rightarrow> asset_rollback (ah_state h) j)"

type_synonym asset_application = "asset_call \<Rightarrow> asset_host \<Rightarrow> asset_host \<times> (unit, asset_error) result"

definition execute_asset ::
  "asset_application \<Rightarrow> asset_state \<Rightarrow> asset_call \<Rightarrow> execution_context \<Rightarrow> asset_state \<times> (asset_journal, asset_error) result" where
  "execute_asset app st call cx =
     (case app call \<lparr>ah_state = st, ah_expected = call, ah_context = cx, ah_journal = None\<rparr> of
        (h, Inl e) \<Rightarrow> (host_drop h, Err e)
      | (h, Inr _) \<Rightarrow>
          (case ah_journal h of
             None \<Rightarrow> (host_drop h, Err InvalidProgram)
           | Some j \<Rightarrow> (host_drop (h\<lparr>ah_journal := None\<rparr>), Ok j)))"

subsection \<open>Applications\<close>

definition system_asset :: "(bytes \<Rightarrow> hash) \<Rightarrow> asset_application" where
  "system_asset sha3 call h = (case call of
     Register c \<Rightarrow> host_apply sha3 h (Register c)
   | Mint c \<Rightarrow> host_apply sha3 h (Mint c)
   | Transfer c \<Rightarrow> host_apply sha3 h (Transfer c)
   | Burn c \<Rightarrow> host_apply sha3 h (Burn c))"

definition no_asset :: asset_application where
  "no_asset call h = (h, Err InvalidProgram)"

inductive asset_reach :: "(bytes \<Rightarrow> hash) \<Rightarrow> asset_host \<Rightarrow> asset_host \<Rightarrow> bool" for sha3 h where
  start: "asset_reach sha3 h h"
| request: "asset_reach sha3 h h' \<Longrightarrow> asset_reach sha3 h (fst (host_apply sha3 h' operation))"

subsection \<open>Calls see records and shares only\<close>

lemma asset_apply_canonical:
  assumes "st_records t = st_records s" and "st_shares t = st_shares s"
  shows "snd (asset_apply sha3 t call cx) = snd (asset_apply sha3 s call cx)"
proof (cases "snapshot_operation sha3 s call cx")
  case (Inl e)
  then have "snapshot_operation sha3 t call cx = Err e" using assms by (simp add: snapshot_operation_def)
  with Inl show ?thesis by (auto simp: asset_apply_def rbind_def split: sum.splits)
next
  case (Inr j)
  then have j: "snapshot_operation sha3 t call cx = Ok j" using assms by (simp add: snapshot_operation_def)
  obtain a inputs n where f: "operation_footprint sha3 call cx = Ok (a, inputs, n)"
    by (rule snapshot_operation_Ok [OF Inr])
  obtain s' r where s: "apply_monetary_operation sha3 s call cx = (s', r)" by fastforce
  obtain t' r' where t: "apply_monetary_operation sha3 t call cx = (t', r')" by fastforce
  have ag: "agree K a s t" for K using assms by (simp add: agree_def)
  have r: "r' = r" and sh: "st_shares s' = st_shares t'" "st_records s' a = st_records t' a"
    using operation_agrees [OF f ag [of UNIV] subset_UNIV s t] by (auto simp: agree_def fun_eq_iff)
  obtain "aj_records j = [(a, st_records s a)]" by (rule snapshot_operation_Ok [OF Inr]) (use f in simp)
  then show ?thesis using Inr j s t r sh by (simp add: asset_apply_def rbind_def split: sum.splits)
qed

lemma failed_call_restores:
  assumes "indexed st" and "asset_apply sha3 st call cx = (st', Err e)"
  shows "indexed st' \<and> st_records st' = st_records st \<and> st_shares st' = st_shares st"
  using assms(2)
proof (rule asset_apply_Err)
  fix j st1
  assume s: "snapshot_operation sha3 st call cx = Ok j" and ap: "apply_monetary_operation sha3 st call cx = (st1, Err e)"
    and st': "st' = asset_rollback st1 j"
  have "indexed st1" using operation_within_footprint [OF assms(1) ap s] by (simp add: within_footprint_def)
  then show ?thesis unfolding st' by (rule asset_rollback_restores [OF _ snapshot_remembers [OF assms(1) ap s]])
qed (use assms(1) in simp)

subsection \<open>What an application can do\<close>

definition untouched :: "(bytes \<Rightarrow> hash) \<Rightarrow> asset_state \<Rightarrow> asset_call \<Rightarrow> execution_context \<Rightarrow> asset_state \<Rightarrow> bool" where
  "untouched sha3 st call cx st' \<longleftrightarrow> st' = st \<or>
     (\<exists>e. snd (asset_apply sha3 st call cx) = Err e) \<and> indexed st' \<and> st_records st' = st_records st \<and> st_shares st' = st_shares st"

lemma asset_reach_inv:
  assumes "asset_reach sha3 h0 h" and "h0 = \<lparr>ah_state = st, ah_expected = call, ah_context = cx, ah_journal = None\<rparr>" and "indexed st"
  shows "ah_expected h = call \<and> ah_context h = cx \<and>
    (case ah_journal h of None \<Rightarrow> untouched sha3 st call cx (ah_state h) | Some j \<Rightarrow> asset_apply sha3 st call cx = (ah_state h, Ok j))"
  using assms(1)
proof induction
  case start
  then show ?case by (simp add: assms(2) untouched_def)
next
  case (request h operation)
  show ?case
  proof (cases "operation \<noteq> ah_expected h \<or> ah_journal h \<noteq> None")
    case True
    then have "fst (host_apply sha3 h operation) = h" by (auto simp: host_apply_def)
    show ?thesis unfolding \<open>fst (host_apply sha3 h operation) = h\<close> by (rule request.IH)
  next
    case False
    with request.IH have u: "untouched sha3 st call cx (ah_state h)" and h: "operation = call" "ah_context h = cx" "ah_expected h = call" "ah_journal h = None"
      by auto
    obtain st1 r where r: "asset_apply sha3 (ah_state h) call cx = (st1, r)" by fastforce
    show ?thesis
    proof (cases r)
      case (Inl e)
      then have "indexed st1 \<and> st_records st1 = st_records (ah_state h) \<and> st_shares st1 = st_shares (ah_state h)"
        using failed_call_restores [of "ah_state h"] r u assms(3) by (auto simp: untouched_def)
      moreover have "\<exists>e. snd (asset_apply sha3 st call cx) = Err e" using u r Inl by (auto simp: untouched_def)
      ultimately have "untouched sha3 st call cx st1" using u unfolding untouched_def by metis
      then show ?thesis using r Inl h by (simp add: host_apply_def)
    next
      case (Inr j)
      have "ah_state h = st"
      proof (rule ccontr)
        assume "ah_state h \<noteq> st"
        then have "snd (asset_apply sha3 (ah_state h) call cx) = snd (asset_apply sha3 st call cx)"
          and "\<exists>e. snd (asset_apply sha3 st call cx) = Err e"
          using u asset_apply_canonical [of "ah_state h" st] by (auto simp: untouched_def)
        then show False using r Inr by auto
      qed
      then show ?thesis using r Inr h by (simp add: host_apply_def)
    qed
  qed
qed

text \<open>Failing attempts leave no trace when twice each supply fits the 128-bit amount.\<close>

lemma asset_reach_exact:
  assumes "asset_reach sha3 h0 h" and "h0 = \<lparr>ah_state = st, ah_expected = call, ah_context = cx, ah_journal = None\<rparr>" and inv: "asset_inv st"
    and fits: "\<forall>a. 2 * asset_total (st_shares st) a < 2 ^ 128"
  shows "ah_expected h = call \<and> ah_context h = cx \<and> (ah_journal h = None \<longrightarrow> ah_state h = st)"
  using assms(1)
proof induction
  case start
  then show ?case by (simp add: assms(2))
next
  case (request h operation)
  obtain st1 r where r: "asset_apply sha3 (ah_state h) operation (ah_context h) = (st1, r)" by fastforce
  show ?case
  proof (cases "operation \<noteq> ah_expected h \<or> ah_journal h \<noteq> None")
    case False
    then have "st1 = st" if "r = Err e" for e
      using failed_call_undone [OF inv, of sha3 call cx st1 e] fits request.IH r that by simp
    then show ?thesis using request.IH r False by (auto simp: host_apply_def split: sum.splits)
  qed (use request.IH in \<open>auto simp: host_apply_def\<close>)
qed

locale asset_application =
  fixes sha3 :: "bytes \<Rightarrow> hash" and app :: asset_application
  assumes restricted: "asset_reach sha3 h (fst (app call h))"
begin

lemma execution_inv:
  assumes "indexed st" and "app call \<lparr>ah_state = st, ah_expected = call, ah_context = cx, ah_journal = None\<rparr> = (h, r)"
  shows "case ah_journal h of None \<Rightarrow> untouched sha3 st call cx (ah_state h) | Some j \<Rightarrow> asset_apply sha3 st call cx = (ah_state h, Ok j)"
  using asset_reach_inv [OF restricted [of _ call] refl assms(1), of call cx] unfolding assms(2) fst_conv by blast

lemma executed:
  assumes "indexed st" and "execute_asset app st call cx = (st', Ok j)"
  shows "asset_apply sha3 st call cx = (st', Ok j)"
proof -
  obtain h r where r: "app call \<lparr>ah_state = st, ah_expected = call, ah_context = cx, ah_journal = None\<rparr> = (h, r)" by fastforce
  then have "ah_journal h = Some j" "st' = ah_state h"
    using assms(2) by (auto simp: execute_asset_def host_drop_def split: sum.splits option.splits)
  then show ?thesis using execution_inv [OF assms(1) r] by simp
qed

lemma refused:
  assumes inv: "asset_inv st" and "execute_asset app st call cx = (st', Err e)"
  shows "indexed st' \<and> st_records st' = st_records st \<and> st_shares st' = st_shares st"
proof -
  have ix: "indexed st" using inv by (simp add: asset_inv_def)
  obtain h r where r: "app call \<lparr>ah_state = st, ah_expected = call, ah_context = cx, ah_journal = None\<rparr> = (h, r)" by fastforce
  then have st': "st' = host_drop h" using assms(2) by (auto simp: execute_asset_def split: sum.splits option.splits)
  show ?thesis
  proof (cases "ah_journal h")
    case None
    then show ?thesis using execution_inv [OF ix r] ix by (auto simp: st' host_drop_def untouched_def)
  next
    case (Some j)
    then have ok: "asset_apply sha3 st call cx = (ah_state h, Ok j)" using execution_inv [OF ix r] by simp
    obtain j0 where s: "snapshot_operation sha3 st call cx = Ok j0" and ap: "apply_monetary_operation sha3 st call cx = (ah_state h, Ok ())"
      and j: "j = \<lparr>aj_records = filter (\<lambda>(k, previous). st_records (ah_state h) k \<noteq> previous) (aj_records j0),
        aj_shares = filter (\<lambda>(k, previous). st_shares (ah_state h) k \<noteq> previous) (aj_shares j0)\<rparr>"
      by (rule asset_apply_Ok [OF ok])
    have "indexed (ah_state h)" using apply_monetary_operation_inv [OF inv ap] by (simp add: asset_inv_def)
    then show ?thesis unfolding st' host_drop_def
      using asset_rollback_restores remembers_filter [OF snapshot_remembers [OF ix ap s]] by (simp add: Some j)
  qed
qed

lemma refused_exact:
  assumes inv: "asset_inv st" and "execute_asset app st call cx = (st', Err e)"
    and fits: "\<forall>a. 2 * asset_total (st_shares st) a < 2 ^ 128"
      "\<forall>x a. balance (st_shares st) x a + balance (st_shares (fst (asset_apply sha3 st call cx))) x a < 2 ^ 128"
  shows "st' = st"
proof -
  have ix: "indexed st" using inv by (simp add: asset_inv_def)
  obtain h r where r: "app call \<lparr>ah_state = st, ah_expected = call, ah_context = cx, ah_journal = None\<rparr> = (h, r)" by fastforce
  then have st': "st' = host_drop h" using assms(2) by (auto simp: execute_asset_def split: sum.splits option.splits)
  show ?thesis
  proof (cases "ah_journal h")
    case None
    have "asset_reach sha3 \<lparr>ah_state = st, ah_expected = call, ah_context = cx, ah_journal = None\<rparr> h"
      using restricted [of "\<lparr>ah_state = st, ah_expected = call, ah_context = cx, ah_journal = None\<rparr>" call] unfolding r fst_conv .
    from asset_reach_exact [OF this refl inv fits(1)] show ?thesis using None by (simp add: st' host_drop_def)
  next
    case (Some j)
    then have "asset_apply sha3 st call cx = (ah_state h, Ok j)" using execution_inv [OF ix r] by simp
    with journal_undoes [OF inv this] fits(2) show ?thesis by (simp add: st' host_drop_def Some)
  qed
qed

end

interpretation system_assets: asset_application sha3 "system_asset sha3" for sha3
proof
  fix call h
  have "fst (system_asset sha3 call h) = fst (host_apply sha3 h call)" by (cases call) (simp_all add: system_asset_def)
  then show "asset_reach sha3 h (fst (system_asset sha3 call h))" using asset_reach.request [OF asset_reach.start] by metis
qed

interpretation no_assets: asset_application sha3 no_asset for sha3
  by unfold_locales (simp add: no_asset_def asset_reach.start)

lemma execute_system_asset: "execute_asset (system_asset sha3) st call cx = asset_apply sha3 st call cx"
proof -
  have "system_asset sha3 call h = host_apply sha3 h call" for h by (cases call) (simp_all add: system_asset_def)
  then show ?thesis
    by (auto simp: execute_asset_def host_apply_def host_drop_def split: prod.splits sum.splits)
qed

subsection \<open>Properties\<close>

text \<open>C18. Whatever an application does through its asset host (requesting other instructions, requesting the
  same one again, failing after the instruction was applied), the host executes the authenticated
  instruction exactly as the ledger defines it, once, and reports its journal, or it reports an error and leaves records,
  shares, owner index and roles of the ledger as they were. The whole asset state is as it was, cached balances
  included, when twice each supply and the balances before and after the instruction together fit the 128-bit amount.\<close>

theorem asset_host_exact:
  assumes "asset_application sha3 app" and "asset_inv st"
  shows "(\<forall>st' j. execute_asset app st call cx = (st', Ok j) \<longrightarrow> asset_apply sha3 st call cx = (st', Ok j)) \<and>
    (\<forall>st' e. execute_asset app st call cx = (st', Err e) \<longrightarrow>
       st_records st' = st_records st \<and> st_shares st' = st_shares st \<and> st_by_owner st' = st_by_owner st \<and> st_roles st' = st_roles st \<and>
       ((\<forall>a. 2 * asset_total (st_shares st) a < 2 ^ 128) \<and>
        (\<forall>x a. balance (st_shares st) x a + balance (st_shares (fst (asset_apply sha3 st call cx))) x a < 2 ^ 128) \<longrightarrow> st' = st)) \<and>
    execute_asset (system_asset sha3) st call cx = asset_apply sha3 st call cx"
proof -
  have ix: "indexed st" using assms(2) by (simp add: asset_inv_def)
  show ?thesis
    using asset_application.executed [OF assms(1) ix] asset_application.refused [OF assms(1,2)] indexed_unique [OF ix]
      asset_application.refused_exact [OF assms(1,2)] execute_system_asset by blast
qed

definition greedy_asset :: "(bytes \<Rightarrow> hash) \<Rightarrow> asset_application" where
  "greedy_asset sha3 call h = host_apply sha3 (fst (host_apply sha3 h call)) call"

lemma greedy_refused:
  "asset_apply sha3 st call cx = (st', Ok j) \<Longrightarrow>
     execute_asset (greedy_asset sha3) st call cx = (asset_rollback st' j, Err InvalidProgram)"
  by (simp add: execute_asset_def greedy_asset_def host_apply_def host_drop_def)

theorem asset_host_exact_witness:
  "execute_asset (greedy_asset sample_hash) (sample_state 2 5) (sample_transfer [5]) sample_context = (sample_state 2 5, Err InvalidProgram)"
proof -
  have app: "asset_application sample_hash (greedy_asset sample_hash)"
    by unfold_locales (simp add: greedy_asset_def asset_reach.start asset_reach.request)
  have ne: "(5 :: units) \<noteq> 0" by simp
  note refused = greedy_refused [OF sample_apply [OF ne]]
  have "\<forall>a. 2 * asset_total (st_shares (sample_state 2 5)) a < 2 ^ 128"
    "\<forall>x a. balance (st_shares (sample_state 2 5)) x a +
       balance (st_shares (fst (asset_apply sample_hash (sample_state 2 5) (sample_transfer [5]) sample_context))) x a < 2 ^ 128"
    by (simp_all add: sample_total sample_balance sample_apply [OF ne])
  then show ?thesis using asset_host_exact [OF app sample_inv [OF ne]] refused by metis
qed

end
