(* ===== verification/Registry.thy ===== *)
theory Registry
  imports Operations
begin

section \<open>Program registry and deployments\<close>

text \<open>
  \<^verbatim>\<open>kernel/src/program/registry.rs\<close> (deployed programs with their scalar slot and byte storage, and the
  derived lookup by deployer and nonce), \<^verbatim>\<open>program/vm_app/storage.rs\<close> (the limits and the canonical reader
  of a program's storage) and \<^verbatim>\<open>program/deploy.rs\<close> (deployment, the journal of registry changes with its
  reader, and its rollback). The readers are loops that check each entry against what they have
  read so far; the locale \<open>fold_reader\<close> reduces such a loop to a fold over the entries, and is
  interpreted on the three loops of the code. The lemmas show that a registry has one encoding,
  that the reader accepts exactly the registries that pass the audit, that the derived index is
  never lost, and that rolling a journal back restores the registry.
\<close>

subsection \<open>Storage of a program (\<^verbatim>\<open>program/vm_app/storage.rs\<close>)\<close>

definition MAX_KEY_BYTES :: nat where "MAX_KEY_BYTES = 128"
definition MAX_STORAGE_ENTRIES :: nat where "MAX_STORAGE_ENTRIES = 4096"
definition MAX_STORAGE_BYTES :: nat where "MAX_STORAGE_BYTES = 1048576"
definition MAX_CALLS :: nat where "MAX_CALLS = 64"
definition MAX_ACTIONS :: nat where "MAX_ACTIONS = 256"

type_synonym storage = "bytes \<rightharpoonup> bytes"

definition entry_width :: "bytes \<times> bytes \<Rightarrow> nat" where
  "entry_width p = 8 + length (fst p) + length (snd p)"

definition valid_storage :: "storage \<Rightarrow> bool" where
  "valid_storage m \<longleftrightarrow> length (map_entries m) \<le> MAX_STORAGE_ENTRIES \<and>
     list_all (\<lambda>(k, v). k \<noteq> [] \<and> length k \<le> MAX_KEY_BYTES \<and> v \<noteq> [] \<and> length v \<le> MAX_DATA_BYTES) (map_entries m) \<and>
     sum_list (map entry_width (map_entries m)) + 4 \<le> MAX_STORAGE_BYTES"

definition check_key :: "bytes \<Rightarrow> (unit, execution_error) result" where
  "check_key key = (if key = [] \<or> length key > MAX_KEY_BYTES then Err InvalidOperand else Ok ())"

text \<open>A length prefix that is neither zero nor above a limit, then that many bytes.\<close>

definition read_sized :: "nat \<Rightarrow> bytes decoder" where
  "read_sized limit bs = Option.bind (dec_u32 bs) (\<lambda>(n, bs).
     if n = 0 \<or> unat n > limit then None else dec_array (unat n) bs)"

definition last_key :: "('k::linorder \<rightharpoonup> 'v) \<Rightarrow> 'k option" where
  "last_key m = (if map_entries m = [] then None else Some (fst (last (map_entries m))))"

fun reached :: "'k::linorder option \<Rightarrow> 'k \<Rightarrow> bool" where
  "reached None key = False"
| "reached (Some k) key = (k \<ge> key)"

text \<open>A loop of reads that threads a state.\<close>

fun dec_fold :: "('s \<Rightarrow> 's decoder) \<Rightarrow> nat \<Rightarrow> 's \<Rightarrow> 's decoder" where
  "dec_fold step 0 s bs = Some (s, bs)"
| "dec_fold step (Suc n) s bs = Option.bind (step s bs) (\<lambda>(s, bs). dec_fold step n s bs)"

definition read_storage_entry :: "storage \<times> nat \<Rightarrow> (storage \<times> nat) decoder" where
  "read_storage_entry s bs =
     (let (m, size) = s in
      Option.bind (read_sized MAX_KEY_BYTES bs) (\<lambda>(key, bs).
      if reached (last_key m) key then None
      else Option.bind (read_sized MAX_DATA_BYTES bs) (\<lambda>(v, bs).
        let size = size + (8 + length key + length v) in
        if size > MAX_STORAGE_BYTES then None else Some ((m(key \<mapsto> v), size), bs))))"

definition read_storage :: "storage decoder" where
  "read_storage bs = Option.bind (dec_u32 bs) (\<lambda>(count, bs).
     if unat count > MAX_STORAGE_ENTRIES then None
     else Option.bind (dec_fold read_storage_entry (unat count) (Map.empty, 4) bs) (\<lambda>((m, _), bs). Some (m, bs)))"

definition enc_storage :: "storage \<Rightarrow> bytes" where
  "enc_storage m = enc_vec (enc_pair enc_bytes enc_bytes) (map_entries m)"

subsection \<open>Records\<close>

record program_record =
  pr_code_hash :: hash
  pr_code :: bytes
  pr_owner :: program_id
  pr_nonce :: u64
  pr_deployed_at :: u64
  pr_state_value :: i64
  pr_storage :: storage

definition application_code :: "bytes \<Rightarrow> bool" where
  "application_code code = (4 < length code \<and> code ! 4 = APPLICATION_VERSION)"

definition enc_record :: "program_record \<Rightarrow> bytes" where
  "enc_record r = enc_array (pr_code_hash r) @ enc_bytes (pr_code r) @ enc_array (pr_owner r) @ u64_le (pr_nonce r) @
     u64_le (pr_deployed_at r) @ u64_le (pr_state_value r) @
     (if application_code (pr_code r) then enc_storage (pr_storage r) else [])"

definition dec_record :: "program_record decoder" where
  "dec_record bs =
     Option.bind (dec_array HASH_SIZE bs) (\<lambda>(code_hash, bs).
     Option.bind (deserialize_program_code bs) (\<lambda>(code, bs).
     Option.bind (dec_array HASH_SIZE bs) (\<lambda>(x, bs).
     Option.bind (dec_u64 bs) (\<lambda>(nonce, bs).
     Option.bind (dec_u64 bs) (\<lambda>(deployed_at, bs).
     Option.bind (dec_u64 bs) (\<lambda>(state_value, bs).
     Option.bind (if application_code code then read_storage bs else Some (Map.empty, bs)) (\<lambda>(storage, bs).
     Some (\<lparr>pr_code_hash = code_hash, pr_code = code, pr_owner = x, pr_nonce = nonce, pr_deployed_at = deployed_at,
            pr_state_value = state_value, pr_storage = storage\<rparr>, bs))))))))"

subsection \<open>The registry\<close>

record program_registry =
  rg_programs :: "program_id \<rightharpoonup> program_record"
  rg_deployments :: "(program_id \<times> u64) set"

definition registry_default :: program_registry where
  "registry_default = \<lparr>rg_programs = Map.empty, rg_deployments = {}\<rparr>"

definition program :: "program_registry \<Rightarrow> program_id \<Rightarrow> program_record option" where
  "program r i = rg_programs r i"

definition registry_contains :: "program_registry \<Rightarrow> program_id \<Rightarrow> bool" where
  "registry_contains r i = (i \<in> dom (rg_programs r))"

definition registry_len :: "program_registry \<Rightarrow> nat" where
  "registry_len r = card (dom (rg_programs r))"

definition check_available :: "program_registry \<Rightarrow> program_id \<Rightarrow> program_id \<Rightarrow> u64 \<Rightarrow> (unit, registry_error) result" where
  "check_available r i x nonce =
     (if registry_contains r i \<or> (x, nonce) \<in> rg_deployments r then Err AlreadyExists else Ok ())"

definition registry_insert :: "program_registry \<Rightarrow> program_id \<Rightarrow> program_record \<Rightarrow> (program_registry, registry_error) result" where
  "registry_insert r i p =
     rbind (check_available r i (pr_owner p) (pr_nonce p)) (\<lambda>_.
     Ok \<lparr>rg_programs = (rg_programs r)(i \<mapsto> p), rg_deployments = insert (pr_owner p, pr_nonce p) (rg_deployments r)\<rparr>)"

definition registry_remove :: "program_registry \<Rightarrow> program_id \<Rightarrow> (program_record \<times> program_registry) option" where
  "registry_remove r i =
     (case rg_programs r i of
        None \<Rightarrow> None
      | Some p \<Rightarrow> Some (p, \<lparr>rg_programs = (rg_programs r)(i := None), rg_deployments = rg_deployments r - {(pr_owner p, pr_nonce p)}\<rparr>))"

definition validate_record :: "(bytes \<Rightarrow> hash) \<Rightarrow> program_id \<Rightarrow> program_record \<Rightarrow> (unit, registry_error) result" where
  "validate_record sha3 i p =
     rbind (map_err (\<lambda>_. InvalidRecord) (deploy_validate \<lparr>dp_owner = pr_owner p, dp_nonce = pr_nonce p, dp_code = pr_code p\<rparr>)) (\<lambda>_.
     if \<not> valid_storage (pr_storage p) \<or> (\<not> application_code (pr_code p) \<and> map_entries (pr_storage p) \<noteq> []) then Err InvalidRecord
     else rbind (program_hash_derive sha3 (pr_code p)) (\<lambda>h.
       if h \<noteq> pr_code_hash p \<or> program_id_derive sha3 (pr_owner p) (pr_nonce p) h \<noteq> i then Err InvalidRecord
       else Ok ()))"

definition registry_validate :: "(bytes \<Rightarrow> hash) \<Rightarrow> program_registry \<Rightarrow> u64 \<Rightarrow> (unit, registry_error) result" where
  "registry_validate sha3 r tip =
     rbind (try_fold (\<lambda>deployments (i, p).
         rbind (validate_record sha3 i p) (\<lambda>_.
         if pr_deployed_at p > tip \<or> (pr_owner p, pr_nonce p) \<in> deployments then Err InvalidRecord
         else Ok (insert (pr_owner p, pr_nonce p) deployments))) {} (map_entries (rg_programs r))) (\<lambda>deployments.
     if deployments = rg_deployments r then Ok () else Err InvalidRecord)"

definition set_storage :: "program_registry \<Rightarrow> program_id \<Rightarrow> bytes \<Rightarrow> bytes option \<Rightarrow> (program_registry, registry_error) result" where
  "set_storage r i key v =
     rbind (ok_or (rg_programs r i) InvalidRecord) (\<lambda>p.
     if pr_storage p key = v then Ok r
     else Ok (r\<lparr>rg_programs := (rg_programs r)(i \<mapsto> p\<lparr>pr_storage := (pr_storage p)(key := v)\<rparr>)\<rparr>))"

definition set_state :: "program_registry \<Rightarrow> program_id \<Rightarrow> i64 \<Rightarrow> (i64 \<times> program_registry) option" where
  "set_state r i v =
     (case rg_programs r i of
        None \<Rightarrow> None
      | Some p \<Rightarrow> Some (pr_state_value p,
          if pr_state_value p \<noteq> v then r\<lparr>rg_programs := (rg_programs r)(i \<mapsto> p\<lparr>pr_state_value := v\<rparr>)\<rparr> else r))"

definition enc_registry :: "program_registry \<Rightarrow> bytes" where
  "enc_registry r = enc_vec (enc_pair enc_array enc_record) (map_entries (rg_programs r))"

definition read_registry_entry ::
  "(bytes \<Rightarrow> hash) \<Rightarrow> program_id option \<times> program_registry \<Rightarrow> (program_id option \<times> program_registry) decoder" where
  "read_registry_entry sha3 s bs =
     (let (previous, r) = s in
      Option.bind (dec_array HASH_SIZE bs) (\<lambda>(i, bs).
      if reached previous i then None
      else Option.bind (dec_record bs) (\<lambda>(p, bs).
        Option.bind (result_ok (validate_record sha3 i p)) (\<lambda>_.
        Option.bind (result_ok (registry_insert r i p)) (\<lambda>r.
        Some ((Some i, r), bs))))))"

definition dec_registry :: "(bytes \<Rightarrow> hash) \<Rightarrow> program_registry decoder" where
  "dec_registry sha3 bs = Option.bind (dec_u32 bs) (\<lambda>(count, bs).
     Option.bind (dec_fold (read_registry_entry sha3) (unat count) (None, registry_default) bs) (\<lambda>((_, r), bs). Some (r, bs)))"

subsection \<open>Deployment and its journal (\<^verbatim>\<open>program/deploy.rs\<close>)\<close>

datatype program_journal =
    JDeploy program_id
  | JState program_id i64
  | JCalls "(program_id \<times> i64) list" "(program_id \<times> bytes \<times> bytes option) list"

fun enc_program_journal :: "program_journal \<Rightarrow> bytes" where
  "enc_program_journal (JDeploy i) = 0 # enc_array i"
| "enc_program_journal (JState i previous) = 1 # enc_array i @ u64_le previous"
| "enc_program_journal (JCalls states storage) = 2 # enc_vec (enc_pair enc_array u64_le) states @
     enc_vec (enc_pair enc_array (enc_pair enc_bytes (enc_option enc_bytes))) storage"

definition read_previous :: "bytes option decoder" where
  "read_previous bs = Option.bind (dec_u8 bs) (\<lambda>(flag, bs).
     if flag = 0 then Some (None, bs)
     else if flag = 1 then Option.bind (read_sized MAX_DATA_BYTES bs) (\<lambda>(v, bs). Some (Some v, bs))
     else None)"

definition read_journal_entry ::
  "(program_id \<times> bytes \<times> bytes option) list \<Rightarrow> (program_id \<times> bytes \<times> bytes option) list decoder" where
  "read_journal_entry storage bs =
     Option.bind (dec_array HASH_SIZE bs) (\<lambda>(i, bs).
     Option.bind (read_sized MAX_KEY_BYTES bs) (\<lambda>(key, bs).
     if storage \<noteq> [] \<and> (fst (last storage), fst (snd (last storage))) \<ge> (i, key) then None
     else Option.bind (read_previous bs) (\<lambda>(v, bs). Some (storage @ [(i, key, v)], bs))))"

definition read_journal_storage :: "(program_id \<times> bytes \<times> bytes option) list decoder" where
  "read_journal_storage bs = Option.bind (dec_u32 bs) (\<lambda>(n, bs).
     if unat n > MAX_ACTIONS then None else dec_fold read_journal_entry (unat n) [] bs)"

definition dec_program_journal :: "program_journal decoder" where
  "dec_program_journal bs =
     Option.bind (dec_u8 bs) (\<lambda>(t, bs).
       if t = 0 then Option.bind (dec_array HASH_SIZE bs) (\<lambda>(i, bs). Some (JDeploy i, bs))
       else if t = 1 then
         Option.bind (dec_array HASH_SIZE bs) (\<lambda>(i, bs).
         Option.bind (dec_u64 bs) (\<lambda>(previous, bs). Some (JState i previous, bs)))
       else if t = 2 then
         Option.bind (dec_vec MAX_CALLS (dec_pair (dec_array HASH_SIZE) dec_u64) bs) (\<lambda>(states, bs).
         if list_ex (\<lambda>(a, b). fst a \<ge> fst b) (zip states (tl states)) then None
         else Option.bind (read_journal_storage bs) (\<lambda>(storage, bs). Some (JCalls states storage, bs)))
       else None)"

definition prepare_deployment :: "(bytes \<Rightarrow> hash) \<Rightarrow> deploy_program \<Rightarrow> u64 \<Rightarrow> (program_id \<times> program_record, deploy_error) result" where
  "prepare_deployment sha3 d height =
     rbind (deploy_validate d) (\<lambda>_.
     rbind (map_err Registry (program_hash_derive sha3 (dp_code d))) (\<lambda>code_hash.
     Ok (program_id_derive sha3 (dp_owner d) (dp_nonce d) code_hash,
         \<lparr>pr_code_hash = code_hash, pr_code = dp_code d, pr_owner = dp_owner d, pr_nonce = dp_nonce d,
          pr_deployed_at = height, pr_state_value = 0, pr_storage = Map.empty\<rparr>)))"

definition deploy ::
  "(bytes \<Rightarrow> hash) \<Rightarrow> program_registry \<Rightarrow> deploy_program \<Rightarrow> u64 \<Rightarrow> (program_registry \<times> program_id \<times> program_journal, deploy_error) result" where
  "deploy sha3 r d height =
     rbind (prepare_deployment sha3 d height) (\<lambda>(i, p).
     rbind (map_err Registry (registry_insert r i p)) (\<lambda>r.
     Ok (r, i, JDeploy i)))"

text \<open>A rollback keeps what it has already written when a later entry fails.\<close>

fun rollback_states :: "program_registry \<Rightarrow> (program_id \<times> i64) list \<Rightarrow> program_registry \<times> (unit, deploy_error) result" where
  "rollback_states r [] = (r, Ok ())"
| "rollback_states r ((i, previous) # xs) =
     (case set_state r i previous of None \<Rightarrow> (r, Err MissingProgram) | Some (_, r) \<Rightarrow> rollback_states r xs)"

fun rollback_storage ::
  "program_registry \<Rightarrow> (program_id \<times> bytes \<times> bytes option) list \<Rightarrow> program_registry \<times> (unit, deploy_error) result" where
  "rollback_storage r [] = (r, Ok ())"
| "rollback_storage r ((i, key, previous) # xs) =
     (case set_storage r i key previous of Inl e \<Rightarrow> (r, Err (Registry e)) | Inr r \<Rightarrow> rollback_storage r xs)"

fun rollback_program :: "program_registry \<Rightarrow> program_journal \<Rightarrow> program_registry \<times> (unit, deploy_error) result" where
  "rollback_program r (JCalls states storage) =
     (case rollback_states r states of
        (r, Inl e) \<Rightarrow> (r, Err e)
      | (r, Inr _) \<Rightarrow> rollback_storage r storage)"
| "rollback_program r (JDeploy i) =
     (case registry_remove r i of None \<Rightarrow> (r, Err MissingProgram) | Some (_, r) \<Rightarrow> (r, Ok ()))"
| "rollback_program r (JState i previous) =
     (case set_state r i previous of None \<Rightarrow> (r, Err MissingProgram) | Some (_, r) \<Rightarrow> (r, Ok ()))"

subsection \<open>Loops that read and check\<close>

fun run_entries :: "('s \<Rightarrow> 'e \<Rightarrow> 's option) \<Rightarrow> 's \<Rightarrow> 'e list \<Rightarrow> 's option" where
  "run_entries adv s [] = Some s"
| "run_entries adv s (e # es) = Option.bind (adv s e) (\<lambda>s. run_entries adv s es)"

lemma guard_Some: "(if c then None else x) = Some y \<longleftrightarrow> \<not> c \<and> x = Some y"
  by simp

locale fold_reader =
  fixes step :: "'s \<Rightarrow> 's decoder" and entry :: "'e \<Rightarrow> bytes" and adv :: "'s \<Rightarrow> 'e \<Rightarrow> 's option"
  assumes step_iff: "step s bs = Some (s', rest) \<longleftrightarrow> (\<exists>e. adv s e = Some s' \<and> bs = entry e @ rest)"
begin

lemma dec_fold_iff:
  "dec_fold step n s bs = Some (s', rest) \<longleftrightarrow>
     (\<exists>es. length es = n \<and> run_entries adv s es = Some s' \<and> bs = enc_seq entry es @ rest)"
proof (induction n arbitrary: s bs)
  case (Suc n)
  have "dec_fold step (Suc n) s bs = Some (s', rest) \<longleftrightarrow>
      (\<exists>s1 bs1. step s bs = Some (s1, bs1) \<and> dec_fold step n s1 bs1 = Some (s', rest))"
    by (auto simp: bind_eq_Some_conv)
  also have "\<dots> \<longleftrightarrow> (\<exists>e es. length es = n \<and> run_entries adv s (e # es) = Some s' \<and> bs = enc_seq entry (e # es) @ rest)"
    unfolding step_iff Suc by (fastforce simp: enc_seq_def bind_eq_Some_conv)
  also have "\<dots> \<longleftrightarrow> (\<exists>es. length es = Suc n \<and> run_entries adv s es = Some s' \<and> bs = enc_seq entry es @ rest)"
    unfolding length_Suc_conv by blast
  finally show ?case .
qed (auto simp: enc_seq_def)

end

text \<open>A counted sequence of entries read by such a loop.\<close>

lemma counted_fold_iff:
  assumes "fold_reader step entry adv" and "maximum \<le> U32_MAX"
  shows "Option.bind (dec_u32 bs) (\<lambda>(n, bs). if unat n > maximum then None else dec_fold step (unat n) s bs) = Some (s', rest) \<longleftrightarrow>
     (\<exists>es. length es \<le> maximum \<and> run_entries adv s es = Some s' \<and> bs = enc_vec entry es @ rest)"
proof
  assume "Option.bind (dec_u32 bs) (\<lambda>(n, bs). if unat n > maximum then None else dec_fold step (unat n) s bs) = Some (s', rest)"
  then obtain n bs' where n: "dec_u32 bs = Some (n, bs')" "unat n \<le> maximum" "dec_fold step (unat n) s bs' = Some (s', rest)"
    by (auto simp: bind_eq_Some_conv split: if_splits)
  from n(3) obtain es where es: "length es = unat n" "run_entries adv s es = Some s'" "bs' = enc_seq entry es @ rest"
    unfolding fold_reader.dec_fold_iff [OF assms(1)] by blast
  have "bs = u32_le n @ bs'" using u32c.enc_dec [OF n(1)] by simp
  then show "\<exists>es. length es \<le> maximum \<and> run_entries adv s es = Some s' \<and> bs = enc_vec entry es @ rest"
    using es n(2) by (intro exI [of _ es]) (simp add: enc_vec_def)
next
  assume "\<exists>es. length es \<le> maximum \<and> run_entries adv s es = Some s' \<and> bs = enc_vec entry es @ rest"
  then obtain es where es: "length es \<le> maximum" "run_entries adv s es = Some s'" "bs = enc_vec entry es @ rest" by blast
  have "dec_fold step (length es) s (enc_seq entry es @ rest) = Some (s', rest)"
    unfolding fold_reader.dec_fold_iff [OF assms(1)] using es(2) by blast
  moreover have "unat (of_nat (length es) :: u32) = length es"
    using es(1) assms(2) by (simp add: unat_of_nat U32_MAX_def)
  ultimately show "Option.bind (dec_u32 bs) (\<lambda>(n, bs). if unat n > maximum then None else dec_fold step (unat n) s bs) = Some (s', rest)"
    using es(1) by (simp add: es(3) enc_vec_def u32c.dec_enc)
qed

lemma read_sized_iff:
  assumes "limit \<le> U32_MAX"
  shows "read_sized limit bs = Some (x, rest) \<longleftrightarrow> x \<noteq> [] \<and> length x \<le> limit \<and> bs = enc_bytes x @ rest"
proof -
  have raw: "enc_seq enc_u8 x = x" for x :: bytes by (induction x) (simp_all add: enc_seq_def enc_u8_def)
  show ?thesis
  proof
    assume "read_sized limit bs = Some (x, rest)"
    then obtain n bs' where n: "dec_u32 bs = Some (n, bs')" "n \<noteq> 0" "unat n \<le> limit" "dec_array (unat n) bs' = Some (x, rest)"
      by (auto simp: read_sized_def bind_eq_Some_conv split: if_splits)
    have "bs = u32_le n @ bs'" using u32c.enc_dec [OF n(1)] by simp
    moreover have "length x = unat n" "bs' = x @ rest" using arrayc.enc_dec [OF n(4)] by (simp_all add: enc_array_def)
    ultimately show "x \<noteq> [] \<and> length x \<le> limit \<and> bs = enc_bytes x @ rest"
      using n(2,3) by (auto simp: enc_bytes_def enc_vec_def raw word_unat_eq_iff)
  next
    assume x: "x \<noteq> [] \<and> length x \<le> limit \<and> bs = enc_bytes x @ rest"
    then have "unat (of_nat (length x) :: u32) = length x" using assms by (simp add: unat_of_nat U32_MAX_def)
    moreover from this x have "(of_nat (length x) :: u32) \<noteq> 0" by (auto simp: word_unat_eq_iff)
    ultimately show "read_sized limit bs = Some (x, rest)"
      using x by (simp add: read_sized_def enc_bytes_def enc_vec_def raw u32c.dec_enc)
        (simp add: dec_array_def)
  qed
qed

lemma sized_limits: "MAX_KEY_BYTES \<le> U32_MAX" "MAX_DATA_BYTES \<le> U32_MAX" "MAX_STORAGE_ENTRIES \<le> U32_MAX" "MAX_ACTIONS \<le> U32_MAX"
    "MAX_CALLS \<le> U32_MAX" "MAX_PROGRAM_CODE_SIZE \<le> U32_MAX"
  by (simp_all add: MAX_KEY_BYTES_def MAX_DATA_BYTES_def MAX_STORAGE_ENTRIES_def MAX_ACTIONS_def MAX_CALLS_def U32_MAX_def
      MAX_PROGRAM_CODE_SIZE_def)

subsection \<open>Storage has one encoding\<close>

lemma map_entries_map_of: "ordered_keys xs \<Longrightarrow> map_entries (map_of xs) = xs"
  by (rule ordered_keys_map_of_inj [OF fm.entries_ordered])
    (simp_all add: finite_dom_map_of map_of_map_entries)

lemma ordered_snoc: "ordered_keys (xs @ [(k, v)]) \<longleftrightarrow> ordered_keys xs \<and> (xs \<noteq> [] \<longrightarrow> fst (last xs) < k)"
proof (induction xs)
  case (Cons x xs)
  then show ?case by (cases "xs = []") (auto simp: sorted_wrt_append intro: less_trans)
qed simp

lemma map_of_snoc: "ordered_keys (xs @ [(k, v)]) \<Longrightarrow> map_of (xs @ [(k, v)]) = (map_of xs)(k \<mapsto> v)"
  using map_of_ordered_gt [of xs k v "[]" k] by (auto simp: fun_eq_iff map_add_def split: option.splits)

definition storage_adv :: "storage \<times> nat \<Rightarrow> bytes \<times> bytes \<Rightarrow> (storage \<times> nat) option" where
  "storage_adv s p =
     (if fst p \<noteq> [] \<and> length (fst p) \<le> MAX_KEY_BYTES \<and> snd p \<noteq> [] \<and> length (snd p) \<le> MAX_DATA_BYTES \<and>
         \<not> reached (last_key (fst s)) (fst p) \<and> snd s + entry_width p \<le> MAX_STORAGE_BYTES
      then Some ((fst s)(fst p \<mapsto> snd p), snd s + entry_width p) else None)"

interpretation storage_reader: fold_reader read_storage_entry "enc_pair enc_bytes enc_bytes" storage_adv
proof
  fix s bs s' rest
  have "read_storage_entry s bs = Some (s', rest) \<longleftrightarrow> (\<exists>key bs' v. read_sized MAX_KEY_BYTES bs = Some (key, bs') \<and>
      read_sized MAX_DATA_BYTES bs' = Some (v, rest) \<and>
      \<not> reached (last_key (fst s)) key \<and> snd s + entry_width (key, v) \<le> MAX_STORAGE_BYTES \<and>
      s' = ((fst s)(key \<mapsto> v), snd s + entry_width (key, v)))"
    by (cases s) (auto simp: read_storage_entry_def bind_eq_Some_conv Let_def entry_width_def guard_Some)
  then show "read_storage_entry s bs = Some (s', rest) \<longleftrightarrow>
      (\<exists>e. storage_adv s e = Some s' \<and> bs = enc_pair enc_bytes enc_bytes e @ rest)"
    unfolding read_sized_iff [OF sized_limits(1)] read_sized_iff [OF sized_limits(2)]
    by (auto simp: storage_adv_def enc_pair_def split: if_splits)
qed

definition storage_size :: "(bytes \<times> bytes) list \<Rightarrow> nat" where
  "storage_size xs = 4 + sum_list (map entry_width xs)"

definition storage_entry_ok :: "bytes \<times> bytes \<Rightarrow> bool" where
  "storage_entry_ok p = (fst p \<noteq> [] \<and> length (fst p) \<le> MAX_KEY_BYTES \<and> snd p \<noteq> [] \<and> length (snd p) \<le> MAX_DATA_BYTES)"

lemma run_storage:
  assumes "ordered_keys xs"
  shows "run_entries storage_adv (map_of xs, storage_size xs) es = Some s' \<longleftrightarrow>
     ordered_keys (xs @ es) \<and> list_all storage_entry_ok es \<and> (es \<noteq> [] \<longrightarrow> storage_size (xs @ es) \<le> MAX_STORAGE_BYTES) \<and>
     s' = (map_of (xs @ es), storage_size (xs @ es))"
  using assms
proof (induction es arbitrary: xs)
  case (Cons e es)
  obtain k v where e: "e = (k, v)" by (cases e)
  have ord: "\<not> reached (last_key (map_of xs)) k \<longleftrightarrow> ordered_keys (xs @ [(k, v)])"
    using Cons.prems ordered_snoc [of xs k v] by (auto simp: last_key_def map_entries_map_of)
  have size: "storage_size (xs @ [e]) = storage_size xs + entry_width e" by (simp add: storage_size_def)
  have mono: "storage_size (xs @ [e]) \<le> storage_size (xs @ e # es)" by (simp add: storage_size_def)
  have pre: "ordered_keys (xs @ e # es) \<Longrightarrow> ordered_keys (xs @ [e])" by (auto simp: sorted_wrt_append)
  have "run_entries storage_adv (map_of xs, storage_size xs) (e # es) = Some s' \<longleftrightarrow>
      ordered_keys (xs @ [e]) \<and> storage_entry_ok e \<and> storage_size (xs @ [e]) \<le> MAX_STORAGE_BYTES \<and>
      run_entries storage_adv (map_of (xs @ [e]), storage_size (xs @ [e])) es = Some s'"
    using ord map_of_snoc [of xs k v] by (auto simp: e storage_adv_def storage_entry_ok_def size [unfolded e])
  also have "\<dots> \<longleftrightarrow> ordered_keys (xs @ e # es) \<and> list_all storage_entry_ok (e # es) \<and> storage_size (xs @ e # es) \<le> MAX_STORAGE_BYTES \<and>
      s' = (map_of (xs @ e # es), storage_size (xs @ e # es))"
    using Cons.IH [of "xs @ [e]"] pre mono by (cases "es = []") auto
  finally show ?case by simp
qed (auto simp: storage_size_def)

lemma run_storage_whole:
  "run_entries storage_adv (Map.empty, 4) es = Some s' \<longleftrightarrow>
     ordered_keys es \<and> list_all storage_entry_ok es \<and> storage_size es \<le> MAX_STORAGE_BYTES \<and> s' = (map_of es, storage_size es)"
proof -
  have "storage_size [] = 4" "4 \<le> MAX_STORAGE_BYTES" by (simp_all add: storage_size_def MAX_STORAGE_BYTES_def)
  then show ?thesis using run_storage [of "[]" es s'] by (cases "es = []") auto
qed

lemma read_storage_iff:
  "read_storage bs = Some (m, rest) \<longleftrightarrow> (\<exists>es. length es \<le> MAX_STORAGE_ENTRIES \<and> ordered_keys es \<and> list_all storage_entry_ok es \<and>
     storage_size es \<le> MAX_STORAGE_BYTES \<and> m = map_of es \<and> bs = enc_vec (enc_pair enc_bytes enc_bytes) es @ rest)"
proof -
  have "read_storage bs = Some (m, rest) \<longleftrightarrow> (\<exists>n. Option.bind (dec_u32 bs) (\<lambda>(n, bs). if unat n > MAX_STORAGE_ENTRIES then None
      else dec_fold read_storage_entry (unat n) (Map.empty, 4) bs) = Some ((m, n), rest))"
    by (auto simp: read_storage_def bind_eq_Some_conv split: if_splits)
  then show ?thesis
    unfolding counted_fold_iff [OF storage_reader.fold_reader_axioms sized_limits(3)] run_storage_whole by auto
qed

definition ok_storage :: "storage \<Rightarrow> bool" where
  "ok_storage m \<longleftrightarrow> finite (dom m) \<and> valid_storage m"

lemma ok_storage_entries:
  "ok_storage m \<longleftrightarrow> finite (dom m) \<and> length (map_entries m) \<le> MAX_STORAGE_ENTRIES \<and> list_all storage_entry_ok (map_entries m) \<and>
     storage_size (map_entries m) \<le> MAX_STORAGE_BYTES"
  by (auto simp: ok_storage_def valid_storage_def storage_size_def storage_entry_ok_def list_all_iff)

interpretation storagec: codec enc_storage read_storage ok_storage
proof
  fix m rest
  assume m: "ok_storage m"
  then have "finite (dom m)" by (simp add: ok_storage_def)
  then show "read_storage (enc_storage m @ rest) = Some (m, rest)"
    using m unfolding read_storage_iff ok_storage_entries
    by (intro exI [of _ "map_entries m"]) (simp add: fm.entries_ordered map_of_map_entries enc_storage_def)
next
  fix bs m rest
  assume "read_storage bs = Some (m, rest)"
  then show "ok_storage m \<and> bs = enc_storage m @ rest"
    unfolding read_storage_iff ok_storage_entries by (auto simp: map_entries_map_of enc_storage_def finite_dom_map_of)
qed

subsection \<open>A registry has one encoding, and only audited registries decode\<close>

definition ok_record :: "program_record \<Rightarrow> bool" where
  "ok_record p \<longleftrightarrow> length (pr_code_hash p) = HASH_SIZE \<and> length (pr_code p) \<le> MAX_PROGRAM_CODE_SIZE \<and>
     length (pr_owner p) = HASH_SIZE \<and>
     (if application_code (pr_code p) then ok_storage (pr_storage p) else pr_storage p = Map.empty)"

interpretation codec_code: codec enc_bytes deserialize_program_code "\<lambda>bs. length bs \<le> MAX_PROGRAM_CODE_SIZE"
  unfolding program_code_reader by (rule codec_bytes [OF sized_limits(6)])

interpretation recordc: codec enc_record dec_record ok_record
proof
  show "dec_record (enc_record p @ rest) = Some (p, rest)" if "ok_record p" for p rest
    using that by (auto simp: dec_record_def enc_record_def ok_record_def codec_enc codec_code.dec_enc storagec.dec_enc split: if_splits)
next
  fix bs p rest
  assume "dec_record bs = Some (p, rest)"
  then obtain b1 b2 b3 b4 b5 b6 where d: "dec_array HASH_SIZE bs = Some (pr_code_hash p, b1)" "deserialize_program_code b1 = Some (pr_code p, b2)"
      "dec_array HASH_SIZE b2 = Some (pr_owner p, b3)" "dec_u64 b3 = Some (pr_nonce p, b4)" "dec_u64 b4 = Some (pr_deployed_at p, b5)"
      "dec_u64 b5 = Some (pr_state_value p, b6)"
    and st: "(if application_code (pr_code p) then read_storage b6 else Some (Map.empty, b6)) = Some (pr_storage p, rest)"
    unfolding dec_record_def by (auto simp: bind_eq_Some_conv)
  have "(if application_code (pr_code p) then ok_storage (pr_storage p) else pr_storage p = Map.empty) \<and>
      b6 = (if application_code (pr_code p) then enc_storage (pr_storage p) else []) @ rest"
    using st storagec.enc_dec [of b6 "pr_storage p" rest] by (auto split: if_splits)
  then show "ok_record p \<and> bs = enc_record p @ rest"
    using arrayc.enc_dec [OF d(1)] codec_code.enc_dec [OF d(2)] arrayc.enc_dec [OF d(3)] u64c.enc_dec [OF d(4)]
      u64c.enc_dec [OF d(5)] u64c.enc_dec [OF d(6)]
    by (simp add: ok_record_def enc_record_def)
qed

definition registry_adv ::
  "(bytes \<Rightarrow> hash) \<Rightarrow> program_id option \<times> program_registry \<Rightarrow> program_id \<times> program_record \<Rightarrow> (program_id option \<times> program_registry) option" where
  "registry_adv sha3 s e =
     (if length (fst e) = HASH_SIZE \<and> \<not> reached (fst s) (fst e) \<and> ok_record (snd e) \<and> validate_record sha3 (fst e) (snd e) = Ok () \<and>
         check_available (snd s) (fst e) (pr_owner (snd e)) (pr_nonce (snd e)) = Ok ()
      then Some (Some (fst e), \<lparr>rg_programs = (rg_programs (snd s))(fst e \<mapsto> snd e),
        rg_deployments = insert (pr_owner (snd e), pr_nonce (snd e)) (rg_deployments (snd s))\<rparr>)
      else None)"

interpretation registry_reader: fold_reader "read_registry_entry sha3" "enc_pair enc_array enc_record" "registry_adv sha3" for sha3
proof
  fix s bs s' rest
  have dec: "dec_array HASH_SIZE bs = Some (i, b) \<longleftrightarrow> length i = HASH_SIZE \<and> bs = enc_array i @ b" for bs i b
    using arrayc.enc_dec arrayc.dec_enc by metis
  have rec: "dec_record bs = Some (p, b) \<longleftrightarrow> ok_record p \<and> bs = enc_record p @ b" for bs p b
    using recordc.enc_dec recordc.dec_enc by metis
  have ins: "registry_insert r i p = Ok r' \<longleftrightarrow> check_available r i (pr_owner p) (pr_nonce p) = Ok () \<and>
      r' = \<lparr>rg_programs = (rg_programs r)(i \<mapsto> p), rg_deployments = insert (pr_owner p, pr_nonce p) (rg_deployments r)\<rparr>" for r i p r'
    by (auto simp: registry_insert_def result_simps)
  have "read_registry_entry sha3 s bs = Some (s', rest) \<longleftrightarrow> (\<exists>i b p r'. dec_array HASH_SIZE bs = Some (i, b) \<and> \<not> reached (fst s) i \<and>
      dec_record b = Some (p, rest) \<and> validate_record sha3 i p = Ok () \<and> registry_insert (snd s) i p = Ok r' \<and> s' = (Some i, r'))"
    by (cases s) (auto simp: read_registry_entry_def bind_eq_Some_conv guard_Some result_ok_Some)
  then show "read_registry_entry sha3 s bs = Some (s', rest) \<longleftrightarrow>
      (\<exists>e. registry_adv sha3 s e = Some s' \<and> bs = enc_pair enc_array enc_record e @ rest)"
    unfolding dec rec ins by (auto simp: registry_adv_def enc_pair_def split: if_splits)
qed

definition deployment_key :: "program_record \<Rightarrow> program_id \<times> u64" where
  "deployment_key p = (pr_owner p, pr_nonce p)"

definition entries_ok :: "(bytes \<Rightarrow> hash) \<Rightarrow> (program_id \<times> program_record) list \<Rightarrow> bool" where
  "entries_ok sha3 xs \<longleftrightarrow> list_all (\<lambda>(i, p). length i = HASH_SIZE \<and> ok_record p \<and> validate_record sha3 i p = Ok ()) xs \<and>
     ordered_keys xs \<and> distinct (map (deployment_key \<circ> snd) xs)"

definition registry_of :: "(program_id \<times> program_record) list \<Rightarrow> program_registry" where
  "registry_of xs = \<lparr>rg_programs = map_of xs, rg_deployments = deployment_key ` snd ` set xs\<rparr>"

lemma run_registry:
  assumes "entries_ok sha3 xs" and "previous = (if xs = [] then None else Some (fst (last xs)))"
  shows "run_entries (registry_adv sha3) (previous, registry_of xs) es = Some s' \<longleftrightarrow>
     entries_ok sha3 (xs @ es) \<and> s' = (if xs @ es = [] then None else Some (fst (last (xs @ es))), registry_of (xs @ es))"
  using assms
proof (induction es arbitrary: xs previous)
  case (Cons e es)
  obtain i p where e: "e = (i, p)" by (cases e)
  have ord: "\<not> reached previous i \<longleftrightarrow> ordered_keys (xs @ [(i, p)])"
    using Cons.prems ordered_snoc [of xs i p] by (auto simp: entries_ok_def)
  have fresh: "map_of xs i = None" if "ordered_keys (xs @ [(i, p)])"
    using map_of_ordered_gt [OF that, of i] by simp
  have avail: "check_available (registry_of xs) i (pr_owner p) (pr_nonce p) = Ok () \<longleftrightarrow>
      distinct (map (deployment_key \<circ> snd) (xs @ [(i, p)]))" if "ordered_keys (xs @ [(i, p)])"
    using Cons.prems fresh [OF that]
    by (auto simp: check_available_def registry_contains_def registry_of_def entries_ok_def deployment_key_def)
  have next_state: "\<lparr>rg_programs = (rg_programs (registry_of xs))(i \<mapsto> p),
      rg_deployments = insert (pr_owner p, pr_nonce p) (rg_deployments (registry_of xs))\<rparr> = registry_of (xs @ [(i, p)])"
    if "ordered_keys (xs @ [(i, p)])"
    using map_of_snoc [OF that] by (simp add: registry_of_def deployment_key_def)
  have "registry_adv sha3 (previous, registry_of xs) e = (if entries_ok sha3 (xs @ [e]) then Some (Some i, registry_of (xs @ [e])) else None)"
    using ord avail next_state Cons.prems(1)
    by (cases "ordered_keys (xs @ [(i, p)])") (simp_all add: e registry_adv_def entries_ok_def)
  moreover have "entries_ok sha3 (xs @ e # es) \<Longrightarrow> entries_ok sha3 (xs @ [e])"
    by (auto simp: entries_ok_def sorted_wrt_append)
  ultimately show ?case using Cons.IH [of "xs @ [e]" "Some i"] by (auto simp: e)
qed auto

definition registry_ok :: "(bytes \<Rightarrow> hash) \<Rightarrow> program_registry \<Rightarrow> bool" where
  "registry_ok sha3 r \<longleftrightarrow> finite (dom (rg_programs r)) \<and> registry_len r \<le> U32_MAX \<and>
     (\<forall>i p. rg_programs r i = Some p \<longrightarrow> length i = HASH_SIZE \<and> ok_record p \<and> validate_record sha3 i p = Ok ()) \<and>
     (\<forall>i j p q. rg_programs r i = Some p \<longrightarrow> rg_programs r j = Some q \<longrightarrow> deployment_key p = deployment_key q \<longrightarrow> i = j) \<and>
     rg_deployments r = deployment_key ` ran (rg_programs r)"

lemma distinct_keys_iff:
  assumes "ordered_keys xs"
  shows "distinct (map (deployment_key \<circ> snd) xs) \<longleftrightarrow>
     (\<forall>i j p q. (i, p) \<in> set xs \<longrightarrow> (j, q) \<in> set xs \<longrightarrow> deployment_key p = deployment_key q \<longrightarrow> i = j)"
proof -
  have d: "distinct (map fst xs)" using assms by (simp add: strict_sorted_iff)
  then have "distinct (map (deployment_key \<circ> snd) xs) \<longleftrightarrow> inj_on (deployment_key \<circ> snd) (set xs)"
    by (simp add: distinct_map)
  also have "\<dots> \<longleftrightarrow> (\<forall>i j p q. (i, p) \<in> set xs \<longrightarrow> (j, q) \<in> set xs \<longrightarrow> deployment_key p = deployment_key q \<longrightarrow> i = j)"
    using d by (fastforce simp: inj_on_def distinct_map)
  finally show ?thesis .
qed

lemma registry_ok_entries:
  assumes fin: "finite (dom (rg_programs r))"
  shows "registry_ok sha3 r \<longleftrightarrow> length (map_entries (rg_programs r)) \<le> U32_MAX \<and> entries_ok sha3 (map_entries (rg_programs r)) \<and>
     r = registry_of (map_entries (rg_programs r))"
proof -
  note ord = fm.entries_ordered [OF fin]
  have ran: "snd ` set (map_entries (rg_programs r)) = ran (rg_programs r)"
    using fm.set_entries [OF fin] by (force simp: ran_def)
  have "r = registry_of (map_entries (rg_programs r)) \<longleftrightarrow> rg_deployments r = deployment_key ` ran (rg_programs r)"
    unfolding registry_of_def ran map_of_map_entries [OF fin] by (cases r) simp
  moreover have "entries_ok sha3 (map_entries (rg_programs r)) \<longleftrightarrow>
      (\<forall>i p. rg_programs r i = Some p \<longrightarrow> length i = HASH_SIZE \<and> ok_record p \<and> validate_record sha3 i p = Ok ()) \<and>
      (\<forall>i j p q. rg_programs r i = Some p \<longrightarrow> rg_programs r j = Some q \<longrightarrow> deployment_key p = deployment_key q \<longrightarrow> i = j)"
    unfolding entries_ok_def distinct_keys_iff [OF ord] using ord
    by (auto simp: list_all_iff fm.set_entries [OF fin])
  ultimately show ?thesis using fin by (auto simp: registry_ok_def registry_len_def fm.length_entries)
qed

lemma dec_registry_iff:
  "dec_registry sha3 bs = Some (r, rest) \<longleftrightarrow> (\<exists>es. length es \<le> U32_MAX \<and> entries_ok sha3 es \<and> r = registry_of es \<and>
     bs = enc_vec (enc_pair enc_array enc_record) es @ rest)"
proof -
  have le: "\<not> unat (n :: u32) > U32_MAX" for n using unat_bound [of n] by (simp add: U32_MAX_def)
  have empty: "registry_default = registry_of []" by (simp add: registry_default_def registry_of_def)
  have "dec_registry sha3 bs = Some (r, rest) \<longleftrightarrow> (\<exists>k. Option.bind (dec_u32 bs) (\<lambda>(n, bs). if unat n > U32_MAX then None
      else dec_fold (read_registry_entry sha3) (unat n) (None, registry_default) bs) = Some ((k, r), rest))"
    by (auto simp: dec_registry_def bind_eq_Some_conv le)
  then show ?thesis
    unfolding counted_fold_iff [OF registry_reader.fold_reader_axioms order_refl] empty
    using run_registry [of sha3 "[]" None] by (auto simp: entries_ok_def)
qed

interpretation registryc: codec enc_registry "dec_registry sha3" "registry_ok sha3" for sha3
proof
  fix r rest
  assume ok: "registry_ok sha3 r"
  then have fin: "finite (dom (rg_programs r))" by (simp add: registry_ok_def)
  show "dec_registry sha3 (enc_registry r @ rest) = Some (r, rest)"
    unfolding dec_registry_iff using ok [unfolded registry_ok_entries [OF fin]]
    by (intro exI [of _ "map_entries (rg_programs r)"]) (simp add: enc_registry_def)
next
  fix bs r rest
  assume "dec_registry sha3 bs = Some (r, rest)"
  then obtain es where es: "length es \<le> U32_MAX" "entries_ok sha3 es" "r = registry_of es"
      "bs = enc_vec (enc_pair enc_array enc_record) es @ rest"
    unfolding dec_registry_iff by blast
  then have m: "map_entries (rg_programs r) = es" "finite (dom (rg_programs r))"
    by (simp_all add: registry_of_def map_entries_map_of entries_ok_def finite_dom_map_of)
  show "registry_ok sha3 r \<and> bs = enc_registry r @ rest"
    unfolding registry_ok_entries [OF m(2)] m(1) enc_registry_def using es by simp
qed

subsection \<open>The audit\<close>

lemma audit_fold:
  "try_fold (\<lambda>deployments (i, p). rbind (validate_record sha3 i p) (\<lambda>_.
       if pr_deployed_at p > tip \<or> (pr_owner p, pr_nonce p) \<in> deployments then Err InvalidRecord
       else Ok (insert (pr_owner p, pr_nonce p) deployments))) D xs = Ok D' \<longleftrightarrow>
     list_all (\<lambda>(i, p). validate_record sha3 i p = Ok () \<and> pr_deployed_at p \<le> tip) xs \<and>
     distinct (map (deployment_key \<circ> snd) xs) \<and> deployment_key ` snd ` set xs \<inter> D = {} \<and>
     D' = D \<union> deployment_key ` snd ` set xs"
proof (induction xs arbitrary: D)
  case (Cons x xs)
  obtain i p where "x = (i, p)" by (cases x)
  then show ?case using Cons [of "insert (pr_owner p, pr_nonce p) D"]
    by (auto simp: result_simps deployment_key_def not_less split: if_splits)
qed auto

definition registry_typed :: "program_registry \<Rightarrow> bool" where
  "registry_typed r \<longleftrightarrow> finite (dom (rg_programs r)) \<and> registry_len r \<le> U32_MAX \<and>
     (\<forall>i p. rg_programs r i = Some p \<longrightarrow> length i = HASH_SIZE \<and> length (pr_code_hash p) = HASH_SIZE \<and>
        length (pr_owner p) = HASH_SIZE \<and> finite (dom (pr_storage p)))"

lemma validate_record_ok_record:
  assumes "validate_record sha3 i p = Ok ()" and "length (pr_code_hash p) = HASH_SIZE" "length (pr_owner p) = HASH_SIZE"
    and fin: "finite (dom (pr_storage p))"
  shows "ok_record p"
proof -
  have "pr_storage p = Map.empty" if "map_entries (pr_storage p) = []"
    using map_of_map_entries [OF fin] that by simp
  then show ?thesis using assms
    by (auto simp: validate_record_def ok_record_def ok_storage_def deploy_validate_def result_simps split: if_splits)
qed

lemma registry_audit_iff:
  assumes "registry_typed r"
  shows "registry_validate sha3 r tip = Ok () \<longleftrightarrow> registry_ok sha3 r \<and> (\<forall>p \<in> ran (rg_programs r). pr_deployed_at p \<le> tip)"
proof -
  have fin: "finite (dom (rg_programs r))" using assms by (simp add: registry_typed_def)
  have ran: "snd ` set (map_entries (rg_programs r)) = ran (rg_programs r)"
    using fm.set_entries [OF fin] by (force simp: ran_def)
  have all: "list_all (\<lambda>(i, p). validate_record sha3 i p = Ok () \<and> pr_deployed_at p \<le> tip) (map_entries (rg_programs r)) \<longleftrightarrow>
      (\<forall>i p. rg_programs r i = Some p \<longrightarrow> validate_record sha3 i p = Ok ()) \<and> (\<forall>p \<in> ran (rg_programs r). pr_deployed_at p \<le> tip)"
    unfolding list_all_iff using fm.set_entries [OF fin] by (force simp: ran_def)
  have "registry_validate sha3 r tip = Ok () \<longleftrightarrow>
      list_all (\<lambda>(i, p). validate_record sha3 i p = Ok () \<and> pr_deployed_at p \<le> tip) (map_entries (rg_programs r)) \<and>
      distinct (map (deployment_key \<circ> snd) (map_entries (rg_programs r))) \<and> rg_deployments r = deployment_key ` ran (rg_programs r)"
    unfolding registry_validate_def rbind_Inr audit_fold by (auto simp: ran split: if_splits)
  then show ?thesis
    unfolding all distinct_keys_iff [OF fm.entries_ordered [OF fin]] fm.set_entries [OF fin] registry_ok_def
    using assms validate_record_ok_record unfolding registry_typed_def by blast
qed

subsection \<open>Operations keep the registry well formed\<close>

lemma validate_record_Ok:
  "validate_record sha3 i p = Ok () \<longleftrightarrow>
     deploy_validate \<lparr>dp_owner = pr_owner p, dp_nonce = pr_nonce p, dp_code = pr_code p\<rparr> = Ok () \<and> valid_storage (pr_storage p) \<and>
     (application_code (pr_code p) \<or> map_entries (pr_storage p) = []) \<and> program_hash_derive sha3 (pr_code p) = Ok (pr_code_hash p) \<and>
     program_id_derive sha3 (pr_owner p) (pr_nonce p) (pr_code_hash p) = i"
  by (auto simp: validate_record_def result_simps split: if_splits)

lemma registry_okI:
  assumes "finite (dom (rg_programs r))" and "registry_len r \<le> U32_MAX"
    and "\<And>i p. rg_programs r i = Some p \<Longrightarrow> length i = HASH_SIZE \<and> ok_record p \<and> validate_record sha3 i p = Ok ()"
    and "\<And>i j p q. rg_programs r i = Some p \<Longrightarrow> rg_programs r j = Some q \<Longrightarrow> deployment_key p = deployment_key q \<Longrightarrow> i = j"
    and "rg_deployments r = deployment_key ` ran (rg_programs r)"
  shows "registry_ok sha3 r"
  unfolding registry_ok_def using assms by (intro conjI allI impI) (assumption | blast)+

lemma registry_ok_record:
  "registry_ok sha3 r \<Longrightarrow> rg_programs r i = Some p \<Longrightarrow> length i = HASH_SIZE \<and> ok_record p \<and> validate_record sha3 i p = Ok ()"
  unfolding registry_ok_def by (elim conjE allE [of _ i]) blast

lemma registry_ok_inj:
  "registry_ok sha3 r \<Longrightarrow> rg_programs r i = Some p \<Longrightarrow> rg_programs r j = Some q \<Longrightarrow> deployment_key p = deployment_key q \<Longrightarrow> i = j"
  unfolding registry_ok_def by (elim conjE) blast

lemma registry_insert_Ok:
  "registry_insert r i p = Ok r' \<longleftrightarrow> rg_programs r i = None \<and> deployment_key p \<notin> rg_deployments r \<and>
     r' = \<lparr>rg_programs = (rg_programs r)(i \<mapsto> p), rg_deployments = insert (deployment_key p) (rg_deployments r)\<rparr>"
  by (auto simp: registry_insert_def check_available_def registry_contains_def deployment_key_def result_simps split: if_splits)

lemma prepare_deployment_Ok:
  assumes "prepare_deployment sha3 d height = Ok (i, p)"
  shows "validate_record sha3 i p = Ok () \<and> pr_deployed_at p = height \<and> pr_owner p = dp_owner d \<and> pr_nonce p = dp_nonce d \<and>
     pr_code p = dp_code d \<and> pr_state_value p = 0 \<and> pr_storage p = Map.empty"
proof -
  have "valid_storage Map.empty" by (simp add: valid_storage_def map_entries_def MAX_STORAGE_BYTES_def)
  moreover have "map_entries Map.empty = []" by (simp add: map_entries_def)
  ultimately show ?thesis using assms
    by (cases d) (auto simp: prepare_deployment_def validate_record_Ok result_simps)
qed

lemma registry_insert_keeps:
  assumes ok: "registry_ok sha3 r" and ins: "registry_insert r i p = Ok r'"
    and p: "length i = HASH_SIZE" "ok_record p" "validate_record sha3 i p = Ok ()" and room: "registry_len r < U32_MAX"
  shows "registry_ok sha3 r'"
proof -
  have r': "rg_programs r' = (rg_programs r)(i \<mapsto> p)" "rg_deployments r' = insert (deployment_key p) (rg_deployments r)"
    and new: "rg_programs r i = None" "deployment_key p \<notin> rg_deployments r"
    using ins by (auto simp: registry_insert_Ok)
  have d: "rg_deployments r = deployment_key ` ran (rg_programs r)" using ok by (simp add: registry_ok_def)
  have fresh: "deployment_key q \<noteq> deployment_key p" if "rg_programs r j = Some q" for j q
    using new(2) ranI [of "rg_programs r" j q, OF that] unfolding d by (metis imageI)
  have one: "j = k" if "rg_programs r' j = Some q" "rg_programs r' k = Some q'" "deployment_key q = deployment_key q'" for j k q q'
    using that fresh registry_ok_inj [OF ok] unfolding r' by (metis fun_upd_apply option.inject)
  have "rg_deployments r' = deployment_key ` ran (rg_programs r')" using new(1) by (simp add: r' d ran_map_upd)
  moreover have "registry_len r' \<le> U32_MAX"
    using room ok new(1) by (simp add: registry_len_def r' registry_ok_def domIff)
  moreover have "length j = HASH_SIZE \<and> ok_record q \<and> validate_record sha3 j q = Ok ()" if "rg_programs r' j = Some q" for j q
    using that registry_ok_record [OF ok, of j q] p unfolding r' by (cases "j = i") auto
  moreover have "finite (dom (rg_programs r'))" using ok by (simp add: r' registry_ok_def)
  ultimately show ?thesis using one by (intro registry_okI) auto
qed

lemma registry_remove_keeps:
  assumes ok: "registry_ok sha3 r" and rem: "registry_remove r i = Some (p, r')"
  shows "registry_ok sha3 r'"
proof -
  have p: "rg_programs r i = Some p" and r': "rg_programs r' = (rg_programs r)(i := None)"
      "rg_deployments r' = rg_deployments r - {deployment_key p}"
    using rem by (auto simp: registry_remove_def deployment_key_def split: option.splits)
  have d: "rg_deployments r = deployment_key ` ran (rg_programs r)" using ok by (simp add: registry_ok_def)
  have old: "rg_programs r j = Some q \<and> j \<noteq> i" if "rg_programs r' j = Some q" for j q
    using that by (auto simp: r' split: if_splits)
  have others: "j = i" if "rg_programs r j = Some q" "deployment_key q = deployment_key p" for j q
    using registry_ok_inj [OF ok that(1) p that(2)] .
  have "k \<in> deployment_key ` ran (rg_programs r') \<longleftrightarrow> k \<in> deployment_key ` ran (rg_programs r) - {deployment_key p}" for k
  proof
    assume "k \<in> deployment_key ` ran (rg_programs r')"
    then obtain j q where q: "rg_programs r' j = Some q" "k = deployment_key q" by (auto simp: ran_def)
    then show "k \<in> deployment_key ` ran (rg_programs r) - {deployment_key p}"
      using old [OF q(1)] others [of j q] by (metis Diff_iff imageI ranI singletonD)
  next
    assume "k \<in> deployment_key ` ran (rg_programs r) - {deployment_key p}"
    then obtain j q where q: "rg_programs r j = Some q" "k = deployment_key q" "k \<noteq> deployment_key p" by (auto simp: ran_def)
    then have "rg_programs r' j = Some q" using p by (auto simp: r')
    then show "k \<in> deployment_key ` ran (rg_programs r')" using q(2) by (metis imageI ranI)
  qed
  then have "rg_deployments r' = deployment_key ` ran (rg_programs r')"
    unfolding r'(2) d by (intro set_eqI) simp
  moreover have "registry_len r' \<le> registry_len r"
    using ok by (simp add: registry_len_def r' registry_ok_def card_mono)
  moreover have "finite (dom (rg_programs r'))" using ok by (simp add: r' registry_ok_def)
  moreover have "registry_len r \<le> U32_MAX" using ok by (simp add: registry_ok_def)
  moreover have "length j = HASH_SIZE \<and> ok_record q \<and> validate_record sha3 j q = Ok ()" if "rg_programs r' j = Some q" for j q
    using old [OF that] registry_ok_record [OF ok] by blast
  moreover have "j = k" if "rg_programs r' j = Some q" "rg_programs r' k = Some q'" "deployment_key q = deployment_key q'" for j k q q'
    using old [OF that(1)] old [OF that(2)] registry_ok_inj [OF ok _ _ that(3)] by blast
  ultimately show ?thesis by (intro registry_okI) auto
qed

text \<open>A write of the scalar slot, and a write of storage that leaves it within its limits.\<close>

lemma record_update_keeps:
  assumes ok: "registry_ok sha3 r" and p: "rg_programs r i = Some p"
    and q: "deployment_key q = deployment_key p" "ok_record q" "validate_record sha3 i q = Ok ()"
  shows "registry_ok sha3 (r\<lparr>rg_programs := (rg_programs r)(i \<mapsto> q)\<rparr>)"
proof -
  let ?m = "(rg_programs r)(i \<mapsto> q)"
  have fin: "finite (dom ?m)" using ok by (simp add: registry_ok_def)
  have dom: "dom ?m = dom (rg_programs r)" using p by auto
  have keys: "\<exists>x. rg_programs r j = Some x \<and> deployment_key x = deployment_key y" if "?m j = Some y" for j y
    using that p q(1) by (auto split: if_splits)
  have "(\<lambda>j. map_option deployment_key (?m j)) = (\<lambda>j. map_option deployment_key (rg_programs r j))"
    using p q(1) by (auto simp: fun_eq_iff)
  then have ran: "deployment_key ` ran ?m = deployment_key ` ran (rg_programs r)" by (metis ran_map_option)
  show ?thesis
  proof (rule registry_okI)
    show "finite (dom (rg_programs (r\<lparr>rg_programs := ?m\<rparr>)))" using fin by simp
    show "registry_len (r\<lparr>rg_programs := ?m\<rparr>) \<le> U32_MAX" using ok dom by (simp add: registry_ok_def registry_len_def)
    show "rg_deployments (r\<lparr>rg_programs := ?m\<rparr>) = deployment_key ` ran (rg_programs (r\<lparr>rg_programs := ?m\<rparr>))"
      using ok ran by (simp add: registry_ok_def)
    fix j x
    assume j: "rg_programs (r\<lparr>rg_programs := ?m\<rparr>) j = Some x"
    show "length j = HASH_SIZE \<and> ok_record x \<and> validate_record sha3 j x = Ok ()"
      using j p q(2,3) registry_ok_record [OF ok, of j x] registry_ok_record [OF ok p] by (cases "j = i") auto
    fix k y
    assume k: "rg_programs (r\<lparr>rg_programs := ?m\<rparr>) k = Some y" "deployment_key x = deployment_key y"
    have "?m j = Some x" "?m k = Some y" using j k by simp_all
    then show "j = k" using keys [of j x] keys [of k y] k(2) registry_ok_inj [OF ok] by metis
  qed
qed

lemma set_state_keeps:
  assumes ok: "registry_ok sha3 r" and s: "set_state r i v = Some (before, r')"
  shows "registry_ok sha3 r'"
proof -
  from s obtain p where p: "rg_programs r i = Some p"
    and r': "r' = (if pr_state_value p \<noteq> v then r\<lparr>rg_programs := (rg_programs r)(i \<mapsto> p\<lparr>pr_state_value := v\<rparr>)\<rparr> else r)"
    by (auto simp: set_state_def split: option.splits)
  have "ok_record p" "validate_record sha3 i p = Ok ()" using registry_ok_record [OF ok p] by blast+
  then have "ok_record (p\<lparr>pr_state_value := v\<rparr>)" "validate_record sha3 i (p\<lparr>pr_state_value := v\<rparr>) = Ok ()"
    by (simp_all add: ok_record_def validate_record_Ok)
  then show ?thesis using record_update_keeps [OF ok p] ok by (simp add: r' deployment_key_def)
qed

lemma set_storage_keeps:
  assumes ok: "registry_ok sha3 r" and s: "set_storage r i key v = Ok r'"
    and p: "rg_programs r i = Some p" "application_code (pr_code p)" and valid: "valid_storage ((pr_storage p)(key := v))"
  shows "registry_ok sha3 r'"
proof -
  let ?q = "p\<lparr>pr_storage := (pr_storage p)(key := v)\<rparr>"
  have r': "r' = (if pr_storage p key = v then r else r\<lparr>rg_programs := (rg_programs r)(i \<mapsto> ?q)\<rparr>)"
    using s p(1) by (auto simp: set_storage_def result_simps split: if_splits)
  have "ok_record p" "validate_record sha3 i p = Ok ()" using registry_ok_record [OF ok p(1)] by blast+
  then have "ok_record ?q" "validate_record sha3 i ?q = Ok ()"
    using p(2) valid by (simp_all add: ok_record_def validate_record_Ok ok_storage_def)
  then have "registry_ok sha3 (r\<lparr>rg_programs := (rg_programs r)(i \<mapsto> ?q)\<rparr>)"
    by (intro record_update_keeps [OF ok p(1)]) (simp add: deployment_key_def)
  then show ?thesis using ok unfolding r' by (cases "pr_storage p key = v") (simp_all only: if_True if_False simp_thms)
qed

subsection \<open>Journals\<close>

definition journal_entry_ok :: "program_id \<times> bytes \<times> bytes option \<Rightarrow> bool" where
  "journal_entry_ok e \<longleftrightarrow> (case e of (i, key, v) \<Rightarrow> length i = HASH_SIZE \<and> key \<noteq> [] \<and> length key \<le> MAX_KEY_BYTES \<and>
     pred_option (\<lambda>v. v \<noteq> [] \<and> length v \<le> MAX_DATA_BYTES) v)"

definition journal_key :: "program_id \<times> bytes \<times> bytes option \<Rightarrow> program_id \<times> bytes" where
  "journal_key e = (fst e, fst (snd e))"

definition journal_adv ::
  "(program_id \<times> bytes \<times> bytes option) list \<Rightarrow> program_id \<times> bytes \<times> bytes option \<Rightarrow> (program_id \<times> bytes \<times> bytes option) list option" where
  "journal_adv xs e = (if journal_entry_ok e \<and> (xs \<noteq> [] \<longrightarrow> journal_key (last xs) < journal_key e) then Some (xs @ [e]) else None)"

lemma read_previous_iff:
  "read_previous b = Some (v, rest) \<longleftrightarrow> pred_option (\<lambda>v. v \<noteq> [] \<and> length v \<le> MAX_DATA_BYTES) v \<and> b = enc_option enc_bytes v @ rest"
  unfolding read_previous_def
  by (cases b; cases v) (auto simp: bind_eq_Some_conv read_sized_iff [OF sized_limits(2)] split: if_splits)

interpretation journal_reader: fold_reader read_journal_entry
  "enc_pair enc_array (enc_pair enc_bytes (enc_option enc_bytes))" journal_adv
proof
  fix s bs s' rest
  have dec: "dec_array HASH_SIZE bs = Some (i, b) \<longleftrightarrow> length i = HASH_SIZE \<and> bs = enc_array i @ b" for bs i b
    using arrayc.enc_dec arrayc.dec_enc by metis
  have "read_journal_entry s bs = Some (s', rest) \<longleftrightarrow> (\<exists>i b key b' v. dec_array HASH_SIZE bs = Some (i, b) \<and>
      read_sized MAX_KEY_BYTES b = Some (key, b') \<and> \<not> (s \<noteq> [] \<and> journal_key (last s) \<ge> (i, key)) \<and>
      read_previous b' = Some (v, rest) \<and> s' = s @ [(i, key, v)])"
    unfolding read_journal_entry_def journal_key_def by (simp only: bind_eq_Some_conv guard_Some split_paired_Ex prod.case Pair_inject option.inject) blast
  then show "read_journal_entry s bs = Some (s', rest) \<longleftrightarrow>
      (\<exists>e. journal_adv s e = Some s' \<and> bs = enc_pair enc_array (enc_pair enc_bytes (enc_option enc_bytes)) e @ rest)"
    unfolding dec read_previous_iff read_sized_iff [OF sized_limits(1)] not_le de_Morgan_conj
    by (auto simp: journal_adv_def journal_entry_ok_def enc_pair_def journal_key_def [of "(_, _, _)"] split: if_splits)
qed

lemma sorted_snoc: "sorted_wrt (<) (xs @ [k :: 'k::linorder]) \<longleftrightarrow> sorted_wrt (<) xs \<and> (xs \<noteq> [] \<longrightarrow> last xs < k)"
  using ordered_snoc [of "map (\<lambda>x. (x, ())) xs" k "()"] by (simp add: comp_def last_map)

lemma run_journal:
  assumes "sorted_wrt (<) (map journal_key xs)"
  shows "run_entries journal_adv xs es = Some s' \<longleftrightarrow>
     sorted_wrt (<) (map journal_key (xs @ es)) \<and> list_all journal_entry_ok es \<and> s' = xs @ es"
  using assms
proof (induction es arbitrary: xs)
  case (Cons e es)
  have "sorted_wrt (<) (map journal_key (xs @ [e])) \<longleftrightarrow> (xs \<noteq> [] \<longrightarrow> journal_key (last xs) < journal_key e)"
    using Cons.prems sorted_snoc [of "map journal_key xs" "journal_key e"] by (simp add: last_map)
  moreover have "sorted_wrt (<) (map journal_key (xs @ e # es)) \<Longrightarrow> sorted_wrt (<) (map journal_key (xs @ [e]))"
    by (auto simp: sorted_wrt_append)
  ultimately show ?case using Cons.IH [of "xs @ [e]"] by (auto simp: journal_adv_def)
qed auto

fun ok_program_journal :: "program_journal \<Rightarrow> bool" where
  "ok_program_journal (JDeploy i) = (length i = HASH_SIZE)"
| "ok_program_journal (JState i _) = (length i = HASH_SIZE)"
| "ok_program_journal (JCalls states storage) \<longleftrightarrow> length states \<le> MAX_CALLS \<and> list_all (\<lambda>p. length (fst p) = HASH_SIZE) states \<and>
     ordered_keys states \<and> length storage \<le> MAX_ACTIONS \<and> list_all journal_entry_ok storage \<and> sorted_wrt (<) (map journal_key storage)"

lemma windows_ordered: "\<not> list_ex (\<lambda>(a, b). fst a \<ge> fst b) (zip xs (tl xs)) \<longleftrightarrow> ordered_keys xs"
proof (induction xs)
  case (Cons x xs)
  then show ?case by (cases xs) (auto simp: not_le intro: less_trans)
qed simp

interpretation program_journalc: codec enc_program_journal dec_program_journal ok_program_journal
proof -
  have states: "codec (enc_vec (enc_pair enc_array u64_le)) (dec_vec MAX_CALLS (dec_pair (dec_array HASH_SIZE) dec_u64))
      (ok_vec MAX_CALLS (\<lambda>p. length (fst p) = HASH_SIZE \<and> True))"
    by (rule codec_vec [OF codec_pair [OF arrayc.codec_axioms u64c.codec_axioms] sized_limits(5)])
  have st: "dec_vec MAX_CALLS (dec_pair (dec_array HASH_SIZE) dec_u64) bs = Some (xs, b) \<longleftrightarrow>
      length xs \<le> MAX_CALLS \<and> list_all (\<lambda>p. length (fst p) = HASH_SIZE) xs \<and> bs = enc_vec (enc_pair enc_array u64_le) xs @ b"
    for bs xs and b :: bytes
    using codec.enc_dec [OF states] codec.dec_enc [OF states] by (auto simp: ok_vec_def)
  have sg: "read_journal_storage bs = Some (xs, b)
      \<longleftrightarrow> length xs \<le> MAX_ACTIONS \<and> list_all journal_entry_ok xs \<and> sorted_wrt (<) (map journal_key xs) \<and>
      bs = enc_vec (enc_pair enc_array (enc_pair enc_bytes (enc_option enc_bytes))) xs @ b" for bs xs b
    unfolding read_journal_storage_def counted_fold_iff [OF journal_reader.fold_reader_axioms sized_limits(4)]
    using run_journal [of "[]"] by auto
  have calls: "Option.bind (dec_vec MAX_CALLS (dec_pair (dec_array HASH_SIZE) dec_u64) bs) (\<lambda>(states, bs).
         if list_ex (\<lambda>(a, b). fst a \<ge> fst b) (zip states (tl states)) then None
         else Option.bind (read_journal_storage bs) (\<lambda>(storage, bs). Some (JCalls states storage, bs))) = Some (j, b)
      \<longleftrightarrow> (\<exists>xs b' ys. dec_vec MAX_CALLS (dec_pair (dec_array HASH_SIZE) dec_u64) bs = Some (xs, b') \<and> ordered_keys xs \<and>
         read_journal_storage b' = Some (ys, b) \<and> j = JCalls xs ys)" for bs j b
    unfolding bind_eq_Some_conv windows_ordered [symmetric] by (auto simp: bind_eq_Some_conv guard_Some)
  have iff: "dec_program_journal bs = Some (j, rest) \<longleftrightarrow> ok_program_journal j \<and> bs = enc_program_journal j @ rest" for bs j rest
  proof (cases bs)
    case (Cons t b)
    show ?thesis unfolding Cons dec_program_journal_def
      by (cases j) (auto simp: calls [unfolded st sg] codec_enc split: if_splits,
          auto simp: bind_eq_Some_conv dest!: codec_dec)
  qed (cases j; simp add: dec_program_journal_def)
  show "codec enc_program_journal dec_program_journal ok_program_journal" by standard (simp_all add: iff)
qed

subsection \<open>Rolling back\<close>

lemma deploy_Ok:
  "deploy sha3 r d height = Ok (r', i, j) \<longleftrightarrow> (\<exists>p. prepare_deployment sha3 d height = Ok (i, p) \<and> registry_insert r i p = Ok r' \<and> j = JDeploy i)"
  by (auto simp: deploy_def result_simps)

lemma deploy_undone:
  assumes "deploy sha3 r d height = Ok (r', i, j)"
  shows "rollback_program r' j = (r, Ok ())"
proof -
  obtain p where "registry_insert r i p = Ok r'" and j: "j = JDeploy i" using assms by (auto simp: deploy_Ok)
  then have "rg_programs r i = None" "deployment_key p \<notin> rg_deployments r"
      "r' = \<lparr>rg_programs = (rg_programs r)(i \<mapsto> p), rg_deployments = insert (deployment_key p) (rg_deployments r)\<rparr>"
    by (auto simp: registry_insert_Ok)
  then show ?thesis
    by (cases r) (simp add: j registry_remove_def deployment_key_def fun_upd_idem insert_absorb)
qed

text \<open>
  A registry that differs from an earlier one only in the slots a journal lists, with the earlier
  contents in the journal, is taken back to the earlier one.
\<close>

definition journal_covers ::
  "program_registry \<Rightarrow> program_registry \<Rightarrow> (program_id \<times> i64) list \<Rightarrow> (program_id \<times> bytes \<times> bytes option) list \<Rightarrow> bool" where
  "journal_covers r r' states storage \<longleftrightarrow> rg_deployments r' = rg_deployments r \<and>
     (\<forall>i. rel_option (\<lambda>p q. pr_code_hash q = pr_code_hash p \<and> pr_code q = pr_code p \<and> pr_owner q = pr_owner p \<and>
        pr_nonce q = pr_nonce p \<and> pr_deployed_at q = pr_deployed_at p \<and>
        (pr_state_value q \<noteq> pr_state_value p \<longrightarrow> i \<in> fst ` set states) \<and>
        (\<forall>key. pr_storage q key \<noteq> pr_storage p key \<longrightarrow> (i, key) \<in> journal_key ` set storage))
       (rg_programs r i) (rg_programs r' i)) \<and>
     (\<forall>(i, v) \<in> set states. \<exists>p. rg_programs r i = Some p \<and> v = pr_state_value p) \<and>
     (\<forall>(i, key, v) \<in> set storage. \<exists>p. rg_programs r i = Some p \<and> v = pr_storage p key)"

lemma covers_state:
  assumes "journal_covers r r' ((i, v) # states) storage"
  shows "\<exists>before r2. set_state r' i v = Some (before, r2) \<and> journal_covers r r2 states storage"
proof -
  obtain p where p: "rg_programs r i = Some p" "v = pr_state_value p" using assms by (auto simp: journal_covers_def)
  have rel: "rel_option (\<lambda>p q. pr_code_hash q = pr_code_hash p \<and> pr_code q = pr_code p \<and> pr_owner q = pr_owner p \<and>
        pr_nonce q = pr_nonce p \<and> pr_deployed_at q = pr_deployed_at p \<and>
        (pr_state_value q \<noteq> pr_state_value p \<longrightarrow> k \<in> fst ` set ((i, v) # states)) \<and>
        (\<forall>key. pr_storage q key \<noteq> pr_storage p key \<longrightarrow> (k, key) \<in> journal_key ` set storage))
       (rg_programs r k) (rg_programs r' k)" for k
    using assms by (simp add: journal_covers_def)
  obtain q where q: "rg_programs r' i = Some q" using rel [of i] p by (auto simp: option_rel_Some1)
  define r2 where "r2 = (if pr_state_value q \<noteq> v then r'\<lparr>rg_programs := (rg_programs r')(i \<mapsto> q\<lparr>pr_state_value := v\<rparr>)\<rparr> else r')"
  have r2: "rg_programs r2 = (rg_programs r')(i \<mapsto> q\<lparr>pr_state_value := v\<rparr>)" "rg_deployments r2 = rg_deployments r'"
    using q by (auto simp: r2_def fun_eq_iff)
  have "set_state r' i v = Some (pr_state_value q, r2)" using q by (simp add: set_state_def r2_def)
  moreover have "journal_covers r r2 states storage"
    unfolding journal_covers_def
  proof (intro conjI allI)
    fix k
    show "rel_option (\<lambda>p q. pr_code_hash q = pr_code_hash p \<and> pr_code q = pr_code p \<and> pr_owner q = pr_owner p \<and>
        pr_nonce q = pr_nonce p \<and> pr_deployed_at q = pr_deployed_at p \<and>
        (pr_state_value q \<noteq> pr_state_value p \<longrightarrow> k \<in> fst ` set states) \<and>
        (\<forall>key. pr_storage q key \<noteq> pr_storage p key \<longrightarrow> (k, key) \<in> journal_key ` set storage))
       (rg_programs r k) (rg_programs r2 k)"
    proof (cases "k = i")
      case True
      then show ?thesis using rel [of i] p q by (simp add: r2)
    next
      case False
      then show ?thesis using rel [of k] by (simp add: r2)
    qed
  qed (use assms in \<open>simp_all add: journal_covers_def r2\<close>)
  ultimately show ?thesis by blast
qed

lemma covers_storage:
  assumes "journal_covers r r' [] ((i, key, v) # storage)"
  shows "\<exists>r2. set_storage r' i key v = Ok r2 \<and> journal_covers r r2 [] storage"
proof -
  obtain p where p: "rg_programs r i = Some p" "v = pr_storage p key" using assms by (auto simp: journal_covers_def)
  have rel: "rel_option (\<lambda>p q. pr_code_hash q = pr_code_hash p \<and> pr_code q = pr_code p \<and> pr_owner q = pr_owner p \<and>
        pr_nonce q = pr_nonce p \<and> pr_deployed_at q = pr_deployed_at p \<and> pr_state_value q = pr_state_value p \<and>
        (\<forall>k'. pr_storage q k' \<noteq> pr_storage p k' \<longrightarrow> (k, k') = (i, key) \<or> (k, k') \<in> journal_key ` set storage))
       (rg_programs r k) (rg_programs r' k)" for k
    using assms by (simp add: journal_covers_def journal_key_def [of "(i, key, v)"])
  obtain q where q: "rg_programs r' i = Some q" using rel [of i] p by (auto simp: option_rel_Some1)
  define r2 where "r2 = (if pr_storage q key = v then r' else r'\<lparr>rg_programs := (rg_programs r')(i \<mapsto> q\<lparr>pr_storage := (pr_storage q)(key := v)\<rparr>)\<rparr>)"
  have r2: "rg_programs r2 = (rg_programs r')(i \<mapsto> q\<lparr>pr_storage := (pr_storage q)(key := v)\<rparr>)" "rg_deployments r2 = rg_deployments r'"
    using q by (auto simp: r2_def fun_eq_iff)
  have "set_storage r' i key v = Ok r2" using q by (simp add: set_storage_def r2_def result_simps)
  moreover have "journal_covers r r2 [] storage"
    unfolding journal_covers_def
  proof (intro conjI allI)
    fix k
    show "rel_option (\<lambda>p q. pr_code_hash q = pr_code_hash p \<and> pr_code q = pr_code p \<and> pr_owner q = pr_owner p \<and>
        pr_nonce q = pr_nonce p \<and> pr_deployed_at q = pr_deployed_at p \<and>
        (pr_state_value q \<noteq> pr_state_value p \<longrightarrow> k \<in> fst ` set []) \<and>
        (\<forall>key. pr_storage q key \<noteq> pr_storage p key \<longrightarrow> (k, key) \<in> journal_key ` set storage))
       (rg_programs r k) (rg_programs r2 k)"
    proof (cases "k = i")
      case True
      then show ?thesis using rel [of i] p q by (auto simp: r2)
    next
      case False
      then show ?thesis using rel [of k] by (simp add: r2)
    qed
  qed (use assms in \<open>simp_all add: journal_covers_def r2\<close>)
  ultimately show ?thesis by blast
qed

lemma covers_nothing:
  assumes "journal_covers r r' [] []"
  shows "r' = r"
proof -
  have "rg_programs r' k = rg_programs r k" for k
    using assms unfolding journal_covers_def
    by (cases "rg_programs r k"; cases "rg_programs r' k") (auto simp: fun_eq_iff elim!: allE [of _ k])
  then show ?thesis using assms by (cases r; cases r') (auto simp: journal_covers_def fun_eq_iff)
qed

lemma rollback_covered:
  assumes "journal_covers r r' states storage"
  shows "rollback_program r' (JCalls states storage) = (r, Ok ())"
proof -
  have storage: "rollback_storage r1 xs = (r, Ok ())" if "journal_covers r r1 [] xs" for r1 xs
    using that
  proof (induction xs arbitrary: r1)
    case Nil
    then show ?case using covers_nothing by simp
  next
    case (Cons e xs)
    obtain i key v where e: "e = (i, key, v)" by (cases e)
    then show ?case using covers_storage [of r r1 i key v xs] Cons by auto
  qed
  have "\<exists>r1. rollback_states r2 xs = (r1, Ok ()) \<and> journal_covers r r1 [] storage" if "journal_covers r r2 xs storage" for r2 xs
    using that
  proof (induction xs arbitrary: r2)
    case (Cons e xs)
    obtain i v where e: "e = (i, v)" by (cases e)
    then show ?case using covers_state [of r r2 i v xs storage] Cons by auto
  qed simp
  from this [OF assms] storage show ?thesis by auto
qed

subsection \<open>Properties\<close>

lemma length_enc_entries:
  assumes "finite (dom m)" and "\<And>i. i \<in> dom m \<Longrightarrow> length i = HASH_SIZE"
  shows "length (enc_vec (enc_pair enc_array enc_record) (map_entries m)) =
     4 + (\<Sum>(i, p)\<leftarrow>map_entries m. HASH_SIZE + length (enc_record p))"
proof -
  have "list_all (\<lambda>(i, p). length i = HASH_SIZE) (map_entries m)"
    using assms fm.set_entries [OF assms(1)] by (auto simp: list_all_iff)
  moreover have "list_all (\<lambda>(i, p). length i = HASH_SIZE) xs \<Longrightarrow>
      length (enc_seq (enc_pair enc_array enc_record) xs) = (\<Sum>(i, p)\<leftarrow>xs. HASH_SIZE + length (enc_record p))" for xs
    by (induction xs) (auto simp: enc_seq_def enc_pair_def enc_array_def)
  ultimately have "length (enc_seq (enc_pair enc_array enc_record) (map_entries m)) = (\<Sum>(i, p)\<leftarrow>map_entries m. HASH_SIZE + length (enc_record p))"
    by blast
  then show ?thesis by (simp add: enc_vec_def)
qed

lemma deploy_growth:
  assumes ok: "registry_ok sha3 r" and i: "length i = HASH_SIZE" and ins: "registry_insert r i p = Ok r'"
  shows "length (enc_registry r') = length (enc_registry r) + length (enc_array i @ enc_record p)"
proof -
  have fin: "finite (dom (rg_programs r))" using ok by (simp add: registry_ok_def)
  have new: "rg_programs r i = None" and r': "rg_programs r' = (rg_programs r)(i \<mapsto> p)" using ins by (auto simp: registry_insert_Ok)
  have typed: "length k = HASH_SIZE" if "k \<in> dom (rg_programs r)" for k using that registry_ok_record [OF ok] by blast
  have "length (enc_registry r') = 4 + (\<Sum>(k, q)\<leftarrow>map_entries ((rg_programs r)(i \<mapsto> p)). HASH_SIZE + length (enc_record q))"
    unfolding enc_registry_def r' by (rule length_enc_entries) (use fin typed i in \<open>auto simp del: fun_upd_apply\<close>)
  also have "\<dots> = 4 + ((\<Sum>(k, q)\<leftarrow>map_entries (rg_programs r). HASH_SIZE + length (enc_record q)) + (HASH_SIZE + length (enc_record p)))"
    using fm.sum_put_fresh [OF fin new, of "\<lambda>q. HASH_SIZE + length (enc_record q)" p] by simp
  also have "\<dots> = length (enc_registry r) + length (enc_array i @ enc_record p)"
    unfolding enc_registry_def using length_enc_entries [OF fin typed] i by (simp add: enc_array_def)
  finally show ?thesis .
qed

lemma registry_ok_typed:
  assumes ok: "registry_ok sha3 r"
  shows "registry_typed r"
proof -
  have "length i = HASH_SIZE \<and> length (pr_code_hash p) = HASH_SIZE \<and> length (pr_owner p) = HASH_SIZE \<and> finite (dom (pr_storage p))"
    if "rg_programs r i = Some p" for i p
    using registry_ok_record [OF ok that] by (auto simp: ok_record_def ok_storage_def split: if_splits)
  moreover have "finite (dom (rg_programs r))" "registry_len r \<le> U32_MAX" using ok by (simp_all add: registry_ok_def)
  ultimately show ?thesis unfolding registry_typed_def by blast
qed

text \<open>C24. The reader of a program registry is exact: it returns a registry, with its derived lookup by
  deployer and nonce rebuilt, precisely when the input starts with the encoding of that registry
  and the registry passes the audit of restored state (for some tip, that is with deployment heights
  left aside). So a registry has one encoding, whatever order its programs were deployed in, and no
  input that the audit would refuse is ever accepted.\<close>

theorem registry_reader_exact:
  "dec_registry sha3 bs = Some (r, rest) \<longleftrightarrow>
     registry_typed r \<and> (\<exists>tip. registry_validate sha3 r tip = Ok ()) \<and> bs = enc_registry r @ rest"
proof -
  have "registry_ok sha3 r \<longleftrightarrow> registry_typed r \<and> (\<exists>tip. registry_validate sha3 r tip = Ok ())"
  proof
    assume ok: "registry_ok sha3 r"
    then have "registry_validate sha3 r (- 1) = Ok ()"
      unfolding registry_audit_iff [OF registry_ok_typed [OF ok]] by simp
    then show "registry_typed r \<and> (\<exists>tip. registry_validate sha3 r tip = Ok ())" using registry_ok_typed [OF ok] by blast
  qed (metis registry_audit_iff)
  then show ?thesis using registryc.enc_dec [of sha3 bs r rest] registryc.dec_enc [of sha3 r rest] by blast
qed

text \<open>C23. Deploying a program into an audited registry: the record appears under the identity derived from
  deployer, nonce and code hash, with an empty state and storage; the registry still passes the
  audit at the deployment height or any later one it passed before; the canonical encoding grows by exactly the
  encoding of the new entry, which is what the deployment is charged for; a second deployment with
  the same deployer and nonce is refused; and rolling the journal back gives the registry back.\<close>

theorem deployment_exact:
  assumes "\<And>bs. length (sha3 bs) = HASH_SIZE" and "length (dp_owner d) = HASH_SIZE"
    and "registry_typed r" and "registry_validate sha3 r tip = Ok ()" and "registry_len r < U32_MAX" and "tip \<le> height"
    and "deploy sha3 r d height = Ok (r', i, j)"
  shows "(\<exists>h. program_hash_derive sha3 (dp_code d) = Ok h \<and> i = program_id_derive sha3 (dp_owner d) (dp_nonce d) h \<and>
       program r i = None \<and> program r' i = Some \<lparr>pr_code_hash = h, pr_code = dp_code d, pr_owner = dp_owner d, pr_nonce = dp_nonce d,
          pr_deployed_at = height, pr_state_value = 0, pr_storage = Map.empty\<rparr>) \<and>
     (\<forall>k. k \<noteq> i \<longrightarrow> program r' k = program r k) \<and>
     registry_typed r' \<and> registry_validate sha3 r' height = Ok () \<and>
     length (enc_registry r') = length (enc_registry r) + length (enc_array i @ enc_record (the (program r' i))) \<and>
     deploy sha3 r' (d\<lparr>dp_code := code\<rparr>) height' \<notin> range Ok \<and>
     rollback_program r' j = (r, Ok ())"
proof -
  obtain p where p: "prepare_deployment sha3 d height = Ok (i, p)" and ins: "registry_insert r i p = Ok r'"
    using assms(7) by (auto simp: deploy_Ok)
  have ok: "registry_ok sha3 r" and heights: "\<forall>p \<in> ran (rg_programs r). pr_deployed_at p \<le> tip"
    using assms(4) unfolding registry_audit_iff [OF assms(3)] by simp_all
  note prep = prepare_deployment_Ok [OF p]
  obtain h where h: "program_hash_derive sha3 (dp_code d) = Ok h" "i = program_id_derive sha3 (dp_owner d) (dp_nonce d) h"
      "p = \<lparr>pr_code_hash = h, pr_code = dp_code d, pr_owner = dp_owner d, pr_nonce = dp_nonce d,
          pr_deployed_at = height, pr_state_value = 0, pr_storage = Map.empty\<rparr>"
    using p by (auto simp: prepare_deployment_def result_simps)
  have new: "rg_programs r i = None" "deployment_key p \<notin> rg_deployments r"
      "r' = \<lparr>rg_programs = (rg_programs r)(i \<mapsto> p), rg_deployments = insert (deployment_key p) (rg_deployments r)\<rparr>"
    using ins by (auto simp: registry_insert_Ok)
  have len: "length i = HASH_SIZE" "length h = HASH_SIZE"
    using h assms(1) by (auto simp: program_id_derive_def program_hash_derive_def domain_def result_simps)
  have rec: "ok_record p" by (rule validate_record_ok_record) (use prep len assms(2) h(3) in auto)
  have ok': "registry_ok sha3 r'" by (rule registry_insert_keeps [OF ok ins len(1) rec _ assms(5)]) (use prep in simp)
  have "\<forall>q \<in> ran (rg_programs r'). pr_deployed_at q \<le> height"
    using heights assms(6) new(1) prep by (auto simp: new(3) ran_map_upd)
  then have audit: "registry_typed r'" "registry_validate sha3 r' height = Ok ()"
    using registry_ok_typed [OF ok'] ok' registry_audit_iff by blast+
  have again: "deploy sha3 r' (d\<lparr>dp_code := code\<rparr>) height' \<noteq> Ok (r2, k, l)" for r2 k l
  proof
    assume "deploy sha3 r' (d\<lparr>dp_code := code\<rparr>) height' = Ok (r2, k, l)"
    then obtain q where q: "prepare_deployment sha3 (d\<lparr>dp_code := code\<rparr>) height' = Ok (k, q)" "registry_insert r' k q = Ok r2"
      by (auto simp: deploy_Ok)
    then have "deployment_key q = deployment_key p"
      using prepare_deployment_Ok [OF q(1)] by (simp add: deployment_key_def h(3))
    then show False using q(2) by (simp add: registry_insert_Ok new(3))
  qed
  have at: "program r' i = Some p" "program r i = None" "\<And>k. k \<noteq> i \<Longrightarrow> program r' k = program r k"
    using new(1) by (simp_all add: program_def new(3))
  have growth: "length (enc_registry r') = length (enc_registry r) + length (enc_array i @ enc_record (the (program r' i)))"
    using deploy_growth [OF ok len(1) ins] at(1) by simp
  have "deploy sha3 r' (d\<lparr>dp_code := code\<rparr>) height' \<notin> range Ok" using again by (auto simp: image_iff)
  then show ?thesis
    using audit growth h(1,2) at(2,3) at(1) [unfolded h(3)] deploy_undone [OF assms(7)] by blast
qed

definition deploy_sample :: deploy_program where
  "deploy_sample = \<lparr>dp_owner = replicate 32 7, dp_nonce = 1, dp_code = sample_scalar\<rparr>"

theorem deployment_exact_witness:
  "\<exists>r' i. deploy (\<lambda>_. replicate 32 9) registry_default deploy_sample 5 = Ok (r', i, JDeploy i) \<and> i = replicate 32 9 \<and>
     registry_validate (\<lambda>_. replicate 32 9) r' 5 = Ok () \<and> rollback_program r' (JDeploy i) = (registry_default, Ok ())"
proof -
  let ?h = "\<lambda>_ :: bytes. replicate 32 (9 :: u8)" and ?i = "replicate 32 (9 :: u8)"
  let ?p = "\<lparr>pr_code_hash = ?i, pr_code = sample_scalar, pr_owner = replicate 32 7, pr_nonce = 1, pr_deployed_at = 5,
      pr_state_value = 0, pr_storage = Map.empty\<rparr>"
  let ?r = "\<lparr>rg_programs = [?i \<mapsto> ?p], rg_deployments = {(replicate 32 7, 1)}\<rparr>"
  have v: "validate_code sample_scalar = Ok \<lparr>vc_entry = 0, vc_max_stack = 2, vc_memory_pages = 1, vc_instruction_count = 4, vc_instruction_fuel = 5\<rparr>"
    by code_simp
  have s: "length sample_scalar = 25" by code_simp
  then have s': "sample_scalar \<noteq> []" "length sample_scalar \<le> MAX_PROGRAM_CODE_SIZE" "length sample_scalar \<le> U32_MAX"
    by (auto simp: MAX_PROGRAM_CODE_SIZE_def U32_MAX_def)
  have d: "deploy_validate deploy_sample = Ok ()"
    using v s' by (simp add: deploy_validate_def deploy_sample_def)
  have h: "program_hash_derive ?h (dp_code deploy_sample) = Ok ?i"
    using s' by (simp add: program_hash_derive_def canonical_bytes_def domain_def deploy_sample_def)
  have r: "deploy ?h registry_default deploy_sample 5 = Ok (?r, ?i, JDeploy ?i)"
    using d h by (simp add: deploy_def prepare_deployment_def program_id_derive_def domain_def registry_insert_def registry_default_def
        check_available_def registry_contains_def deploy_sample_def)
  have "registry_typed registry_default" "registry_validate ?h registry_default 0 = Ok ()" "registry_len registry_default < U32_MAX"
    by (simp_all add: registry_typed_def registry_validate_def registry_default_def registry_len_def map_entries_def U32_MAX_def)
  from deployment_exact [OF _ _ this _ r] show ?thesis using r by (auto simp: HASH_SIZE_def deploy_sample_def)
qed

end
