(* ===== verification/Settlement.thy ===== *)
theory Settlement
  imports Asset_Host Coin_Host Registry
begin

section \<open>Settling the monetary proposals of programs\<close>

text \<open>
  \<^verbatim>\<open>kernel/src/program/vm_transfer\<close>: what the kernel does with the transfers, registrations and mints a
  program proposed: coins first, then assets in the order register, mint, transfer. The routines
  mutate a staging state that the caller discards on any error, so they return the new state or an
  error. The ledger state of \<^verbatim>\<open>ledger/state.rs\<close> is here too: coins, programs and assets. The lemmas
  show that settlement moves only what the program owns, keeps the total of coins, keeps the coin,
  asset and index invariants, and that its journals are exact.
\<close>

subsection \<open>The ledger state\<close>

record ledger_state =
  ls_ledger :: coin_ledger
  ls_programs :: program_registry
  ls_assets :: asset_state

record applications =
  ap_coin :: application
  ap_asset :: asset_application

definition system_applications :: "(bytes \<Rightarrow> hash) \<Rightarrow> applications" where
  "system_applications sha3 = \<lparr>ap_coin = execute_transfer sha3, ap_asset = system_asset sha3\<rparr>"

abbreviation ls_utxos :: "ledger_state \<Rightarrow> utxo_set" where "ls_utxos s \<equiv> cl_utxos (ls_ledger s)"

subsection \<open>Coins (\<^verbatim>\<open>vm_transfer/coin.rs\<close>)\<close>

definition MAX_TRANSFER_INPUTS :: nat where "MAX_TRANSFER_INPUTS = 256"

definition settle_candidates :: "utxo_set \<Rightarrow> owner \<Rightarrow> hash list option \<Rightarrow> ((hash \<times> coin_utxo) list, state_error) result" where
  "settle_candidates u actor selected = (case selected of
     Some ids \<Rightarrow>
       if length ids > MAX_TRANSFER_INPUTS then Err InvalidTransition
       else collect (map (\<lambda>i. rbind (ok_or (coin u i) InvalidTransition) (\<lambda>c.
         if cu_owner c \<noteq> actor then Err InvalidTransition else Ok (i, c))) ids)
   | None \<Rightarrow> Ok (take MAX_TRANSFER_INPUTS (coins_by_owner u actor)))"

text \<open>Candidates are taken until their total reaches the amount.\<close>

fun select_inputs :: "'e \<Rightarrow> 'a::len word \<Rightarrow> ('c \<Rightarrow> 'a word) \<Rightarrow> 'a word \<Rightarrow> 'c list \<Rightarrow> ('c list \<times> 'a word, 'e) result" where
  "select_inputs overflow amount value_of t [] = Ok ([], t)"
| "select_inputs overflow amount value_of t (c # cs) =
     rbind (ok_or (checked_add t (value_of c)) overflow) (\<lambda>t.
       if t \<ge> amount then Ok ([c], t)
       else rbind (select_inputs overflow amount value_of t cs) (\<lambda>(xs, t). Ok (c # xs, t)))"

definition consume_inputs :: "utxo_set \<Rightarrow> (hash \<times> coin_utxo) list \<Rightarrow> (utxo_set, state_error) result" where
  "consume_inputs u inputs = try_fold (\<lambda>u (i, _). rbind (map_err Utxo (consume_coin u i)) (\<lambda>(_, u). Ok u)) u inputs"

definition insert_coins :: "(bytes \<Rightarrow> hash) \<Rightarrow> utxo_set \<Rightarrow> hash \<Rightarrow> (owner \<times> zeno) list \<Rightarrow> (utxo_set, state_error) result" where
  "insert_coins sha3 u origin outputs = try_fold (\<lambda>u (k, x, amount).
     map_err Utxo (insert_coin u (from_output sha3 origin (of_nat k)) \<lparr>cu_amount = amount, cu_owner = x\<rparr>)) u
     (zip [0..<length outputs] outputs)"

definition coin_settle ::
  "(bytes \<Rightarrow> hash) \<Rightarrow> utxo_set \<Rightarrow> owner \<Rightarrow> execution_result \<Rightarrow> hash \<Rightarrow> hash list option \<Rightarrow> (utxo_set \<times> coin_journal, state_error) result" where
  "coin_settle sha3 u actor r origin selected = (case er_coin_transfer r of
     None \<Rightarrow> Ok (u, coin_journal_default)
   | Some request \<Rightarrow>
       rbind (settle_candidates u actor selected) (\<lambda>candidates.
       rbind (select_inputs AmountOverflow (tr_amount request) (\<lambda>p. cu_amount (snd p)) 0 candidates) (\<lambda>(inputs, total).
       rbind (ok_or (checked_sub total (tr_amount request)) InvalidTransition) (\<lambda>change.
       rbind (consume_inputs u inputs) (\<lambda>u.
       let outputs = (tr_recipient request, tr_amount request) # (if change \<noteq> 0 then [(actor, change)] else []) in
       rbind (insert_coins sha3 u origin outputs) (\<lambda>u.
       Ok (u, coin_journal_default\<lparr>cj_consumed := inputs,
                cj_created := map (\<lambda>k. from_output sha3 origin (of_nat k)) [0..<length outputs]\<rparr>)))))))"

subsection \<open>Assets (\<^verbatim>\<open>vm_transfer/asset.rs\<close>)\<close>

definition issuance_origin :: "(bytes \<Rightarrow> hash) \<Rightarrow> program_id \<Rightarrow> hash \<Rightarrow> u8 \<Rightarrow> hash" where
  "issuance_origin sha3 i commitment opcode =
     domain sha3 AssetIntent (ascii ''xparq:vm-asset:v3'' @ enc_array i @ enc_array commitment @ [opcode])"

definition stage_asset ::
  "asset_application \<Rightarrow> asset_state \<Rightarrow> asset_call \<Rightarrow> execution_context \<Rightarrow> (asset_state \<times> asset_journal, state_error) result" where
  "stage_asset app st call cx =
     (case execute_asset app st call cx of (st, Inl e) \<Rightarrow> Err InvalidTransition | (st, Inr j) \<Rightarrow> Ok (st, j))"

definition merge_option :: "asset_journal option \<Rightarrow> asset_journal \<Rightarrow> asset_journal" where
  "merge_option previous j = (case previous of Some p \<Rightarrow> journal_merge p j | None \<Rightarrow> j)"

text \<open>Each stage takes and returns the asset state with the journal collected so far.\<close>

definition settle_register ::
  "(bytes \<Rightarrow> hash) \<Rightarrow> asset_application \<Rightarrow> program_id \<Rightarrow> hash \<Rightarrow> register_asset_request option \<Rightarrow> asset_state \<Rightarrow>
     (asset_state \<times> asset_journal option \<times> hash option, state_error) result" where
  "settle_register sha3 app i commitment request st = (case request of
     None \<Rightarrow> Ok (st, None, None)
   | Some q \<Rightarrow>
       rbind (map_err (\<lambda>_. InvalidTransition) (metadata_new (rr_name q) (rr_max_supply q) (owner.Program i) (owner.Program i))) (\<lambda>m.
       rbind (map_err (\<lambda>_. InvalidTransition) (asset_contract_derive sha3 m (rr_nonce q))) (\<lambda>asset.
       case st_records st asset of
         Some r \<Rightarrow> if rr_skip_if_exists q \<and> ar_metadata r = m then Ok (st, None, Some asset) else Err InvalidTransition
       | None \<Rightarrow>
           rbind (stage_asset app st (Register \<lparr>rg_name = rr_name q, rg_max_supply = rr_max_supply q, rg_initial_mint = rr_initial_mint q,
               rg_mint_authority = owner.Program i, rg_nonce = rr_nonce q\<rparr>)
             \<lparr>cx_actor = owner.Program i, cx_commitment = issuance_origin sha3 i commitment 0x08\<rparr>) (\<lambda>(st, j).
           Ok (st, Some j, Some asset)))))"

definition settle_mint ::
  "(bytes \<Rightarrow> hash) \<Rightarrow> asset_application \<Rightarrow> program_id \<Rightarrow> hash \<Rightarrow> mint_asset_request option \<Rightarrow> hash option \<Rightarrow>
     asset_state \<times> asset_journal option \<Rightarrow> (asset_state \<times> asset_journal option, state_error) result" where
  "settle_mint sha3 app i commitment request registered s = (case request of
     None \<Rightarrow> Ok s
   | Some q \<Rightarrow>
       rbind (case mr_asset q of Existing asset \<Rightarrow> Ok asset | Registered \<Rightarrow> ok_or registered InvalidTransition) (\<lambda>asset.
       rbind (ok_or (st_records (fst s) asset) InvalidTransition) (\<lambda>r.
       rbind (ok_or (checked_add (ar_mint_nonce r) 1) InvalidTransition) (\<lambda>nonce.
       rbind (stage_asset app (fst s) (Mint \<lparr>mi_asset = asset, mi_nonce = nonce, mi_recipient = mr_recipient q, mi_amount = mr_amount q\<rparr>)
           \<lparr>cx_actor = owner.Program i, cx_commitment = issuance_origin sha3 i commitment 0x09\<rparr>) (\<lambda>(st, j).
       Ok (st, Some (merge_option (snd s) j)))))))"

definition settle_transfer ::
  "asset_application \<Rightarrow> program_id \<Rightarrow> hash \<Rightarrow> (hash \<times> transfer_request) option \<Rightarrow>
     asset_state \<times> asset_journal option \<Rightarrow> (asset_state \<times> asset_journal option, state_error) result" where
  "settle_transfer app i origin request s = (case request of
     None \<Rightarrow> Ok s
   | Some (asset, q) \<Rightarrow>
       let actor = owner.Program i; amount = ucast (tr_amount q) :: units in
       rbind (select_inputs AmountOverflow amount (\<lambda>p. as_amount (snd p)) 0
           (take MAX_TRANSFER_INPUTS (shares_by_owner_asset (fst s) actor asset))) (\<lambda>(inputs, total).
       rbind (ok_or (checked_sub total amount) InvalidTransition) (\<lambda>change.
       rbind (stage_asset app (fst s) (Transfer \<lparr>tf_asset = asset, tf_inputs = map fst inputs,
             tf_outputs = \<lparr>ao_recipient = tr_recipient q, ao_amount = amount\<rparr> #
               (if change \<noteq> 0 then [\<lparr>ao_recipient = actor, ao_amount = change\<rparr>] else [])\<rparr>)
           \<lparr>cx_actor = actor, cx_commitment = origin\<rparr>) (\<lambda>(st, j).
       Ok (st, Some (merge_option (snd s) j))))))"

definition asset_settle ::
  "(bytes \<Rightarrow> hash) \<Rightarrow> asset_application \<Rightarrow> asset_state \<Rightarrow> program_id \<Rightarrow> execution_result \<Rightarrow> hash \<Rightarrow> hash \<Rightarrow>
     (asset_state \<times> asset_journal option, state_error) result" where
  "asset_settle sha3 app st i r commitment origin =
     rbind (settle_register sha3 app i commitment (er_asset_register r) st) (\<lambda>(st, j, registered).
     rbind (settle_mint sha3 app i commitment (er_asset_mint r) registered (st, j)) (\<lambda>s.
     settle_transfer app i origin (er_asset_transfer r) s))"

subsection \<open>Both\<close>

definition settle_with_inputs ::
  "(bytes \<Rightarrow> hash) \<Rightarrow> asset_application \<Rightarrow> ledger_state \<Rightarrow> program_id \<Rightarrow> execution_result \<Rightarrow> hash \<Rightarrow> hash list option \<Rightarrow>
     (ledger_state \<times> coin_journal \<times> asset_journal option, state_error) result" where
  "settle_with_inputs sha3 app s i r commitment selected =
     (let origin = domain sha3 AssetIntent (ascii ''xparq:vm-transfer:v2'' @ enc_array i @ enc_array commitment) in
      rbind (coin_settle sha3 (ls_utxos s) (owner.Program i) r origin selected) (\<lambda>(u, coin).
      rbind (asset_settle sha3 app (ls_assets s) i r commitment origin) (\<lambda>(st, asset).
      Ok (s\<lparr>ls_ledger := (ls_ledger s)\<lparr>cl_utxos := u\<rparr>, ls_assets := st\<rparr>, coin, asset))))"

definition vm_settle ::
  "(bytes \<Rightarrow> hash) \<Rightarrow> asset_application \<Rightarrow> ledger_state \<Rightarrow> program_id \<Rightarrow> execution_result \<Rightarrow> hash \<Rightarrow>
     (ledger_state \<times> coin_journal \<times> asset_journal option, state_error) result" where
  "vm_settle sha3 app s i r commitment = settle_with_inputs sha3 app s i r commitment None"

record transfer_quote =
  tq_created_coin_utxos :: u64
  tq_consumed_coin_utxos :: u64
  tq_created_state_weight :: u64

subsection \<open>Tracking coins against an earlier ledger\<close>

lemma map_le_lookup: "m \<subseteq>\<^sub>m m' \<Longrightarrow> m k = Some v \<Longrightarrow> m' k = Some v"
  by (metis domI map_le_def)

text \<open>
  \<open>tracks_coins u0 C K u\<close>: the coins \<open>C\<close> of \<open>u0\<close> were spent and the coins \<open>K\<close> of \<open>u\<close> were created since.
  A created coin that is spent again leaves no trace.
\<close>

definition tracks_coins :: "utxo_set \<Rightarrow> (hash \<rightharpoonup> coin_utxo) \<Rightarrow> hash set \<Rightarrow> utxo_set \<Rightarrow> bool" where
  "tracks_coins u0 C K u \<longleftrightarrow> utxo_inv u \<and> C \<subseteq>\<^sub>m us_coins u0 \<and> K \<subseteq> dom (us_coins u) \<and>
     (\<forall>i \<in> K. us_coins u0 i = None \<or> i \<in> dom C) \<and>
     (\<forall>i. i \<notin> K \<longrightarrow> us_coins u i = (if i \<in> dom C then None else us_coins u0 i))"

definition note_consumed :: "hash \<times> coin_utxo \<Rightarrow> (hash \<rightharpoonup> coin_utxo) \<times> hash set \<Rightarrow> (hash \<rightharpoonup> coin_utxo) \<times> hash set" where
  "note_consumed = (\<lambda>(i, c) (C, K). if i \<in> K then (C, K - {i}) else (if C i = None then C(i \<mapsto> c) else C, K))"

lemma tracks_start: "utxo_inv u \<Longrightarrow> tracks_coins u Map.empty {} u"
  by (simp add: tracks_coins_def)

lemma tracks_consume:
  assumes t: "tracks_coins u0 C K u" and c: "consume_coin u i = Ok (c, u')" and n: "note_consumed (i, c) (C, K) = (C', K')"
  shows "tracks_coins u0 C' K' u'"
proof -
  have inv: "utxo_inv u'" using t consume_coin_inv [OF _ c] by (simp add: tracks_coins_def)
  have live: "us_coins u i = Some c" and u': "us_coins u' = (us_coins u)(i := None)" using c by (simp_all add: consume_coin_Ok)
  show ?thesis
  proof (cases "i \<in> K")
    case True
    then have n': "C' = C" "K' = K - {i}" using n by (auto simp: note_consumed_def)
    have "us_coins u0 i = None \<or> i \<in> dom C" using t True by (auto simp: tracks_coins_def)
    then show ?thesis using t inv by (auto simp: tracks_coins_def n' u' domIff)
  next
    case False
    then have i: "i \<notin> dom C" "us_coins u0 i = Some c" using t live by (auto simp: tracks_coins_def split: if_splits)
    then have n': "C' = C(i \<mapsto> c)" "K' = K" using n False by (auto simp: note_consumed_def domIff)
    have "C(i \<mapsto> c) \<subseteq>\<^sub>m us_coins u0" using t i(2) by (auto simp: tracks_coins_def map_le_def)
    then show ?thesis using t inv i False unfolding tracks_coins_def n' u' by (auto simp: domIff)
  qed
qed

lemma tracks_insert:
  assumes t: "tracks_coins u0 C K u" and c: "insert_coin u i c = Ok u'"
  shows "tracks_coins u0 C (insert i K) u'"
proof -
  have inv: "utxo_inv u'" using t insert_coin_inv [OF _ c] by (simp add: tracks_coins_def)
  have free: "us_coins u i = None" and u': "us_coins u' = (us_coins u)(i \<mapsto> c)" using c by (simp_all add: insert_coin_Ok)
  then have "i \<notin> K" "us_coins u0 i = None \<or> i \<in> dom C" using t by (auto simp: tracks_coins_def split: if_splits)
  then show ?thesis using t inv by (auto simp: tracks_coins_def u')
qed

lemma tracks_rollback:
  assumes t: "tracks_coins u0 C K u" and inv: "utxo_inv u0"
    and cs: "distinct (map fst cs)" "map_of cs = C" and ks: "distinct ks" "set ks = K"
    and sums: "unat (cr_total_mined r) = unat (cr_total_mined r0) + unat m" "unat (cr_total_burned r) = unat (cr_total_burned r0) + unat b"
  shows "rollback_coin \<lparr>cl_utxos = u, cl_coin = r\<rparr> \<lparr>cj_consumed = cs, cj_created = ks, cj_mined = m, cj_burned = b\<rparr> =
    (\<lparr>cl_utxos = u0, cl_coin = r0\<rparr>, Ok ())"
proof -
  have u: "utxo_inv u" "K \<subseteq> dom (us_coins u)" and C: "C \<subseteq>\<^sub>m us_coins u0"
    and out: "\<And>i. i \<in> K \<Longrightarrow> us_coins u0 i = None \<or> i \<in> dom C"
    and rest: "\<And>i. i \<notin> K \<Longrightarrow> us_coins u i = (if i \<in> dom C then None else us_coins u0 i)"
    using t by (auto simp: tracks_coins_def)
  have dom: "fst ` set cs = dom C" using cs(2) dom_map_of_conv_image_fst [of cs] by simp
  have coins: "us_coins u0 i = Some c \<and> cu_amount c \<noteq> 0 \<and> i \<in> dom C" if "(i, c) \<in> set cs" for i c
  proof -
    have "C i = Some c" using that cs by auto
    then have "us_coins u0 i = Some c" "i \<in> dom C" using map_le_lookup [OF C] by auto
    then show ?thesis using inv ranI [of "us_coins u0" i c] by (auto simp: utxo_inv_def)
  qed
  have created: "check_created u {} ks = Ok K" using check_created_Ok [of ks "{}" u] ks u(2) by auto
  have consumed: "check_consumed u K {} cs = Ok ()"
    by (rule check_consumed_Ok [OF cs(1)]) (use dom rest in auto)
  obtain u1 where u1: "consume_all u ks = (u1, Ok ())" "utxo_inv u1" "us_coins u1 = us_coins u |` (- set ks)"
    using consume_all_Ok [OF u(1) ks(1)] u(2) ks(2) by auto
  have keep: "us_coins u1 i = (if i \<in> dom C then None else us_coins u0 i)" for i
    using rest [of i] out [of i] by (cases "i \<in> K") (auto simp: u1(3) ks(2))
  have fits: "finite (dom (us_coins u0))" "coin_sum (us_coins u0) < 2 ^ 64"
    using inv unat_bound [of "us_total_value u0"] by (simp_all add: utxo_inv_def)
  have "\<exists>u'. insert_all u1 cs = (u', Ok ()) \<and> utxo_inv u' \<and> us_coins u' = us_coins u1 ++ map_of cs"
  proof (rule insert_all_Ok [OF fits u1(2) _ cs(1)])
    show "us_coins u1 \<subseteq>\<^sub>m us_coins u0" by (auto simp: map_le_def keep split: if_splits)
    show "\<forall>(i, c) \<in> set cs. us_coins u0 i = Some c \<and> us_coins u1 i = None \<and> cu_amount c \<noteq> 0"
      using coins by (auto simp: keep)
  qed
  then obtain u' where u': "insert_all u1 cs = (u', Ok ())" "utxo_inv u'" "us_coins u' = us_coins u1 ++ C" unfolding cs(2) by blast
  have "us_coins u' = us_coins u0"
  proof
    fix i
    show "us_coins u' i = us_coins u0 i"
    proof (cases "C i")
      case (Some c)
      then show ?thesis using map_le_lookup [OF C] by (simp add: u'(3) map_add_def)
    qed (simp add: u'(3) keep map_add_def domIff)
  qed
  then have "u' = u0" by (rule utxo_inv_unique [OF u'(2) inv])
  moreover have "checked_sub (cr_total_mined r) m = Some (cr_total_mined r0)" "checked_sub (cr_total_burned r) b = Some (cr_total_burned r0)"
    using sums by (simp_all add: checked_simps)
  ultimately show ?thesis using created consumed u1(1) u'(1) by (simp add: rollback_coin_def Let_def)
qed

subsection \<open>Settled coins\<close>

lemma consume_inputs_tracks:
  assumes "tracks_coins u0 C K u" and "consume_inputs u xs = Ok u'" and "\<forall>(i, c) \<in> set xs. us_coins u i = Some c"
    and "fold note_consumed xs (C, K) = (C', K')"
  shows "tracks_coins u0 C' K' u' \<and> unat (us_total_value u') + (\<Sum>(i, c)\<leftarrow>xs. unat (cu_amount c)) = unat (us_total_value u)"
  using assms
proof (induction xs arbitrary: u C K)
  case Nil
  then show ?case by (simp add: consume_inputs_def)
next
  case (Cons x xs)
  obtain i c where x: "x = (i, c)" by fastforce
  obtain c' u1 where c: "consume_coin u i = Ok (c', u1)" and rest: "consume_inputs u1 xs = Ok u'"
    using Cons.prems(2) by (auto simp: consume_inputs_def x result_simps)
  have live: "us_coins u i = Some c'" "us_coins u1 = (us_coins u)(i := None)"
      "unat (us_total_value u) = unat (us_total_value u1) + unat (cu_amount c')" using c by (simp_all add: consume_coin_Ok)
  then have c': "c' = c" using Cons.prems(3) by (simp add: x)
  have fresh: "\<forall>(k, d) \<in> set xs. us_coins u1 k = Some d"
  proof -
    have "k \<noteq> i" if "(k, d) \<in> set xs" for k d
    proof
      assume "k = i"
      have "(k, d') \<in> set ys \<Longrightarrow> us_coins v k = None \<Longrightarrow> consume_inputs v ys \<noteq> Ok w" for d' ys v w
        by (induction ys arbitrary: v) (auto simp: consume_inputs_def result_simps consume_coin_Ok consume_coin_def split: if_splits)
      then show False using that rest live(2) \<open>k = i\<close> by auto
    qed
    then show ?thesis using Cons.prems(3) by (fastforce simp: live(2))
  qed
  obtain C1 K1 where n: "note_consumed (i, c') (C, K) = (C1, K1)" by fastforce
  have "tracks_coins u0 C1 K1 u1" by (rule tracks_consume [OF Cons.prems(1) c n])
  from Cons.IH [OF this rest fresh] show ?case using Cons.prems(4) n live(3) by (simp add: x c')
qed

lemma insert_coins_tracks:
  assumes "tracks_coins u0 C K u" and "insert_coins sha3 u origin outs = Ok u'"
  shows "tracks_coins u0 C (K \<union> set (map (\<lambda>k. from_output sha3 origin (of_nat k)) [0..<length outs])) u' \<and>
    unat (us_total_value u') = unat (us_total_value u) + (\<Sum>(x, a)\<leftarrow>outs. unat a)"
proof -
  let ?step = "\<lambda>u (k, x, amount). map_err Utxo (insert_coin u (from_output sha3 origin (of_nat k)) \<lparr>cu_amount = amount, cu_owner = x\<rparr>)"
  have "tracks_coins u0 C K u \<Longrightarrow> try_fold ?step u (zip ns xs) = Ok u' \<Longrightarrow> length ns = length xs \<Longrightarrow>
      tracks_coins u0 C (K \<union> (\<lambda>k. from_output sha3 origin (of_nat k)) ` set ns) u' \<and>
      unat (us_total_value u') = unat (us_total_value u) + (\<Sum>(x, a)\<leftarrow>xs. unat a)" for ns :: "nat list" and xs K u
  proof (induction xs arbitrary: ns K u)
    case (Cons p xs)
    obtain x a where p: "p = (x, a)" by fastforce
    obtain k ms where ns: "ns = k # ms" using Cons.prems(3) by (cases ns) auto
    obtain u1 where u1: "insert_coin u (from_output sha3 origin (of_nat k)) \<lparr>cu_amount = a, cu_owner = x\<rparr> = Ok u1"
      and rest: "try_fold ?step u1 (zip ms xs) = Ok u'" using Cons.prems(2) by (auto simp: ns p result_simps)
    have v: "unat (us_total_value u1) = unat (us_total_value u) + unat a" using u1 by (simp add: insert_coin_Ok)
    show ?case using Cons.IH [OF tracks_insert [OF Cons.prems(1) u1] rest] Cons.prems(3) v by (simp add: ns p)
  qed simp
  from this [OF assms(1), of "[0..<length outs]" outs] assms(2) show ?thesis by (simp add: insert_coins_def)
qed

lemma select_inputs_Ok:
  "select_inputs e amount f t cs = Ok (xs, t') \<Longrightarrow> set xs \<subseteq> set cs \<and> unat t' = unat t + (\<Sum>x\<leftarrow>xs. unat (f x)) \<and> length xs \<le> length cs"
proof (induction cs arbitrary: t xs)
  case (Cons c cs)
  then obtain t1 where t1: "checked_add t (f c) = Some t1" "unat t1 = unat t + unat (f c)"
    by (auto simp: result_simps checked_simps)
  show ?case
  proof (cases "t1 \<ge> amount")
    case True
    then have "xs = [c]" "t' = t1" using Cons.prems t1(1) by auto
    then show ?thesis using t1(2) by simp
  next
    case False
    then obtain ys where "select_inputs e amount f t1 cs = Ok (ys, t')" "xs = c # ys"
      using Cons.prems t1 by (auto simp: result_simps)
    then show ?thesis using Cons.IH [of t1 ys] t1(2) by auto
  qed
qed simp

lemma settle_candidates_Ok:
  assumes "settle_candidates u actor selected = Ok cs"
  shows "\<forall>(i, c) \<in> set cs. us_coins u i = Some c \<and> cu_owner c = actor"
proof (cases selected)
  case None
  then have "set cs \<subseteq> set (coins_by_owner u actor)" using assms by (auto simp: settle_candidates_def dest: in_set_takeD)
  moreover have "\<forall>(i, c) \<in> set (coins_by_owner u actor). us_coins u i = Some c \<and> cu_owner c = actor"
    by (auto simp: coins_by_owner_def List.map_filter_def split: option.splits if_splits)
  ultimately show ?thesis by blast
next
  case (Some ids)
  have "collect (map (\<lambda>i. rbind (ok_or (coin u i) InvalidTransition) (\<lambda>c.
      if cu_owner c \<noteq> actor then Err InvalidTransition else Ok (i, c))) xs) = Ok ys \<Longrightarrow>
      \<forall>(i, c) \<in> set ys. us_coins u i = Some c \<and> cu_owner c = actor" for xs ys
    by (induction xs arbitrary: ys) (auto simp: result_simps coin_def split: if_splits)
  then show ?thesis using assms Some by (auto simp: settle_candidates_def split: if_splits)
qed

lemma coin_settle_exact:
  assumes t: "tracks_coins u0 C K u" and s: "coin_settle sha3 u actor r origin selected = Ok (u', j)"
    and n: "fold note_consumed (cj_consumed j) (C, K) = (C', K')"
  shows "tracks_coins u0 C' (K' \<union> set (cj_created j)) u' \<and> us_total_value u' = us_total_value u \<and>
    (\<forall>(i, c) \<in> set (cj_consumed j). us_coins u i = Some c \<and> cu_owner c = actor) \<and> cj_mined j = 0 \<and> cj_burned j = 0"
proof (cases "er_coin_transfer r")
  case None
  then show ?thesis using t s n by (auto simp: coin_settle_def coin_journal_default_def)
next
  case (Some q)
  define outs where "outs change = (tr_recipient q, tr_amount q) # (if change \<noteq> 0 then [(actor, change)] else [])" for change
  obtain cs inputs total change u1 where cs: "settle_candidates u actor selected = Ok cs"
    and sel: "select_inputs AmountOverflow (tr_amount q) (\<lambda>p. cu_amount (snd p)) 0 cs = Ok (inputs, total)"
    and ch: "checked_sub total (tr_amount q) = Some change" and con: "consume_inputs u inputs = Ok u1"
    and ins: "insert_coins sha3 u1 origin (outs change) = Ok u'"
    and j: "j = coin_journal_default\<lparr>cj_consumed := inputs, cj_created := map (\<lambda>k. from_output sha3 origin (of_nat k)) [0..<length (outs change)]\<rparr>"
    using s Some by (auto simp: coin_settle_def result_simps Let_def outs_def)
  have own: "\<forall>(i, c) \<in> set inputs. us_coins u i = Some c \<and> cu_owner c = actor"
    using settle_candidates_Ok [OF cs] select_inputs_Ok [OF sel] by blast
  have n': "fold note_consumed inputs (C, K) = (C', K')" using n by (simp add: j)
  have 1: "tracks_coins u0 C' K' u1" "unat (us_total_value u1) + (\<Sum>(i, c)\<leftarrow>inputs. unat (cu_amount c)) = unat (us_total_value u)"
    using consume_inputs_tracks [OF t con _ n'] own by auto
  have 2: "tracks_coins u0 C' (K' \<union> set (cj_created j)) u'"
      "unat (us_total_value u') = unat (us_total_value u1) + (\<Sum>(x, a)\<leftarrow>outs change. unat a)"
    using insert_coins_tracks [OF 1(1) ins] by (simp_all add: j)
  have "(\<Sum>(i, c)\<leftarrow>inputs. unat (cu_amount c)) = unat total" using select_inputs_Ok [OF sel] by (simp add: case_prod_unfold)
  also have "\<dots> = (\<Sum>(x, a)\<leftarrow>outs change. unat a)" using ch by (auto simp: checked_simps outs_def)
  finally have "us_total_value u' = us_total_value u" using 1(2) 2(2) by (simp add: word_unat_eq_iff)
  then show ?thesis using 2(1) own by (simp add: j coin_journal_default_def)
qed

subsection \<open>Tracking assets against an earlier state\<close>

lemma fold_first_entry:
  "distinct (map fst ys) \<Longrightarrow> fold (\<lambda>(k, v) m. if m k = None then m(k \<mapsto> v) else m) ys m = map_of ys ++ m"
proof (induction ys arbitrary: m)
  case (Cons y ys)
  obtain k v where y: "y = (k, v)" by fastforce
  have none: "map_of ys k = None" using Cons.prems by (simp add: y map_of_eq_None_iff)
  show ?case
  proof (cases "m k")
    case None
    then show ?thesis using Cons none by (auto simp: y fun_eq_iff map_add_def split: option.splits)
  next
    case (Some w)
    then show ?thesis using Cons none by (auto simp: y fun_eq_iff map_add_def split: option.splits)
  qed
qed simp

lemma map_of_merge_entries:
  assumes "distinct (map fst xs)" and "distinct (map fst ys)"
  shows "map_of (merge_entries xs ys) = map_of ys ++ map_of xs" "distinct (map fst (merge_entries xs ys))"
proof -
  have f: "fold (\<lambda>(k, v) m. if m k = None then m(k \<mapsto> v) else m) ys (map_of (rev xs)) = map_of ys ++ map_of xs"
    using fold_first_entry [OF assms(2)] map_of_rev_distinct [OF assms(1)] by simp
  have fin: "finite (dom (map_of ys ++ map_of xs))" by (simp add: finite_dom_map_of)
  show "map_of (merge_entries xs ys) = map_of ys ++ map_of xs"
    unfolding merge_entries_def f by (rule map_of_map_entries [OF fin])
  show "distinct (map fst (merge_entries xs ys))"
    unfolding merge_entries_def f using fm.entries_ordered [OF fin] by (simp add: strict_sorted_iff)
qed

lemma remembered_iff:
  "distinct (map fst js) \<Longrightarrow> (\<forall>(k, p) \<in> set js. p = m k) \<longleftrightarrow> (\<forall>k p. map_of js k = Some p \<longrightarrow> p = m k)"
  using map_of_eq_Some_iff [of js] by fastforce

lemma not_in_keys: "k \<notin> fst ` set js \<longleftrightarrow> map_of js k = None"
  by (simp add: map_of_eq_None_iff)

lemma merge_remembered:
  assumes d: "distinct (map fst xs)" "distinct (map fst ys)"
    and xs: "\<forall>(k, p) \<in> set xs. p = old k" "\<forall>k. k \<notin> fst ` set xs \<longrightarrow> mid k = old k"
    and ys: "\<forall>(k, p) \<in> set ys. p = mid k" "\<forall>k. k \<notin> fst ` set ys \<longrightarrow> new k = mid k"
  shows "(\<forall>(k, p) \<in> set (merge_entries xs ys). p = old k) \<and> (\<forall>k. k \<notin> fst ` set (merge_entries xs ys) \<longrightarrow> new k = old k)"
proof -
  note m = map_of_merge_entries [OF d]
  have x: "\<forall>k p. map_of xs k = Some p \<longrightarrow> p = old k" and y: "\<forall>k p. map_of ys k = Some p \<longrightarrow> p = mid k"
    using xs(1) ys(1) remembered_iff [OF d(1)] remembered_iff [OF d(2)] by blast+
  have "\<forall>k p. map_of (merge_entries xs ys) k = Some p \<longrightarrow> p = old k"
    unfolding m(1) map_add_Some_iff using x y xs(2) unfolding not_in_keys by fastforce
  moreover have "\<forall>k. map_of (merge_entries xs ys) k = None \<longrightarrow> new k = old k"
    unfolding m(1) map_add_None using xs(2) ys(2) unfolding not_in_keys by fastforce
  ultimately show ?thesis unfolding remembered_iff [OF m(2)] not_in_keys by blast
qed

lemma remembers_merge:
  assumes "remembers j st0 st1" and "remembers j' st1 st2"
  shows "remembers (journal_merge j j') st0 st2"
proof -
  have d: "distinct (map fst (aj_records j))" "distinct (map fst (aj_records j'))" "distinct (map fst (aj_shares j))" "distinct (map fst (aj_shares j'))"
    using assms by (simp_all add: remembers_def)
  have "distinct (map fst (aj_records (journal_merge j j')))" "distinct (map fst (aj_shares (journal_merge j j')))"
    using map_of_merge_entries(2) [OF d(1,2)] map_of_merge_entries(2) [OF d(3,4)] by (simp_all add: journal_merge_def)
  moreover have "(\<forall>(k, p) \<in> set (aj_records (journal_merge j j')). p = st_records st0 k) \<and>
      (\<forall>k. k \<notin> fst ` set (aj_records (journal_merge j j')) \<longrightarrow> st_records st2 k = st_records st0 k)"
    unfolding journal_merge_def asset_journal.simps
    by (rule merge_remembered [OF d(1,2), where mid = "st_records st1"]) (use assms in \<open>simp_all add: remembers_def\<close>)
  moreover have "(\<forall>(k, p) \<in> set (aj_shares (journal_merge j j')). p = st_shares st0 k) \<and>
      (\<forall>k. k \<notin> fst ` set (aj_shares (journal_merge j j')) \<longrightarrow> st_shares st2 k = st_shares st0 k)"
    unfolding journal_merge_def asset_journal.simps
    by (rule merge_remembered [OF d(3,4), where mid = "st_shares st1"]) (use assms in \<open>simp_all add: remembers_def\<close>)
  ultimately show ?thesis by (simp add: remembers_def)
qed

text \<open>\<open>tracks_assets st0 j X st\<close>: the journal takes \<open>st\<close> back to \<open>st0\<close>, and only shares of owners in \<open>X\<close> were spent.\<close>

definition tracks_assets :: "asset_state \<Rightarrow> asset_journal option \<Rightarrow> owner set \<Rightarrow> asset_state \<Rightarrow> bool" where
  "tracks_assets st0 oj X st \<longleftrightarrow> asset_inv st \<and> (case oj of None \<Rightarrow> st = st0 | Some j \<Rightarrow> remembers j st0 st) \<and>
     (\<forall>i sh. st_shares st0 i = Some sh \<and> st_shares st i \<noteq> Some sh \<longrightarrow> as_owner sh \<in> X)"

lemma tracks_assets_start: "asset_inv st \<Longrightarrow> tracks_assets st None X st"
  by (simp add: tracks_assets_def)

lemma tracks_assets_trans:
  assumes "tracks_assets st0 oj X st" and "tracks_assets st (Some j) Y st'"
  shows "tracks_assets st0 (Some (merge_option oj j)) (X \<union> Y) st'"
proof -
  have "remembers (merge_option oj j) st0 st'"
    using assms remembers_merge by (cases oj) (auto simp: tracks_assets_def merge_option_def)
  moreover have "as_owner sh \<in> X \<union> Y" if "st_shares st0 i = Some sh" "st_shares st' i \<noteq> Some sh" for i sh
    using that assms by (cases "st_shares st i = Some sh") (auto simp: tracks_assets_def)
  ultimately show ?thesis using assms(2) unfolding tracks_assets_def by auto
qed

lemma tracks_assets_apply:
  assumes inv: "asset_inv st" and ap: "asset_apply sha3 st call cx = (st', Ok j)"
  shows "tracks_assets st (Some j) {cx_actor cx} st'"
proof -
  have ix: "indexed st" using inv by (simp add: asset_inv_def)
  obtain j0 where s: "snapshot_operation sha3 st call cx = Ok j0" and op: "apply_monetary_operation sha3 st call cx = (st', Ok ())"
    and j: "j = \<lparr>aj_records = filter (\<lambda>(k, previous). st_records st' k \<noteq> previous) (aj_records j0),
      aj_shares = filter (\<lambda>(k, previous). st_shares st' k \<noteq> previous) (aj_shares j0)\<rparr>"
    by (rule asset_apply_Ok [OF ap])
  have "remembers j st st'" unfolding j by (rule remembers_filter [OF snapshot_remembers [OF ix op s]])
  moreover have "asset_inv st'" by (rule apply_monetary_operation_inv [OF inv op])
  ultimately show ?thesis using operation_spends_own [OF inv op] by (auto simp: tracks_assets_def)
qed

lemma stage_asset_tracks:
  assumes app: "asset_application sha3 app" and t: "tracks_assets st0 oj X st" and s: "stage_asset app st call cx = Ok (st', j)"
  shows "tracks_assets st0 (Some (merge_option oj j)) (insert (cx_actor cx) X) st' \<and> asset_apply sha3 st call cx = (st', Ok j)"
proof -
  have inv: "asset_inv st" using t by (simp add: tracks_assets_def)
  then have "asset_apply sha3 st call cx = (st', Ok j)"
    using s by (intro asset_application.executed [OF app]) (auto simp: stage_asset_def asset_inv_def split: prod.splits sum.splits)
  with tracks_assets_trans [OF t tracks_assets_apply [OF inv this]] show ?thesis by simp
qed

lemma asset_settle_tracks:
  assumes app: "asset_application sha3 app" and inv: "asset_inv st" and s: "asset_settle sha3 app st i r commitment origin = Ok (st', oj)"
  shows "tracks_assets st oj {owner.Program i} st'"
proof -
  obtain st1 j1 reg s2 where 1: "settle_register sha3 app i commitment (er_asset_register r) st = Ok (st1, j1, reg)"
    and 2: "settle_mint sha3 app i commitment (er_asset_mint r) reg (st1, j1) = Ok s2"
    and 3: "settle_transfer app i origin (er_asset_transfer r) s2 = Ok (st', oj)"
    using s by (auto simp: asset_settle_def result_simps)
  have t0: "tracks_assets st None {owner.Program i} st" by (rule tracks_assets_start [OF inv])
  have t1: "tracks_assets st j1 {owner.Program i} st1"
  proof (cases "st1 = st \<and> j1 = None")
    case False
    then obtain call cx j where "stage_asset app st call cx = Ok (st1, j)" "j1 = Some j" "cx_actor cx = owner.Program i"
      using 1 by (auto simp: settle_register_def result_simps split: option.splits if_splits)
    then show ?thesis using stage_asset_tracks [OF app t0] by (fastforce simp: merge_option_def)
  qed (use t0 in simp)
  have t2: "tracks_assets st (snd s2) {owner.Program i} (fst s2)"
  proof (cases "er_asset_mint r")
    case (Some q)
    then obtain call cx j st2 where "stage_asset app st1 call cx = Ok (st2, j)" "s2 = (st2, Some (merge_option j1 j))" "cx_actor cx = owner.Program i"
      using 2 by (fastforce simp: settle_mint_def result_simps)
    then show ?thesis using stage_asset_tracks [OF app t1] by fastforce
  qed (use t1 2 in \<open>auto simp: settle_mint_def\<close>)
  show ?thesis
  proof (cases "er_asset_transfer r")
    case (Some q)
    then obtain call cx j where "stage_asset app (fst s2) call cx = Ok (st', j)" "oj = Some (merge_option (snd s2) j)" "cx_actor cx = owner.Program i"
      using 3 by (cases q) (fastforce simp: settle_transfer_def result_simps Let_def)
    then show ?thesis using stage_asset_tracks [OF app t2] by fastforce
  qed (use t2 3 in \<open>auto simp: settle_transfer_def\<close>)
qed

end
