(* ===== verification/Vm_Accounts.thy ===== *)
theory Vm_Accounts
  imports Settlement
begin

section \<open>The state of a version 4 invocation\<close>

text \<open>
  \<^verbatim>\<open>kernel/src/program/vm_app/engine.rs\<close> and \<^verbatim>\<open>engine/settlement.rs\<close>: the resources an invocation shares among
  its call frames (fuel, calls, actions, the stack of active programs), the accounts cached per
  program, and the monetary effects with the journals they leave. Every operation works on a staging
  state that is discarded on error, so it returns the new engine or the error.
  The lemmas follow the effects of any sequence of successful operations (\<open>engine_run\<close>): what they spend, and that
  the journals they leave take the ledger back. The opcode interpreter that requests the operations is not modelled.
\<close>

subsection \<open>The engine\<close>

text \<open>\<open>std::cmp::Reverse\<close>: accounts list their shares from the largest amount to the smallest.\<close>

datatype 'a reverse = Reverse (forward: 'a)

instantiation reverse :: (linorder) linorder
begin

definition less_eq_reverse :: "'a reverse \<Rightarrow> 'a reverse \<Rightarrow> bool" where
  "less_eq_reverse a b = (forward b \<le> forward a)"

definition less_reverse :: "'a reverse \<Rightarrow> 'a reverse \<Rightarrow> bool" where
  "less_reverse a b = (forward b < forward a)"

instance
  by standard (auto simp: less_eq_reverse_def less_reverse_def reverse.expand)

end

type_synonym 'w account = "'w word \<times> ('w word reverse \<times> hash) set"

record vm_env =
  ve_asset :: asset_application
  ve_signer :: program_id
  ve_height :: u64
  ve_commitment :: hash

record engine =
  en_state :: ledger_state
  en_fuel :: u64
  en_calls :: nat
  en_actions :: nat
  en_active :: "program_id list"
  en_ready :: "program_id set"
  en_coins :: "program_id \<rightharpoonup> 64 account"
  en_assets :: "program_id \<times> hash \<rightharpoonup> 128 account"
  en_consumed :: "hash \<rightharpoonup> coin_utxo"
  en_created :: "hash set"
  en_asset :: "asset_journal option"
  en_states :: "program_id \<rightharpoonup> i64"
  en_storage :: "program_id \<times> bytes \<rightharpoonup> bytes option"

abbreviation en_utxos :: "engine \<Rightarrow> utxo_set" where "en_utxos e \<equiv> ls_utxos (en_state e)"
abbreviation en_programs :: "engine \<Rightarrow> program_registry" where "en_programs e \<equiv> ls_programs (en_state e)"

definition charge :: "engine \<Rightarrow> u64 \<Rightarrow> (engine, execution_error) result" where
  "charge e n = rbind (ok_or (checked_sub (en_fuel e) n) OutOfFuel) (\<lambda>fuel. Ok (e\<lparr>en_fuel := fuel\<rparr>))"

definition vm_action :: "engine \<Rightarrow> (engine, execution_error) result" where
  "vm_action e = (let e = e\<lparr>en_actions := en_actions e + 1\<rparr> in
     if en_actions e > MAX_ACTIONS then Err ResourceLimit else Ok e)"

subsection \<open>Cached accounts\<close>

definition account_of :: "('k \<rightharpoonup> 'w::len account) \<Rightarrow> 'k \<Rightarrow> 'w account" where
  "account_of m k = (case m k of None \<Rightarrow> (0, {}) | Some a \<Rightarrow> a)"

definition account_add :: "('k \<rightharpoonup> 'w::len account) \<Rightarrow> 'k \<Rightarrow> 'w word \<Rightarrow> hash \<Rightarrow> ('k \<rightharpoonup> 'w account, execution_error) result" where
  "account_add m k amount share =
     rbind (ok_or (checked_add (fst (account_of m k)) amount) ArithmeticOverflow) (\<lambda>t.
     Ok (m(k \<mapsto> (t, insert (Reverse amount, share) (snd (account_of m k))))))"

definition account_sub :: "('k \<rightharpoonup> 'w::len account) \<Rightarrow> 'k \<Rightarrow> 'w word \<Rightarrow> hash \<Rightarrow> ('k \<rightharpoonup> 'w account, execution_error) result" where
  "account_sub m k amount share =
     rbind (ok_or (checked_sub (fst (account_of m k)) amount) SettlementFailed) (\<lambda>t.
     Ok (m(k \<mapsto> (t, snd (account_of m k) - {(Reverse amount, share)}))))"

definition account_shares :: "'w::len account option \<Rightarrow> hash list" where
  "account_shares a = (case a of None \<Rightarrow> [] | Some (_, s) \<Rightarrow> map snd (take MAX_TRANSFER_INPUTS (sorted_list_of_set s)))"

definition shares_by_owner :: "asset_state \<Rightarrow> owner \<Rightarrow> (hash \<times> asset_share) list" where
  "shares_by_owner st x =
     List.map_filter (\<lambda>i. case st_shares st i of
         None \<Rightarrow> None
       | Some share \<Rightarrow> if as_owner share = x then Some (i, share) else None)
       (case st_by_owner st x of
          None \<Rightarrow> []
        | Some assets \<Rightarrow> concat (map (\<lambda>(a, ids). sorted_list_of_set ids) (map_entries assets)))"

definition ensure_accounts :: "engine \<Rightarrow> program_id \<Rightarrow> (engine, execution_error) result" where
  "ensure_accounts e i =
     (if i \<in> en_ready e then Ok e
      else
        rbind (try_fold (\<lambda>m (share, c). account_add m i (cu_amount c) share) (en_coins e)
          (coins_by_owner (en_utxos e) (owner.Program i))) (\<lambda>coins.
        rbind (try_fold (\<lambda>m (share, v). account_add m (i, as_asset v) (as_amount v) share) (en_assets e)
          (shares_by_owner (ls_assets (en_state e)) (owner.Program i))) (\<lambda>assets.
        Ok (e\<lparr>en_coins := coins, en_assets := assets, en_ready := insert i (en_ready e)\<rparr>))))"

definition merge_change ::
  "asset_state \<Rightarrow> program_id set \<Rightarrow> (program_id \<times> hash \<rightharpoonup> 128 account) \<Rightarrow> hash \<times> asset_share option \<Rightarrow>
     (program_id \<times> hash \<rightharpoonup> 128 account, execution_error) result" where
  "merge_change st ready m = (\<lambda>(share, previous).
     rbind (case previous of
         Some v \<Rightarrow> if owner_program (as_owner v) \<in> ready
           then account_sub m (owner_program (as_owner v), as_asset v) (as_amount v) share else Ok m
       | None \<Rightarrow> Ok m) (\<lambda>m.
     case st_shares st share of
         Some v \<Rightarrow> if owner_program (as_owner v) \<in> ready
           then account_add m (owner_program (as_owner v), as_asset v) (as_amount v) share else Ok m
       | None \<Rightarrow> Ok m))"

definition merge_asset :: "engine \<Rightarrow> asset_journal \<Rightarrow> (engine, execution_error) result" where
  "merge_asset e j =
     rbind (try_fold (merge_change (ls_assets (en_state e)) (en_ready e)) (en_assets e) (aj_shares j)) (\<lambda>assets.
     Ok (e\<lparr>en_assets := assets, en_asset := Some (merge_option (en_asset e) j)\<rparr>))"

subsection \<open>Settlement of an invocation's effects\<close>

text \<open>Shares are taken in the given order until their total reaches the amount.\<close>

fun select_shares :: "(hash \<Rightarrow> 'w::len word option) \<Rightarrow> 'w word \<Rightarrow> 'w word \<Rightarrow> hash list \<Rightarrow> (hash list \<times> 'w word, execution_error) result" where
  "select_shares amount_of amount t [] = Ok ([], t)"
| "select_shares amount_of amount t (i # is) =
     rbind (ok_or (amount_of i) SettlementFailed) (\<lambda>v.
     rbind (ok_or (checked_add t v) ArithmeticOverflow) (\<lambda>t.
     if t \<ge> amount then Ok ([i], t)
     else rbind (select_shares amount_of amount t is) (\<lambda>(xs, t). Ok (i # xs, t))))"

definition effect_commitment :: "(bytes \<Rightarrow> hash) \<Rightarrow> string \<Rightarrow> hash \<Rightarrow> nat \<Rightarrow> hash" where
  "effect_commitment sha3 label commitment actions =
     domain sha3 AssetIntent (ascii label @ enc_array commitment @ u64_le (of_nat actions))"

definition settle_selection :: "engine \<Rightarrow> program_id \<Rightarrow> execution_result \<Rightarrow> bool \<Rightarrow> (engine \<times> hash list, execution_error) result" where
  "settle_selection e i r legacy_root = (case er_coin_transfer r of
     None \<Rightarrow> Ok (e, [])
   | Some request \<Rightarrow>
       let candidates =
         (if legacy_root then map fst (take MAX_TRANSFER_INPUTS (coins_by_owner (en_utxos e) (owner.Program i)))
          else account_shares (en_coins e i)) in
       rbind (select_shares (\<lambda>k. map_option cu_amount (coin (en_utxos e) k)) (tr_amount request) 0 candidates) (\<lambda>(selected, _).
       if legacy_root then Ok (e, selected)
       else rbind (charge e (of_nat (length selected))) (\<lambda>e. Ok (e, selected))))"

definition settle_consumed :: "engine \<Rightarrow> hash \<times> coin_utxo \<Rightarrow> (engine, execution_error) result" where
  "settle_consumed e p =
     rbind (if owner_program (cu_owner (snd p)) \<in> en_ready e
       then account_sub (en_coins e) (owner_program (cu_owner (snd p))) (cu_amount (snd p)) (fst p) else Ok (en_coins e)) (\<lambda>coins.
     let (consumed, created) = note_consumed p (en_consumed e, en_created e) in
     Ok (e\<lparr>en_coins := coins, en_consumed := consumed, en_created := created\<rparr>))"

definition settle_created :: "engine \<Rightarrow> hash \<Rightarrow> (engine, execution_error) result" where
  "settle_created e share =
     rbind (ok_or (coin (en_utxos e) share) SettlementFailed) (\<lambda>c.
     rbind (if owner_program (cu_owner c) \<in> en_ready e
       then account_add (en_coins e) (owner_program (cu_owner c)) (cu_amount c) share else Ok (en_coins e)) (\<lambda>coins.
     Ok (e\<lparr>en_coins := coins, en_created := insert share (en_created e)\<rparr>)))"

definition engine_settle ::
  "(bytes \<Rightarrow> hash) \<Rightarrow> vm_env \<Rightarrow> engine \<Rightarrow> program_id \<Rightarrow> execution_result \<Rightarrow> bool \<Rightarrow> (engine, execution_error) result" where
  "engine_settle sha3 env e i r legacy_root =
     rbind (ensure_accounts e i) (\<lambda>e.
     rbind (settle_selection e i r legacy_root) (\<lambda>(e, selected).
     rbind (vm_action e) (\<lambda>e.
     let commitment = (if legacy_root then ve_commitment env
       else effect_commitment sha3 ''xparq:vm-effects:v4'' (ve_commitment env) (en_actions e)) in
     rbind (map_err (\<lambda>_. SettlementFailed) (settle_with_inputs sha3 (ve_asset env) (en_state e) i r commitment (Some selected)))
       (\<lambda>(s, coin, asset).
     rbind (try_fold settle_consumed (e\<lparr>en_state := s\<rparr>) (cj_consumed coin)) (\<lambda>e.
     rbind (try_fold settle_created e (cj_created coin)) (\<lambda>e.
     case asset of None \<Rightarrow> Ok e | Some j \<Rightarrow> merge_asset e j))))))"

definition stage_call ::
  "vm_env \<Rightarrow> engine \<Rightarrow> program_id \<Rightarrow> asset_call \<Rightarrow> hash \<Rightarrow> (engine, execution_error) result" where
  "stage_call env e i call commitment =
     rbind (map_err (\<lambda>_. SettlementFailed) (stage_asset (ve_asset env) (ls_assets (en_state e)) call
         \<lparr>cx_actor = owner.Program i, cx_commitment = commitment\<rparr>)) (\<lambda>(st, j).
     merge_asset (e\<lparr>en_state := (en_state e)\<lparr>ls_assets := st\<rparr>\<rparr>) j)"

definition MAX_ASSET_TRANSFER_OUTPUTS :: nat where "MAX_ASSET_TRANSFER_OUTPUTS = 255"

definition transfer_total :: "asset_output list \<Rightarrow> (u128, execution_error) result" where
  "transfer_total outs = try_fold (\<lambda>t out.
     if ao_amount out = 0 then Err InvalidOperand else ok_or (checked_add t (ao_amount out)) ArithmeticOverflow) 0 outs"

definition select_asset :: "engine \<Rightarrow> program_id \<Rightarrow> hash \<Rightarrow> u128 \<Rightarrow> (hash list \<times> u128, execution_error) result" where
  "select_asset e i asset amount =
     select_shares (\<lambda>k. map_option as_amount (st_shares (ls_assets (en_state e)) k)) amount 0 (account_shares (en_assets e (i, asset)))"

definition transfer_asset_outputs ::
  "(bytes \<Rightarrow> hash) \<Rightarrow> vm_env \<Rightarrow> engine \<Rightarrow> program_id \<Rightarrow> hash \<Rightarrow> asset_output list \<Rightarrow> bool \<Rightarrow> (engine, execution_error) result" where
  "transfer_asset_outputs sha3 env e i asset outputs multiple =
     rbind (ensure_accounts e i) (\<lambda>e.
     rbind (transfer_total outputs) (\<lambda>amount.
     if amount = 0 then Err InvalidOperand
     else rbind (vm_action e) (\<lambda>e.
     rbind (select_asset e i asset amount) (\<lambda>(inputs, t).
     rbind (charge e (of_nat (length inputs))) (\<lambda>e.
     rbind (ok_or (checked_sub t amount) SettlementFailed) (\<lambda>change.
     let outputs = outputs @ (if change \<noteq> 0 then [\<lparr>ao_recipient = owner.Program i, ao_amount = change\<rparr>] else []) in
     if length outputs > MAX_ASSET_OUTPUTS then Err ResourceLimit
     else stage_call env e i (Transfer \<lparr>tf_asset = asset, tf_inputs = inputs, tf_outputs = outputs\<rparr>)
       (effect_commitment sha3 (if multiple then ''xparq:vm-asset-transfer-many:v1'' else ''xparq:vm-asset-transfer:v4'')
          (ve_commitment env) (en_actions e))))))))"

definition vm_transfer_asset ::
  "(bytes \<Rightarrow> hash) \<Rightarrow> vm_env \<Rightarrow> engine \<Rightarrow> program_id \<Rightarrow> hash \<Rightarrow> owner \<Rightarrow> u128 \<Rightarrow> (engine, execution_error) result" where
  "vm_transfer_asset sha3 env e i asset recipient amount =
     transfer_asset_outputs sha3 env e i asset [\<lparr>ao_recipient = recipient, ao_amount = amount\<rparr>] False"

definition transfer_asset_many ::
  "(bytes \<Rightarrow> hash) \<Rightarrow> vm_env \<Rightarrow> engine \<Rightarrow> program_id \<Rightarrow> hash \<Rightarrow> asset_output list \<Rightarrow> (engine, execution_error) result" where
  "transfer_asset_many sha3 env e i asset outputs =
     (if outputs = [] \<or> length outputs > MAX_ASSET_TRANSFER_OUTPUTS then Err ResourceLimit
      else rbind (charge e (of_nat (length outputs))) (\<lambda>e. transfer_asset_outputs sha3 env e i asset outputs True))"

definition vm_burn_asset ::
  "(bytes \<Rightarrow> hash) \<Rightarrow> vm_env \<Rightarrow> engine \<Rightarrow> program_id \<Rightarrow> hash \<Rightarrow> u128 \<Rightarrow> (engine, execution_error) result" where
  "vm_burn_asset sha3 env e i asset amount =
     rbind (ensure_accounts e i) (\<lambda>e.
     if amount = 0 then Err InvalidOperand
     else rbind (vm_action e) (\<lambda>e.
     rbind (select_asset e i asset amount) (\<lambda>(inputs, t).
     rbind (charge e (of_nat (length inputs))) (\<lambda>e.
     rbind (ok_or (checked_sub t amount) SettlementFailed) (\<lambda>rest.
     stage_call env e i (Burn \<lparr>bn_asset = asset, bn_inputs = inputs, bn_amount = amount, bn_output = rest\<rparr>)
       (effect_commitment sha3 ''xparq:vm-asset-burn:v4'' (ve_commitment env) (en_actions e)))))))"

subsection \<open>An invocation as a sequence of effects\<close>

definition MAX_CALL_FUEL :: u64 where "MAX_CALL_FUEL = 65536"

definition engine_init :: "ledger_state \<Rightarrow> engine" where
  "engine_init s = \<lparr>en_state = s, en_fuel = MAX_CALL_FUEL, en_calls = 0, en_actions = 0, en_active = [], en_ready = {},
     en_coins = Map.empty, en_assets = Map.empty, en_consumed = Map.empty, en_created = {}, en_asset = None,
     en_states = Map.empty, en_storage = Map.empty\<rparr>"

text \<open>The engines reached by successful effects, with the programs that acted.\<close>

inductive engine_run :: "(bytes \<Rightarrow> hash) \<Rightarrow> vm_env \<Rightarrow> engine \<Rightarrow> program_id set \<Rightarrow> engine \<Rightarrow> bool" for sha3 env e0 where
  start: "engine_run sha3 env e0 {} e0"
| settled: "engine_run sha3 env e0 X e \<Longrightarrow> engine_settle sha3 env e i r legacy_root = Ok e' \<Longrightarrow> engine_run sha3 env e0 (insert i X) e'"
| transferred: "engine_run sha3 env e0 X e \<Longrightarrow> vm_transfer_asset sha3 env e i asset x amount = Ok e' \<Longrightarrow> engine_run sha3 env e0 (insert i X) e'"
| distributed: "engine_run sha3 env e0 X e \<Longrightarrow> transfer_asset_many sha3 env e i asset outputs = Ok e' \<Longrightarrow> engine_run sha3 env e0 (insert i X) e'"
| burned: "engine_run sha3 env e0 X e \<Longrightarrow> vm_burn_asset sha3 env e i asset amount = Ok e' \<Longrightarrow> engine_run sha3 env e0 (insert i X) e'"

text \<open>Between effects only budgets and cached accounts change.\<close>

definition same_effects :: "engine \<Rightarrow> engine \<Rightarrow> bool" where
  "same_effects e e' \<longleftrightarrow> en_state e' = en_state e \<and> en_consumed e' = en_consumed e \<and> en_created e' = en_created e \<and>
     en_asset e' = en_asset e \<and> en_fuel e' \<le> en_fuel e"

lemma same_effects_trans: "same_effects e e1 \<Longrightarrow> same_effects e1 e2 \<Longrightarrow> same_effects e e2"
  by (auto simp: same_effects_def)

lemma charge_Ok: "charge e n = Ok e' \<Longrightarrow> same_effects e e' \<and> en_actions e' = en_actions e"
  by (auto simp: charge_def same_effects_def result_simps checked_simps word_le_nat_alt)

lemma vm_action_Ok: "vm_action e = Ok e' \<Longrightarrow> same_effects e e' \<and> en_actions e' = Suc (en_actions e) \<and> en_actions e' \<le> MAX_ACTIONS"
  by (auto simp: vm_action_def same_effects_def Let_def split: if_splits)

lemma ensure_accounts_Ok: "ensure_accounts e i = Ok e' \<Longrightarrow> same_effects e e' \<and> en_actions e' = en_actions e"
  by (auto simp: ensure_accounts_def same_effects_def result_simps split: if_splits)

lemma settle_selection_Ok: "settle_selection e i r l = Ok (e', xs) \<Longrightarrow> same_effects e e' \<and> en_actions e' = en_actions e"
  by (auto simp: settle_selection_def result_simps Let_def same_effects_def split: option.splits if_splits dest!: charge_Ok)

lemma merge_asset_Ok:
  "merge_asset e j = Ok e' \<Longrightarrow> en_state e' = en_state e \<and> en_consumed e' = en_consumed e \<and> en_created e' = en_created e \<and>
     en_asset e' = Some (merge_option (en_asset e) j) \<and> en_fuel e' = en_fuel e \<and> en_actions e' = en_actions e"
  by (auto simp: merge_asset_def result_simps)

lemma settle_consumed_Ok:
  "try_fold settle_consumed e xs = Ok e' \<Longrightarrow> (en_consumed e', en_created e') = fold note_consumed xs (en_consumed e, en_created e) \<and>
     en_state e' = en_state e \<and> en_asset e' = en_asset e \<and> en_fuel e' = en_fuel e \<and> en_actions e' = en_actions e"
proof (induction xs arbitrary: e)
  case (Cons x xs)
  obtain e1 where e1: "settle_consumed e x = Ok e1" "try_fold settle_consumed e1 xs = Ok e'" using Cons.prems by (auto simp: result_simps)
  have "(en_consumed e1, en_created e1) = note_consumed x (en_consumed e, en_created e) \<and>
     en_state e1 = en_state e \<and> en_asset e1 = en_asset e \<and> en_fuel e1 = en_fuel e \<and> en_actions e1 = en_actions e"
    using e1(1) by (auto simp: settle_consumed_def result_simps case_prod_unfold Let_def)
  then show ?case using Cons.IH [OF e1(2)] by simp
qed simp

lemma settle_created_Ok:
  "try_fold settle_created e ks = Ok e' \<Longrightarrow> en_created e' = en_created e \<union> set ks \<and> en_consumed e' = en_consumed e \<and>
     en_state e' = en_state e \<and> en_asset e' = en_asset e \<and> en_fuel e' = en_fuel e \<and> en_actions e' = en_actions e"
proof (induction ks arbitrary: e)
  case (Cons k ks)
  obtain e1 where e1: "settle_created e k = Ok e1" "try_fold settle_created e1 ks = Ok e'" using Cons.prems by (auto simp: result_simps)
  have "en_created e1 = insert k (en_created e) \<and> en_consumed e1 = en_consumed e \<and>
     en_state e1 = en_state e \<and> en_asset e1 = en_asset e \<and> en_fuel e1 = en_fuel e \<and> en_actions e1 = en_actions e"
    using e1(1) by (auto simp: settle_created_def result_simps)
  then show ?case using Cons.IH [OF e1(2)] by auto
qed simp

text \<open>What holds of an engine whose effects since \<open>s0\<close> were those of the programs \<open>X\<close>.\<close>

definition engine_tracks :: "ledger_state \<Rightarrow> program_id set \<Rightarrow> engine \<Rightarrow> bool" where
  "engine_tracks s0 X e \<longleftrightarrow>
     tracks_coins (ls_utxos s0) (en_consumed e) (en_created e) (en_utxos e) \<and>
     us_total_value (en_utxos e) = us_total_value (ls_utxos s0) \<and> cl_coin (ls_ledger (en_state e)) = cl_coin (ls_ledger s0) \<and>
     (\<forall>c \<in> ran (en_consumed e). cu_owner c \<in> owner.Program ` X) \<and>
     tracks_assets (ls_assets s0) (en_asset e) (owner.Program ` X) (ls_assets (en_state e)) \<and>
     ls_programs (en_state e) = ls_programs s0 \<and> en_fuel e \<le> MAX_CALL_FUEL \<and> en_actions e \<le> MAX_ACTIONS"

lemma engine_tracks_same:
  "engine_tracks s0 X e \<Longrightarrow> same_effects e e' \<Longrightarrow> en_actions e' \<le> MAX_ACTIONS \<Longrightarrow> engine_tracks s0 X e'"
  by (auto simp: engine_tracks_def same_effects_def)

lemma tracks_assets_mono: "tracks_assets st0 oj X st \<Longrightarrow> X \<subseteq> Y \<Longrightarrow> tracks_assets st0 oj Y st"
  by (fastforce simp: tracks_assets_def)

lemma stage_call_tracks:
  assumes app: "asset_application sha3 (ve_asset env)" and t: "engine_tracks s0 X e" and s: "stage_call env e i call commitment = Ok e'"
  shows "engine_tracks s0 (insert i X) e'"
proof -
  obtain st j where st: "stage_asset (ve_asset env) (ls_assets (en_state e)) call \<lparr>cx_actor = owner.Program i, cx_commitment = commitment\<rparr> = Ok (st, j)"
    and m: "merge_asset (e\<lparr>en_state := (en_state e)\<lparr>ls_assets := st\<rparr>\<rparr>) j = Ok e'"
    using s by (auto simp: stage_call_def result_simps)
  have "tracks_assets (ls_assets s0) (en_asset e) (owner.Program ` X) (ls_assets (en_state e))" using t by (simp add: engine_tracks_def)
  from stage_asset_tracks [OF app this st] merge_asset_Ok [OF m] t show ?thesis by (auto simp: engine_tracks_def)
qed

lemma ran_note_consumed: "fold note_consumed xs (C, K) = (C', K') \<Longrightarrow> ran C' \<subseteq> ran C \<union> snd ` set xs"
proof (induction xs arbitrary: C K)
  case (Cons x xs)
  obtain C1 K1 where 1: "note_consumed x (C, K) = (C1, K1)" by fastforce
  have "ran C1 \<subseteq> insert (snd x) (ran C)" using 1 by (auto simp: note_consumed_def case_prod_unfold ran_def split: if_splits)
  moreover have "ran C' \<subseteq> ran C1 \<union> snd ` set xs" using Cons.prems by (intro Cons.IH [where K = K1]) (simp add: 1)
  ultimately show ?case by auto
qed simp

lemma engine_settle_steps:
  assumes "engine_settle sha3 env e i r l = Ok e'"
  shows "\<exists>e1 e2 e3 commitment selected s cj asset. same_effects e e1 \<and> en_actions e1 = Suc (en_actions e) \<and> en_actions e1 \<le> MAX_ACTIONS \<and>
    settle_with_inputs sha3 (ve_asset env) (en_state e1) i r commitment (Some selected) = Ok (s, cj, asset) \<and>
    try_fold settle_consumed (e1\<lparr>en_state := s\<rparr>) (cj_consumed cj) = Ok e2 \<and> try_fold settle_created e2 (cj_created cj) = Ok e3 \<and>
    (case asset of None \<Rightarrow> Ok e3 | Some j \<Rightarrow> merge_asset e3 j) = Ok e'"
proof -
  obtain a b c selected s cj asset commitment e2 e3 where a: "ensure_accounts e i = Ok a" and b: "settle_selection a i r l = Ok (b, selected)"
    and c: "vm_action b = Ok c"
    and s: "settle_with_inputs sha3 (ve_asset env) (en_state c) i r commitment (Some selected) = Ok (s, cj, asset)"
      "try_fold settle_consumed (c\<lparr>en_state := s\<rparr>) (cj_consumed cj) = Ok e2" "try_fold settle_created e2 (cj_created cj) = Ok e3"
      "(case asset of None \<Rightarrow> Ok e3 | Some j \<Rightarrow> merge_asset e3 j) = Ok e'"
    using assms by (fastforce simp: engine_settle_def result_simps Let_def)
  have "same_effects e c \<and> en_actions c = Suc (en_actions e) \<and> en_actions c \<le> MAX_ACTIONS"
    using ensure_accounts_Ok [OF a] settle_selection_Ok [OF b] vm_action_Ok [OF c] by (auto intro: same_effects_trans)
  with s show ?thesis by blast
qed

lemma settled_tracks:
  assumes app: "asset_application sha3 (ve_asset env)" and t: "engine_tracks s0 X e1"
    and s: "settle_with_inputs sha3 (ve_asset env) (en_state e1) i r commitment (Some selected) = Ok (s, cj, asset)"
    and 2: "try_fold settle_consumed (e1\<lparr>en_state := s\<rparr>) (cj_consumed cj) = Ok e2"
    and 3: "try_fold settle_created e2 (cj_created cj) = Ok e3" and 4: "(case asset of None \<Rightarrow> Ok e3 | Some j \<Rightarrow> merge_asset e3 j) = Ok e'"
  shows "engine_tracks s0 (insert i X) e' \<and> en_actions e' = en_actions e1 \<and> en_fuel e' = en_fuel e1"
proof -
  obtain origin u st where cs: "coin_settle sha3 (en_utxos e1) (owner.Program i) r origin (Some selected) = Ok (u, cj)"
    and as: "asset_settle sha3 (ve_asset env) (ls_assets (en_state e1)) i r commitment origin = Ok (st, asset)"
    and s': "s = (en_state e1)\<lparr>ls_ledger := (ls_ledger (en_state e1))\<lparr>cl_utxos := u\<rparr>, ls_assets := st\<rparr>"
    using s by (auto simp: settle_with_inputs_def Let_def result_simps)
  have c2: "fold note_consumed (cj_consumed cj) (en_consumed e1, en_created e1) = (en_consumed e2, en_created e2)"
    using settle_consumed_Ok [OF 2] by simp
  have tc: "tracks_coins (ls_utxos s0) (en_consumed e1) (en_created e1) (en_utxos e1)" using t by (simp add: engine_tracks_def)
  note coins = coin_settle_exact [OF tc cs c2]
  have "cu_owner c \<in> owner.Program ` insert i X" if "c \<in> ran (en_consumed e2)" for c
    using that ran_note_consumed [OF c2] coins t by (fastforce simp: engine_tracks_def)
  moreover have "tracks_assets (ls_assets s0) (en_asset e') (owner.Program ` insert i X) st"
  proof -
    have ta: "tracks_assets (ls_assets s0) (en_asset e1) (owner.Program ` X) (ls_assets (en_state e1))" using t by (simp add: engine_tracks_def)
    then have new: "tracks_assets (ls_assets (en_state e1)) asset {owner.Program i} st"
      by (intro asset_settle_tracks [OF app _ as]) (simp add: tracks_assets_def)
    have same: "en_asset e3 = en_asset e1" using settle_consumed_Ok [OF 2] settle_created_Ok [OF 3] by simp
    show ?thesis
    proof (cases asset)
      case None
      then have "st = ls_assets (en_state e1)" "en_asset e' = en_asset e1" using new 4 same by (simp_all add: tracks_assets_def)
      then show ?thesis using tracks_assets_mono [OF ta] by auto
    next
      case (Some j)
      then have "en_asset e' = Some (merge_option (en_asset e1) j)" using 4 same merge_asset_Ok [of e3 j e'] by simp
      then show ?thesis using tracks_assets_trans [OF ta, of j "{owner.Program i}" st] new Some by (simp add: insert_commute)
    qed
  qed
  moreover have "en_state e' = s \<and> en_consumed e' = en_consumed e2 \<and> en_created e' = en_created e2 \<union> set (cj_created cj) \<and>
      en_fuel e' = en_fuel e1 \<and> en_actions e' = en_actions e1"
    using settle_consumed_Ok [OF 2] settle_created_Ok [OF 3] 4 merge_asset_Ok [of e3 _ e'] by (cases asset) auto
  ultimately show ?thesis using coins t by (auto simp: engine_tracks_def s')
qed

lemma engine_settle_tracks:
  assumes "asset_application sha3 (ve_asset env)" and "engine_tracks s0 X e" and "engine_settle sha3 env e i r l = Ok e'"
  shows "engine_tracks s0 (insert i X) e'"
proof -
  obtain e1 e2 e3 commitment selected s cj asset where e1: "same_effects e e1" "en_actions e1 \<le> MAX_ACTIONS"
    and st: "settle_with_inputs sha3 (ve_asset env) (en_state e1) i r commitment (Some selected) = Ok (s, cj, asset)"
      "try_fold settle_consumed (e1\<lparr>en_state := s\<rparr>) (cj_consumed cj) = Ok e2" "try_fold settle_created e2 (cj_created cj) = Ok e3"
      "(case asset of None \<Rightarrow> Ok e3 | Some j \<Rightarrow> merge_asset e3 j) = Ok e'"
    using engine_settle_steps [OF assms(3)] by blast
  show ?thesis using settled_tracks [OF assms(1) engine_tracks_same [OF assms(2) e1] st] by blast
qed

lemma transfer_asset_outputs_tracks:
  assumes "asset_application sha3 (ve_asset env)" and t: "engine_tracks s0 X e"
    and "transfer_asset_outputs sha3 env e i asset outputs multiple = Ok e'"
  shows "engine_tracks s0 (insert i X) e'"
proof -
  obtain a b c call commitment n where a: "ensure_accounts e i = Ok a" and b: "vm_action a = Ok b" and c: "charge b n = Ok c"
    and s: "stage_call env c i call commitment = Ok e'"
    using assms(3) by (auto simp: transfer_asset_outputs_def result_simps Let_def split: if_splits)
  have "same_effects e c" "en_actions c \<le> MAX_ACTIONS"
    using ensure_accounts_Ok [OF a] vm_action_Ok [OF b] charge_Ok [OF c] by (auto intro: same_effects_trans)
  from stage_call_tracks [OF assms(1) engine_tracks_same [OF t this] s] show ?thesis .
qed

lemma transfer_asset_many_tracks:
  assumes "asset_application sha3 (ve_asset env)" and t: "engine_tracks s0 X e" and "transfer_asset_many sha3 env e i asset outputs = Ok e'"
  shows "engine_tracks s0 (insert i X) e'"
proof -
  obtain a n where a: "charge e n = Ok a" and s: "transfer_asset_outputs sha3 env a i asset outputs True = Ok e'"
    using assms(3) by (auto simp: transfer_asset_many_def result_simps split: if_splits)
  have "engine_tracks s0 X a" using charge_Ok [OF a] t by (intro engine_tracks_same [OF t]) (auto simp: engine_tracks_def)
  from transfer_asset_outputs_tracks [OF assms(1) this s] show ?thesis .
qed

lemma vm_burn_asset_tracks:
  assumes "asset_application sha3 (ve_asset env)" and t: "engine_tracks s0 X e" and "vm_burn_asset sha3 env e i asset amount = Ok e'"
  shows "engine_tracks s0 (insert i X) e'"
proof -
  obtain a b c call commitment n where a: "ensure_accounts e i = Ok a" and b: "vm_action a = Ok b" and c: "charge b n = Ok c"
    and s: "stage_call env c i call commitment = Ok e'"
    using assms(3) by (auto simp: vm_burn_asset_def result_simps split: if_splits)
  have "same_effects e c" "en_actions c \<le> MAX_ACTIONS"
    using ensure_accounts_Ok [OF a] vm_action_Ok [OF b] charge_Ok [OF c] by (auto intro: same_effects_trans)
  from stage_call_tracks [OF assms(1) engine_tracks_same [OF t this] s] show ?thesis .
qed

lemma engine_run_tracks:
  assumes "engine_run sha3 env (engine_init s0) X e" and app: "asset_application sha3 (ve_asset env)"
    and inv: "utxo_inv (ls_utxos s0)" "asset_inv (ls_assets s0)"
  shows "engine_tracks s0 X e"
  using assms(1)
proof (induction rule: engine_run.induct)
  case start
  show ?case using tracks_start [OF inv(1)] tracks_assets_start [OF inv(2)] by (simp add: engine_tracks_def engine_init_def)
next
  case (settled X e i r l e')
  then show ?case by (intro engine_settle_tracks [OF app])
next
  case (transferred X e i asset x amount e')
  then show ?case by (intro transfer_asset_outputs_tracks [OF app]) (simp_all add: vm_transfer_asset_def)
next
  case (distributed X e i asset outputs e')
  then show ?case by (intro transfer_asset_many_tracks [OF app])
next
  case (burned X e i asset amount e')
  then show ?case by (intro vm_burn_asset_tracks [OF app])
qed

definition invocation_journal :: "engine \<Rightarrow> coin_journal" where
  "invocation_journal e = \<lparr>cj_consumed = map_entries (en_consumed e), cj_created = sorted_list_of_set (en_created e),
     cj_mined = 0, cj_burned = 0\<rparr>"

lemma invocation_journal_undoes:
  assumes t: "engine_tracks s0 X e" and inv: "utxo_inv (ls_utxos s0)"
  shows "rollback_coin (ls_ledger (en_state e)) (invocation_journal e) = (ls_ledger s0, Ok ())"
proof -
  have tc: "tracks_coins (ls_utxos s0) (en_consumed e) (en_created e) (en_utxos e)" using t by (simp add: engine_tracks_def)
  then have fin: "finite (dom (en_consumed e))" "finite (en_created e)"
    using inv by (auto simp: tracks_coins_def utxo_inv_def intro: finite_subset dest!: map_le_implies_dom_le)
  have "rollback_coin \<lparr>cl_utxos = en_utxos e, cl_coin = cl_coin (ls_ledger s0)\<rparr> (invocation_journal e) =
      (\<lparr>cl_utxos = ls_utxos s0, cl_coin = cl_coin (ls_ledger s0)\<rparr>, Ok ())"
    unfolding invocation_journal_def
    by (rule tracks_rollback [OF tc inv]) (use fin map_of_map_entries [OF fin(1)] fm.entries_ordered [OF fin(1)] in \<open>simp_all add: strict_sorted_iff\<close>)
  moreover have "cl_coin (ls_ledger (en_state e)) = cl_coin (ls_ledger s0)" using t by (simp add: engine_tracks_def)
  ultimately show ?thesis by (cases "ls_ledger (en_state e)"; cases "ls_ledger s0") simp
qed

lemma owner_in_image: "x \<in> owner.Program ` X \<longleftrightarrow> owner_program x \<in> X"
  by (cases x) auto

lemma spent_coin_owner:
  assumes "engine_tracks s X e" and c: "us_coins (ls_utxos s) i = Some c" "us_coins (en_utxos e) i \<noteq> Some c"
  shows "owner_program (cu_owner c) \<in> X"
proof -
  have tc: "tracks_coins (ls_utxos s) (en_consumed e) (en_created e) (en_utxos e)"
    and own: "\<forall>c \<in> ran (en_consumed e). cu_owner c \<in> owner.Program ` X" using assms(1) unfolding engine_tracks_def by blast+
  have "i \<in> dom (en_consumed e)" using tc c by (cases "i \<in> en_created e") (auto simp: tracks_coins_def split: if_splits)
  then have "en_consumed e i = Some c" using tc c(1) by (auto simp: tracks_coins_def map_le_def)
  then show ?thesis using own unfolding owner_in_image by (auto simp: ran_def)
qed

lemma tracked_assets_undone:
  assumes ta: "tracks_assets st0 oj Y st" and inv: "asset_inv st0"
  shows "case oj of None \<Rightarrow> st = st0
     | Some j \<Rightarrow> let st' = asset_rollback st j in
         st_records st' = st_records st0 \<and> st_shares st' = st_shares st0 \<and>
         st_by_owner st' = st_by_owner st0 \<and> st_roles st' = st_roles st0 \<and>
         ((\<forall>x a. balance (st_shares st0) x a + balance (st_shares st) x a < 2 ^ 128) \<longrightarrow> st' = st0)"
proof (cases oj)
  case (Some j)
  have ix: "indexed st0" "indexed st" "balanced st" using inv ta unfolding asset_inv_def tracks_assets_def by blast+
  have rem: "remembers j st0 st" using ta unfolding tracks_assets_def Some option.case by blast
  note r = asset_rollback_restores [OF ix(2) rem]
  show ?thesis unfolding Some option.case Let_def
    using r indexed_unique [OF ix(1)] asset_rollback_exact [OF inv ix(2,3) rem] by blast
qed (use ta in \<open>simp add: tracks_assets_def\<close>)

subsection \<open>Properties\<close>

text \<open>C9. Whatever sequence of effects the programs of an invocation request (settlements of coins and assets, asset
  transfers to one or many recipients, burns), with any application behind the asset host: the total of coins, the minted
  and burned totals and the programs stay as they were, every coin or share that existed before and is gone belonged to a program
  that acted, the coin and asset invariants hold, and no more fuel and actions are used than the invocation has. The
  coin journal of the invocation takes the coin ledger back exactly. The merged asset journal restores records,
  shares, owner index and roles, and the whole asset state, cached balances included, when the balances of every
  owner before and after the invocation together fit the 128-bit amount.\<close>

theorem engine_effects_exact:
  assumes "asset_application sha3 (ve_asset env)" and "utxo_inv (ls_utxos s)" and "asset_inv (ls_assets s)"
    and "engine_run sha3 env (engine_init s) X e"
  shows "us_total_value (en_utxos e) = us_total_value (ls_utxos s) \<and> cl_coin (ls_ledger (en_state e)) = cl_coin (ls_ledger s) \<and>
    en_programs e = ls_programs s \<and>
    (\<forall>i c. us_coins (ls_utxos s) i = Some c \<and> us_coins (en_utxos e) i \<noteq> Some c \<longrightarrow> owner_program (cu_owner c) \<in> X) \<and>
    (\<forall>i v. st_shares (ls_assets s) i = Some v \<and> st_shares (ls_assets (en_state e)) i \<noteq> Some v \<longrightarrow> owner_program (as_owner v) \<in> X) \<and>
    utxo_inv (en_utxos e) \<and> asset_inv (ls_assets (en_state e)) \<and> en_actions e \<le> MAX_ACTIONS \<and> en_fuel e \<le> MAX_CALL_FUEL \<and>
    rollback_coin (ls_ledger (en_state e)) (invocation_journal e) = (ls_ledger s, Ok ()) \<and>
    (case en_asset e of
       None \<Rightarrow> ls_assets (en_state e) = ls_assets s
     | Some j \<Rightarrow> let st = asset_rollback (ls_assets (en_state e)) j in
         st_records st = st_records (ls_assets s) \<and> st_shares st = st_shares (ls_assets s) \<and>
         st_by_owner st = st_by_owner (ls_assets s) \<and> st_roles st = st_roles (ls_assets s) \<and>
         ((\<forall>x a. balance (st_shares (ls_assets s)) x a + balance (st_shares (ls_assets (en_state e))) x a < 2 ^ 128) \<longrightarrow>
          st = ls_assets s))"
proof -
  have t: "engine_tracks s X e" by (rule engine_run_tracks [OF assms(4,1,2,3)])
  have parts: "us_total_value (en_utxos e) = us_total_value (ls_utxos s)" "cl_coin (ls_ledger (en_state e)) = cl_coin (ls_ledger s)"
      "en_programs e = ls_programs s" "en_actions e \<le> MAX_ACTIONS" "en_fuel e \<le> MAX_CALL_FUEL"
    and tc: "tracks_coins (ls_utxos s) (en_consumed e) (en_created e) (en_utxos e)"
    and ta: "tracks_assets (ls_assets s) (en_asset e) (owner.Program ` X) (ls_assets (en_state e))"
    using t unfolding engine_tracks_def by blast+
  have invs: "utxo_inv (en_utxos e)" "asset_inv (ls_assets (en_state e))"
    using tc ta unfolding tracks_coins_def tracks_assets_def by blast+
  have shares: "\<forall>i v. st_shares (ls_assets s) i = Some v \<and> st_shares (ls_assets (en_state e)) i \<noteq> Some v \<longrightarrow> owner_program (as_owner v) \<in> X"
    using ta unfolding tracks_assets_def owner_in_image by blast
  show ?thesis
    using parts invs shares spent_coin_owner [OF t] invocation_journal_undoes [OF t assms(2)] tracked_assets_undone [OF ta assms(3)]
    by (intro conjI) blast+
qed

text \<open>A program that owns one coin and sends all of it away.\<close>

definition sample_ledger :: "program_id \<Rightarrow> hash \<Rightarrow> ledger_state" where
  "sample_ledger i k = \<lparr>ls_ledger = \<lparr>cl_utxos = \<lparr>us_coins = [k \<mapsto> \<lparr>cu_amount = 5, cu_owner = owner.Program i\<rparr>], us_total_value = 5,
       us_by_owner = [owner.Program i \<mapsto> {k}]\<rparr>, cl_coin = \<lparr>cr_total_mined = 5, cr_total_burned = 0\<rparr>\<rparr>,
     ls_programs = registry_default, ls_assets = sample_state 2 5\<rparr>"

definition sample_env :: "(bytes \<Rightarrow> hash) \<Rightarrow> vm_env" where
  "sample_env sha3 = \<lparr>ve_asset = system_asset sha3, ve_signer = [], ve_height = 0, ve_commitment = []\<rparr>"

definition sample_request :: "program_id \<Rightarrow> execution_result" where
  "sample_request x = \<lparr>er_value = 0, er_fuel_used = 0, er_proposed_effect = None,
     er_coin_transfer = Some \<lparr>tr_recipient = owner.Program x, tr_amount = 5\<rparr>, er_asset_transfer = None, er_asset_register = None, er_asset_mint = None\<rparr>"

lemma sample_ledger_inv: "utxo_inv (ls_utxos (sample_ledger i k))"
proof -
  have "insert_coin utxo_default k \<lparr>cu_amount = 5, cu_owner = owner.Program i\<rparr> = Ok (ls_utxos (sample_ledger i k))"
    by (simp add: insert_coin_def utxo_default_def checked_add_def sample_ledger_def index_add_def fun_eq_iff)
  from insert_coin_inv [OF utxo_inv_default this] show ?thesis .
qed

lemma sample_settled:
  assumes "k \<noteq> k'" and "owner.Program i \<noteq> sample_owner"
  shows "\<exists>e. engine_settle (\<lambda>_. k') (sample_env (\<lambda>_. k')) (engine_init (sample_ledger i k)) i (sample_request x) False = Ok e \<and>
    us_coins (en_utxos e) = [k' \<mapsto> \<lparr>cu_amount = 5, cu_owner = owner.Program x\<rparr>] \<and> en_fuel e = MAX_CALL_FUEL - 1"
  using assms
  by (simp add: engine_settle_def ensure_accounts_def engine_init_def sample_ledger_def coins_by_owner_def List.map_filter_def
      account_add_def account_of_def checked_add_def shares_by_owner_def sample_state_def
      settle_selection_def sample_request_def account_shares_def MAX_TRANSFER_INPUTS_def coin_def charge_def MAX_CALL_FUEL_def checked_sub_def
      vm_action_def MAX_ACTIONS_def Let_def settle_with_inputs_def coin_settle_def settle_candidates_def consume_inputs_def consume_coin_def
      insert_coins_def insert_coin_def from_output_def domain_def coin_journal_default_def asset_settle_def settle_register_def
      settle_mint_def settle_transfer_def settle_consumed_def account_sub_def note_consumed_def settle_created_def upt_rec)

theorem engine_effects_exact_witness:
  "\<exists>e. engine_run (\<lambda>_. [3]) (sample_env (\<lambda>_. [3])) (engine_init (sample_ledger [1] [2])) {[1]} e \<and>
     us_coins (en_utxos e) = [[3] \<mapsto> \<lparr>cu_amount = 5, cu_owner = owner.Program [4]\<rparr>] \<and>
     us_total_value (en_utxos e) = 5 \<and> rollback_coin (ls_ledger (en_state e)) (invocation_journal e) = (ls_ledger (sample_ledger [1] [2]), Ok ())"
proof -
  have "length [1 :: u8] \<noteq> length (replicate 32 (7 :: u8))" by simp
  then have "owner.Program [1] \<noteq> sample_owner" unfolding sample_owner_def owner.inject by metis
  then obtain e where e: "engine_settle (\<lambda>_. [3]) (sample_env (\<lambda>_. [3])) (engine_init (sample_ledger [1] [2])) [1] (sample_request [4]) False = Ok e"
    "us_coins (en_utxos e) = [[3] \<mapsto> \<lparr>cu_amount = 5, cu_owner = owner.Program [4]\<rparr>]"
    using sample_settled [of "[2]" "[3]" "[1]" "[4]"] by auto
  have run: "engine_run (\<lambda>_. [3]) (sample_env (\<lambda>_. [3])) (engine_init (sample_ledger [1] [2])) {[1]} e"
    by (rule engine_run.settled [OF engine_run.start e(1)])
  have app: "asset_application (\<lambda>_. [3]) (ve_asset (sample_env (\<lambda>_. [3])))"
    unfolding sample_env_def vm_env.simps by (rule system_assets.asset_application_axioms)
  have "asset_inv (ls_assets (sample_ledger [1] [2]))" using sample_inv [of 5] by (simp add: sample_ledger_def)
  from engine_effects_exact [OF app sample_ledger_inv this run] run e(2) show ?thesis by (auto simp: sample_ledger_def)
qed

end
