(* ===== verification/Spec2Isabelle.thy ===== *)
theory Spec2Isabelle
  imports State_Map Asset_View Fork_Choice Vm_Accounts
begin

text \<open>
  \<^bold>\<open>XPARQ: a verification development\<close>

  XPARQ is a proof-of-work block chain in Rust. The crate \<open>kernel\<close> holds the deterministic part:
  the monetary policy and difficulty rules, blocks and headers, fork choice, the ledger of
  unspent coins and assets, and the program machine. The crate \<open>crypto\<close> holds hashes,
  signatures and their encodings; \<open>extension\<close> the applications the node installs for coins and
  assets; \<open>runtime\<close> is the node (storage, network, mempool, miner); \<open>wallet\<close> and \<open>devkit\<close> are clients.

  \<^bold>\<open>How the parts interact.\<close> A block is decoded, checked on its own, and validated against the chain
  it extends. Its header links it to its parent and commits to its body by a Merkle root. Each
  operation of the body carries a signed payment in coins and a program call. A payment or an
  asset call is executed by an application, which reaches the ledger only through a restricted
  host. Deployed programs propose monetary effects, which the kernel settles with its own
  routines. Every change leaves a journal, and a reorganization undoes blocks by their journals.

  \<^bold>\<open>Foundations\<close>
  \<^item> \<open>Prelude\<close>: the Rust result type, checked and saturating machine arithmetic, byte encodings.
  \<^item> \<open>Tables\<close>: the interface of an ordered table, and its instance on finite maps.
  \<^item> \<open>State_Map\<close> (\<^verbatim>\<open>kernel/src/state_map.rs\<close>): the balanced tree behind every ledger table. It implements
    the finite map, and its iteration order makes equal contents equal.
  \<^item> \<open>Wire\<close> (\<^verbatim>\<open>crypto/src/codec.rs\<close>, Borsh): locale \<open>codec\<close>, one encoding per value, with one interpretation
    per wire type in the theory of the type.
  \<^item> \<open>Hashing\<close> (\<^verbatim>\<open>crypto/src/hash.rs\<close>): domain-separated hashes and their text form.
  \<^item> \<open>Merkle\<close> (\<^verbatim>\<open>kernel/src/blockchain/merkle.rs\<close>): roots and inclusion proofs, complete and sound.
  \<^item> \<open>Signatures\<close> (\<^verbatim>\<open>crypto/src/signature.rs\<close>, \<^verbatim>\<open>agility\<close>, \<^verbatim>\<open>program_id.rs\<close>): schemes, keys, identities.

  \<^bold>\<open>Consensus\<close> (\<^verbatim>\<open>kernel/src/consensus\<close>, \<^verbatim>\<open>kernel/src/blockchain\<close>)
  \<^item> \<open>Target\<close>, \<open>Work\<close>: targets and accumulated work, computed in limbs, against numbers.
  \<^item> \<open>Policy\<close>: difficulty adjustment, subsidy and burn.
  \<^item> \<open>Blocks\<close>: decoding accepts exactly the blocks that obey the rules stated in \<open>block_rules\<close>; the root
    commits to the body.
  \<^item> \<open>Header_Chain\<close>: the windowed validation loop accepts exactly the valid header chains, and
    validating from a checkpoint is validating from genesis.
  \<^item> \<open>Chain\<close>: every chain a ledger can reach synchronizes; block acceptance is characterized.
  \<^item> \<open>Fork_Choice\<close>: the best tip is the unique maximum for every order of arrival, and reorganization
    plans are exact.

  \<^bold>\<open>Ledger and programs\<close> (\<^verbatim>\<open>kernel/src/ledger\<close>, \<^verbatim>\<open>kernel/src/program\<close>)
  \<^item> \<open>Monetary\<close>, \<open>Coin_Utxo\<close>: value types, identifiers, and the set of unspent coins with its index.
  \<^item> \<open>Coin_Host\<close>: coin transitions through the restricted host; locale \<open>coin_application\<close>. An accepted
    transition is the declared one whatever the application does, a rejected one changes nothing.
  \<^item> \<open>Asset_Program\<close>, \<open>Asset_State\<close>, \<open>Asset_Journal\<close>, \<open>Asset_View\<close>, \<open>Asset_Host\<close>: asset calls, their
    accounting, journals, quotes and host; locale \<open>asset_application\<close>. Undoing restores the tables and their
    indexes; the cached balances come back when balances before and after together fit 128 bits. For
    a share moved whole to its own owner the loss beyond that bound is computed exactly.
  \<^item> \<open>Operations\<close>: what a block carries and what a signature authorizes.
  \<^item> \<open>VM\<close>: code validation, and the interpreter of code versions 1 to 3.
  \<^item> \<open>Registry\<close>: deployed programs, storage, deployment and rollback; locale \<open>fold_reader\<close>.
  \<^item> \<open>Settlement\<close> (\<^verbatim>\<open>program/vm_transfer\<close>): settlement of the proposals of a program.
  \<^item> \<open>Vm_Accounts\<close> (\<^verbatim>\<open>program/vm_app/engine\<close>): budgets, cached accounts and monetary effects of an
    invocation; any sequence of effects spends only what the acting programs own and is undone by its
    journals, the cached asset balances under the same bound.

  \<^bold>\<open>Conventions.\<close> Machine integers are words, \<open>usize\<close> is a natural number, a fallible function
  returns a result, and a function that mutates before it fails returns the state it leaves with the
  result. Tables are partial functions with finite domain. SHA3-256, Argon2id and signature
  verification are parameters. No lemma assumes that SHA3-256 has no collisions: statements of
  binding end in equality or in two explicit messages with the same hash, and for signatures also in one
  signature accepted for two commitments. Where the code relies on fresh identifiers this is a hypothesis of the
  theorem: no output of a coin transition has the identifier of an input, and a funded transition is
  accepted when its output identifiers are unused and distinct.

  \<^bold>\<open>Bounds and termination.\<close> Loops over data recurse on the data or carry a termination proof. The loops
  of \<open>Fork_Choice\<close> that follow parents are partial functions, and the theorems show that they return
  on every tree built by insertions. Chains are assumed shorter than \<open>2 ^ 64\<close>, the range of a height.
  The interpreter of versions 1 to 3 moves forward through the code, so it needs no bound; \<open>None\<close> is a
  panic, and validated code never reaches it.

  \<^bold>\<open>Not modelled.\<close>
  \<^item> The opcode interpreter of version 4 code and its nested calls (\<^verbatim>\<open>vm_app/engine/interpreter.rs\<close>,
    \<open>Engine::call\<close>), and the receipt and preview of \<^verbatim>\<open>vm_app/execution.rs\<close>. Its code validation is in \<open>VM\<close>
    and the operations it requests are in \<open>Vm_Accounts\<close>.
  \<^item> The composition of a whole block over the ledger (\<^verbatim>\<open>ledger/canonical\<close>, \<^verbatim>\<open>ledger/applied/deploy.rs\<close>,
    \<^verbatim>\<open>ledger/applied/program_call.rs\<close>) and the admission of deployments and calls (\<^verbatim>\<open>consensus/deploy.rs\<close>,
    \<^verbatim>\<open>consensus/program_call\<close>, \<^verbatim>\<open>program/preparation.rs\<close>, \<^verbatim>\<open>vm_transfer/quote.rs\<close>): they run that interpreter.
  \<^item> The supply audit cache and the snapshot encoding of assets (\<^verbatim>\<open>supply.rs\<close>, \<^verbatim>\<open>encoding.rs\<close>).
  \<^item> Genesis data, which is constant; the genesis hash is a parameter.
  \<^item> Signature algorithms, key generation and the packages under \<^verbatim>\<open>depend\<close>, which are third-party code.
  \<^item> \<open>runtime\<close>, \<open>wallet\<close> and \<open>devkit\<close>: network, disk, threads and terminal around the kernel.
\<close>

end
